(* ===== verification/Obfs_Prelude.thy ===== *)
theory Obfs_Prelude
  imports Main "HOL-Library.Word" "HOL-Library.Finite_Map"
begin

text \<open>
  Shared vocabulary of the development.

  \<^item> Machine integers are words: \<open>u8\<close>, \<open>u16\<close>, \<open>u32\<close>; a byte slice or a byte vector is a
    list of \<open>u8\<close>. Fixed-size arrays such as \<^verbatim>\<open>[u8; 32]\<close> are byte lists too.
  \<^item> A Rust string is a \<open>string\<close> whose characters are its UTF-8 bytes; \<open>str_bytes\<close> is
    \<^verbatim>\<open>as_bytes\<close>.
  \<^item> A hash map is a finite map; \<open>fmsize\<close> is \<^verbatim>\<open>len()\<close> and \<open>retain\<close> is
    \<^verbatim>\<open>HashMap::retain\<close> with a predicate on the values.
  \<^item> Two interfaces that several components share: a \<open>codec\<close> (encoder and decoder of a wire
    format) and a \<open>step_invariant\<close> (an invariant that every event of a state machine keeps).
\<close>

unbundle bit_operations_syntax

type_synonym u8 = "8 word"
type_synonym u16 = "16 word"
type_synonym u32 = "32 word"
type_synonym bytes = "u8 list"

named_theorems wire_defs \<open>definitions of the wire encoders and decoders\<close>

definition str_bytes :: "string \<Rightarrow> bytes" where
  "str_bytes s = map of_char s"

definition bytes_str :: "bytes \<Rightarrow> string" where
  "bytes_str bs = map (\<lambda>b. char_of (unat b)) bs"

definition u16_to_be_bytes :: "u16 \<Rightarrow> bytes" where
  "u16_to_be_bytes w = [ucast (drop_bit 8 w), ucast w]"

definition u16_from_be_bytes :: "u8 \<Rightarrow> u8 \<Rightarrow> u16" where
  "u16_from_be_bytes a b = push_bit 8 (ucast a) OR ucast b"

definition fmsize :: "('k, 'v) fmap \<Rightarrow> nat" where
  "fmsize m = fcard (fmdom m)"

definition retain :: "('v \<Rightarrow> bool) \<Rightarrow> ('k, 'v) fmap \<Rightarrow> ('k, 'v) fmap" where
  "retain P m = fmfilter (\<lambda>k. case fmlookup m k of None \<Rightarrow> False | Some v \<Rightarrow> P v) m"

subsection \<open>Strings and bytes\<close>

lemma length_str_bytes [simp]: "length (str_bytes s) = length s"
  by (simp add: str_bytes_def)

lemma length_bytes_str [simp]: "length (bytes_str s) = length s"
  by (simp add: bytes_str_def)

lemma str_bytes_append [simp]: "str_bytes (s @ t) = str_bytes s @ str_bytes t"
  by (simp add: str_bytes_def)

lemma str_bytes_Nil [simp]: "str_bytes [] = []"
  by (simp add: str_bytes_def)

lemma str_bytes_Cons [simp]: "str_bytes (c # s) = of_char c # str_bytes s"
  by (simp add: str_bytes_def)

lemma bytes_str_append [simp]: "bytes_str (s @ t) = bytes_str s @ bytes_str t"
  by (simp add: bytes_str_def)

lemma unat_u8_less: "unat (b :: u8) < 256"
proof -
  have "unat b < 2 ^ LENGTH(8)" by (rule unsigned_less)
  then show ?thesis by simp
qed

lemma unat_u16_less: "unat (w :: u16) < 65536"
proof -
  have "unat w < 2 ^ LENGTH(16)" by (rule unsigned_less)
  then show ?thesis by simp
qed

lemma unat_of_char_u8: "unat (of_char c :: u8) = of_char c"
proof -
  have "(of_char c :: nat) < 2 ^ LENGTH(8)" by simp
  then have "unat (of_nat (of_char c) :: u8) = of_char c" by (simp add: unat_of_nat)
  moreover have "(of_nat (of_char c) :: u8) = of_char c" by (simp only: of_nat_of_char)
  ultimately show ?thesis by simp
qed

lemma char_of_of_char_u8 [simp]: "char_of (unat (of_char c :: u8)) = c"
  by (simp add: unat_of_char_u8)

lemma of_char_char_of_u8 [simp]: "(of_char (char_of (unat b)) :: u8) = b"
proof -
  have b: "unat b < 256" by (rule unat_u8_less)
  have "(of_char (char_of (unat b)) :: u8) = of_nat (of_char (char_of (unat b)))"
    by (simp only: of_nat_of_char)
  also have "(of_char (char_of (unat b)) :: nat) = unat b" using b by simp
  finally show ?thesis by simp
qed

lemma bytes_str_str_bytes [simp]: "bytes_str (str_bytes s) = s"
  by (simp add: bytes_str_def str_bytes_def o_def)

lemma str_bytes_bytes_str [simp]: "str_bytes (bytes_str b) = b"
  by (simp add: bytes_str_def str_bytes_def o_def)

lemma str_bytes_inj [simp]: "str_bytes s = str_bytes t \<longleftrightarrow> s = t"
  by (metis bytes_str_str_bytes)

subsection \<open>Big-endian 16-bit lengths\<close>

lemma length_u16_to_be_bytes [simp]: "length (u16_to_be_bytes w) = 2"
  by (simp add: u16_to_be_bytes_def)

lemma u16_from_to_be: "u16_from_be_bytes (ucast (drop_bit 8 w)) (ucast w) = w"
  unfolding u16_from_be_bytes_def
  by (rule bit_word_eqI) (auto simp: bit_simps)

lemma u16_to_from_be: "u16_to_be_bytes (u16_from_be_bytes a b) = [a, b]"
proof -
  have no_high: "\<not> bit b (8 + n)" for n using bit_imp_le_length [of b "8 + n"] by auto
  show ?thesis
    unfolding u16_to_be_bytes_def u16_from_be_bytes_def
    by (auto intro!: bit_word_eqI simp: bit_simps no_high)
qed

subsection \<open>Finite maps as hash maps\<close>

lemma fmlookup_retain:
  "fmlookup (retain P m) k =
     (case fmlookup m k of None \<Rightarrow> None | Some v \<Rightarrow> if P v then Some v else None)"
  by (simp add: retain_def split: option.splits)

lemma retain_empty [simp]: "retain P fmempty = fmempty"
  by (rule fmap_ext) (simp add: fmlookup_retain)

lemma retain_upd_empty [simp]: "retain P (fmupd k v fmempty) = (if P v then fmupd k v fmempty else fmempty)"
  by (rule fmap_ext) (simp add: fmlookup_retain)

lemma fmdrop_single [simp]: "fmdrop k (fmupd k v fmempty) = fmempty"
  by (rule fmap_ext) simp

lemma retain_all: "(\<And>k v. fmlookup m k = Some v \<Longrightarrow> P v) \<Longrightarrow> retain P m = m"
  by (rule fmap_ext) (simp add: fmlookup_retain split: option.splits)

lemma fmdom_retain_subset: "fmdom (retain P m) |\<subseteq>| fmdom m"
  by (auto simp: retain_def)

lemma fmsize_retain_le: "fmsize (retain P m) \<le> fmsize m"
  unfolding fmsize_def by (rule fcard_mono) (rule fmdom_retain_subset)

lemma fmsize_empty [simp]: "fmsize fmempty = 0"
  by (simp add: fmsize_def)

lemma fmlookup_None: "fmlookup m k = None \<longleftrightarrow> k |\<notin>| fmdom m"
  by (metis fmdom_notD fmdom_notI)

lemma fmsize_upd:
  "fmsize (fmupd k v m) = (if fmlookup m k = None then Suc (fmsize m) else fmsize m)"
  by (simp add: fmsize_def fcard_finsert_if fmlookup_None)

lemma fmsize_drop:
  "fmsize (fmdrop k m) = (if fmlookup m k = None then fmsize m else fmsize m - 1)"
  by (simp add: fmsize_def fcard_fminus_fsingleton_if fmlookup_None)

lemma fmsize_of_list: "distinct (map fst xs) \<Longrightarrow> fmsize (fmap_of_list xs) = length xs"
  using distinct_card [of "map fst xs"] by (simp add: fmsize_def fcard.rep_eq fset_of_list.rep_eq)

lemma fmsize_pos: "fmlookup m k = Some v \<Longrightarrow> 0 < fmsize m"
  unfolding fmsize_def
  by (metis fcard_0_eq fempty_iff fmdomI gr0I)

lemma fmsize_drop_Suc: "fmlookup m k = Some v \<Longrightarrow> Suc (fmsize (fmdrop k m)) = fmsize m"
  using fmsize_pos [of m k v] by (simp add: fmsize_drop)

subsection \<open>Interfaces\<close>

text \<open>
  A wire format: \<open>encode\<close> writes a well-formed value and \<open>decode\<close> reads it back. A canonical
  codec also accepts nothing but its own encodings.
\<close>

locale codec =
  fixes wf :: "'a \<Rightarrow> bool"
    and encode :: "'a \<Rightarrow> bytes"
    and decode :: "bytes \<Rightarrow> 'a option"
  assumes decode_encode: "wf x \<Longrightarrow> decode (encode x) = Some x"
begin

lemma encode_inj: "wf x \<Longrightarrow> wf y \<Longrightarrow> encode x = encode y \<Longrightarrow> x = y"
  using decode_encode by (metis option.inject)

end

locale canonical_codec = codec +
  assumes decode_sound: "decode bs = Some x \<Longrightarrow> wf x \<and> encode x = bs"
begin

lemma decode_Some_iff: "decode bs = Some x \<longleftrightarrow> wf x \<and> encode x = bs"
  using decode_sound decode_encode by blast

lemma decode_inj: "decode bs = Some x \<Longrightarrow> decode cs = Some x \<Longrightarrow> bs = cs"
  using decode_sound by blast

end

text \<open>
  A state machine with a step function, the events that may occur, and an invariant that each
  of them keeps; the invariant then holds after every run.
\<close>

locale step_invariant =
  fixes step :: "'s \<Rightarrow> 'e \<Rightarrow> 's"
    and ok :: "'e \<Rightarrow> bool"
    and inv :: "'s \<Rightarrow> bool"
  assumes step_inv: "inv s \<Longrightarrow> ok e \<Longrightarrow> inv (step s e)"
begin

lemma run_inv: "inv s \<Longrightarrow> list_all ok es \<Longrightarrow> inv (foldl step s es)"
  by (induction es arbitrary: s) (auto intro: step_inv)

end

end
