(* ===== verification/Noise_Api.thy ===== *)
theory Noise_Api
  imports Obfs_Prelude
begin

text \<open>
  The Noise XK state machine of \<^verbatim>\<open>vaiexia-wire\<close>, an argument of both handshakes. Creating a state
  draws entropy of its own, so the constructors take a number that names the draw.

  \<open>noise_contract\<close>: an initiator and a responder whose static keys match complete the three
  messages, the responder reads the payload of the third and learns the initiator's public key
  (\<open>pub\<close> maps a private key to its public one). An XK message without or with a 32-byte payload is
  at most 96 bytes long; the contract asks for 128.
\<close>

record 'h noise_api =
  hs_initiator :: "nat \<Rightarrow> bytes \<Rightarrow> bytes \<Rightarrow> string + 'h"
  hs_responder :: "nat \<Rightarrow> bytes \<Rightarrow> string + 'h"
  hs_write :: "'h \<Rightarrow> bytes \<Rightarrow> (string + bytes) \<times> 'h"
  hs_read :: "'h \<Rightarrow> bytes \<Rightarrow> (string + bytes) \<times> 'h"
  hs_remote_static :: "'h \<Rightarrow> bytes option"

definition xk_run :: "'h noise_api \<Rightarrow> 'h \<Rightarrow> 'h \<Rightarrow> bytes \<Rightarrow> bytes \<Rightarrow> bool" where
  "xk_run N i0 r0 payload static \<longleftrightarrow>
     (\<exists>msg1 i1 r1 msg2 r2 i2 msg3 i3 r3.
        hs_write N i0 [] = (Inr msg1, i1) \<and> hs_read N r0 msg1 = (Inr [], r1) \<and>
        hs_write N r1 [] = (Inr msg2, r2) \<and> hs_read N i1 msg2 = (Inr [], i2) \<and>
        hs_write N i2 payload = (Inr msg3, i3) \<and> hs_read N r2 msg3 = (Inr payload, r3) \<and>
        hs_remote_static N r3 = Some static \<and>
        length msg1 \<le> 128 \<and> length msg2 \<le> 128 \<and> length msg3 \<le> 128)"

definition noise_contract :: "'h noise_api \<Rightarrow> (bytes \<Rightarrow> bytes) \<Rightarrow> bool" where
  "noise_contract N pub \<longleftrightarrow>
     (\<forall>e e' client server. length client = 32 \<longrightarrow> length server = 32 \<longrightarrow>
        (\<exists>i0 r0. hs_initiator N e client (pub server) = Inr i0 \<and> hs_responder N e' server = Inr r0 \<and>
           (\<forall>payload. length payload \<le> 32 \<longrightarrow> xk_run N i0 r0 payload (pub client))))"

text \<open>
  A concrete state machine for evaluation: messages in clear, marked with their number, the third
  carrying the sender's key.
\<close>

definition demo_key :: bytes where
  "demo_key = replicate 32 7"

definition demo_write :: "bytes \<times> nat \<times> bytes option \<Rightarrow> bytes \<Rightarrow> (string + bytes) \<times> (bytes \<times> nat \<times> bytes option)" where
  "demo_write hs p = (case hs of (k, n, rs) \<Rightarrow>
     (Inr (of_nat n # (if n = 2 then k @ p else p)), (k, Suc n, rs)))"

definition demo_read :: "bytes \<times> nat \<times> bytes option \<Rightarrow> bytes \<Rightarrow> (string + bytes) \<times> (bytes \<times> nat \<times> bytes option)" where
  "demo_read hs msg = (case hs of (k, n, rs) \<Rightarrow>
     (case msg of
        [] \<Rightarrow> (Inl ''short'', hs)
      | t # b \<Rightarrow>
          if t \<noteq> of_nat n then (Inl ''order'', hs)
          else if n \<noteq> 2 then (Inr b, (k, Suc n, rs))
          else if length b < 32 then (Inl ''short'', hs)
          else (Inr (drop 32 b), (k, Suc n, Some (take 32 b)))))"

definition demo_noise :: "(bytes \<times> nat \<times> bytes option) noise_api" where
  "demo_noise =
     \<lparr>hs_initiator = (\<lambda>_ k _. Inr (k, 0, None)), hs_responder = (\<lambda>_ k. Inr (k, 0, None)),
      hs_write = demo_write, hs_read = demo_read, hs_remote_static = (\<lambda>(_, _, rs). rs)\<rparr>"

lemma demo_noise_contract: "noise_contract demo_noise id"
  unfolding noise_contract_def xk_run_def
  by (simp add: demo_noise_def demo_write_def demo_read_def)

end
