(* ===== verification/Async_IO.thy ===== *)
theory Async_IO
  imports Obfs_Prelude
begin

text \<open>
  The byte streams and futures the code runs on, and the error type of \<^verbatim>\<open>src/lib.rs\<close>.

  A stream is what one endpoint of a TCP connection sees: the segments that have arrived and not
  been read (\<open>rx\<close>), what a read meets after them (\<open>rx_end\<close>: more may come, end of file, or an
  error), the bytes written so far (\<open>tx\<close>), and how many more bytes the peer will take before
  writes fail (\<open>tx_cap\<close>; no limit when it is \<open>None\<close>). A future polled on a stream is ready with
  a value, ready with an error, or \<open>Blocked\<close>: it waits for bytes that have not arrived.

  \<open>io_action\<close> collects what every sequence of reads and writes has in common: it only removes a
  prefix of the input and only appends to the output, it cannot block once the input has ended,
  and its result does not depend on how the input was cut into segments.
\<close>

datatype io_kind = UnexpectedEof | InvalidData | NotFound | BrokenPipe | Other | OsKind nat

datatype io_error = IoError io_kind string

datatype obfs_error =
    Closed
  | FrameTooLarge nat nat
  | Wire string
  | Io io_error
  | Serde string
  | Core string
  | HandshakeFailed string
  | ObfsTimeout

datatype ('e, 'a) res = Ok 'a | Err 'e | Blocked

datatype rx_status = Open | Eof | RxErr io_error

record stream =
  rx :: "bytes list"
  rx_end :: rx_status
  tx :: bytes
  tx_cap :: "nat option"

type_synonym ('e, 'a) io = "stream \<Rightarrow> ('e, 'a) res \<times> stream"

definition flat :: "stream \<Rightarrow> bytes" where
  "flat st = concat (rx st)"

fun take_chunk :: "nat \<Rightarrow> bytes list \<Rightarrow> (bytes \<times> bytes list) option" where
  "take_chunk n [] = None"
| "take_chunk n (c # cs) = (if c = [] then take_chunk n cs else Some (take n c, drop n c # cs))"

fun drop_chunks :: "nat \<Rightarrow> bytes list \<Rightarrow> bytes list" where
  "drop_chunks n [] = []"
| "drop_chunks n (c # cs) = (if n \<le> length c then drop n c # cs else drop_chunks (n - length c) cs)"

definition read_some :: "nat \<Rightarrow> (io_error, bytes) io" where
  "read_some n st =
     (case take_chunk n (rx st) of
        Some (b, cs) \<Rightarrow> (Ok b, st\<lparr>rx := cs\<rparr>)
      | None \<Rightarrow> (case rx_end st of Open \<Rightarrow> Blocked | Eof \<Rightarrow> Ok [] | RxErr e \<Rightarrow> Err e, st))"

definition read_exact :: "nat \<Rightarrow> (io_error, bytes) io" where
  "read_exact n st =
     (if n \<le> length (flat st) then (Ok (take n (flat st)), st\<lparr>rx := drop_chunks n (rx st)\<rparr>)
      else (case rx_end st of
              Open \<Rightarrow> Blocked
            | Eof \<Rightarrow> Err (IoError UnexpectedEof ''early eof'')
            | RxErr e \<Rightarrow> Err e, st\<lparr>rx := []\<rparr>))"

definition write_all :: "bytes \<Rightarrow> (io_error, unit) io" where
  "write_all bs st =
     (case tx_cap st of
        None \<Rightarrow> (Ok (), st\<lparr>tx := tx st @ bs\<rparr>)
      | Some c \<Rightarrow>
          if length bs \<le> c
          then (Ok (), st\<lparr>tx := tx st @ bs, tx_cap := Some (c - length bs)\<rparr>)
          else (Err (IoError BrokenPipe ''broken pipe''),
                st\<lparr>tx := tx st @ take c bs, tx_cap := Some 0\<rparr>))"

definition io_ret :: "'a \<Rightarrow> ('e, 'a) io" where
  "io_ret x st = (Ok x, st)"

definition io_fail :: "'e \<Rightarrow> ('e, 'a) io" where
  "io_fail e st = (Err e, st)"

definition io_bind :: "('e, 'a) io \<Rightarrow> ('a \<Rightarrow> ('e, 'b) io) \<Rightarrow> ('e, 'b) io" where
  "io_bind m f st =
     (case m st of
        (Ok x, st') \<Rightarrow> f x st'
      | (Err e, st') \<Rightarrow> (Err e, st')
      | (Blocked, st') \<Rightarrow> (Blocked, st'))"

fun io_res :: "(io_error, 'a) res \<Rightarrow> (obfs_error, 'a) res" where
  "io_res (Ok x) = Ok x"
| "io_res (Err e) = Err (Io e)"
| "io_res Blocked = Blocked"

definition io_try :: "(io_error, 'a) io \<Rightarrow> (obfs_error, 'a) io" where
  "io_try m st = (case m st of (r, st') \<Rightarrow> (io_res r, st'))"

definition io_other :: "string \<Rightarrow> obfs_error" where
  "io_other msg = Io (IoError Other msg)"

definition same_stream :: "stream \<Rightarrow> stream \<Rightarrow> bool" where
  "same_stream st st' \<longleftrightarrow>
     flat st = flat st' \<and> rx_end st = rx_end st' \<and> tx st = tx st' \<and> tx_cap st = tx_cap st'"

definition io_action :: "('e, 'a) io \<Rightarrow> bool" where
  "io_action m \<longleftrightarrow>
     (\<forall>st. rx_end (snd (m st)) = rx_end st) \<and>
     (\<forall>st. \<exists>c. flat st = c @ flat (snd (m st))) \<and>
     (\<forall>st. \<exists>w. tx (snd (m st)) = tx st @ w) \<and>
     (\<forall>st. rx_end st \<noteq> Open \<longrightarrow> fst (m st) \<noteq> Blocked) \<and>
     (\<forall>st st'. same_stream st st' \<longrightarrow>
        fst (m st) = fst (m st') \<and> same_stream (snd (m st)) (snd (m st')))"

named_theorems io_actions \<open>which operations are io actions\<close>

subsection \<open>Segments\<close>

lemma take_chunk_None: "take_chunk n cs = None \<longleftrightarrow> concat cs = []"
  by (induction cs) auto

lemma take_chunk_Some:
  "take_chunk n cs = Some (b, cs') \<Longrightarrow> 0 < n \<Longrightarrow> b \<noteq> [] \<and> length b \<le> n \<and> concat cs = b @ concat cs'"
  by (induction cs) (auto split: if_splits)

lemma concat_drop_chunks: "n \<le> length (concat cs) \<Longrightarrow> concat (drop_chunks n cs) = drop n (concat cs)"
  by (induction cs arbitrary: n) auto

lemma flat_rx_upd [simp]: "flat (st\<lparr>rx := cs\<rparr>) = concat cs"
  by (simp add: flat_def)

lemma flat_tx_upd [simp]: "flat (st\<lparr>tx := w\<rparr>) = flat st"
  by (simp add: flat_def)

lemma flat_tx_cap_upd [simp]: "flat (st\<lparr>tx_cap := w\<rparr>) = flat st"
  by (simp add: flat_def)

lemma flat_read_exact_Ok:
  "n \<le> length (flat st) \<Longrightarrow> concat (drop_chunks n (rx st)) = drop n (flat st)"
  by (simp add: flat_def concat_drop_chunks)

subsection \<open>The rules of io actions\<close>

lemma io_actionI:
  assumes "\<And>st. rx_end (snd (m st)) = rx_end st"
    and "\<And>st. \<exists>c. flat st = c @ flat (snd (m st))"
    and "\<And>st. \<exists>w. tx (snd (m st)) = tx st @ w"
    and "\<And>st. rx_end st \<noteq> Open \<Longrightarrow> fst (m st) \<noteq> Blocked"
    and "\<And>st st'. same_stream st st' \<Longrightarrow> fst (m st) = fst (m st')"
    and "\<And>st st'. same_stream st st' \<Longrightarrow> same_stream (snd (m st)) (snd (m st'))"
  shows "io_action m"
  using assms unfolding io_action_def by blast

lemma io_actionD:
  assumes "io_action m"
  shows "rx_end (snd (m st)) = rx_end st"
    and "\<exists>c. flat st = c @ flat (snd (m st))"
    and "\<exists>w. tx (snd (m st)) = tx st @ w"
    and "rx_end st \<noteq> Open \<Longrightarrow> fst (m st) \<noteq> Blocked"
    and "same_stream st st' \<Longrightarrow> fst (m st) = fst (m st')"
    and "same_stream st st' \<Longrightarrow> same_stream (snd (m st)) (snd (m st'))"
  using assms unfolding io_action_def by blast+

lemma io_action_ret [io_actions]: "io_action (io_ret x)"
  by (rule io_actionI) (auto simp: io_ret_def)

lemma io_action_fail [io_actions]: "io_action (io_fail e)"
  by (rule io_actionI) (auto simp: io_fail_def)

lemma io_action_write_all [io_actions]: "io_action (write_all bs)"
  by (rule io_actionI) (auto simp: write_all_def same_stream_def split: option.splits)

lemma io_action_read_exact [io_actions]: "io_action (read_exact n)"
proof (rule io_actionI)
  fix st
  show "\<exists>c. flat st = c @ flat (snd (read_exact n st))"
    by (auto simp: read_exact_def flat_read_exact_Ok) (metis append_take_drop_id)
qed (auto simp: read_exact_def same_stream_def flat_read_exact_Ok split: rx_status.splits)

lemma io_try_eq: "io_try m st = (io_res (fst (m st)), snd (m st))"
  by (simp add: io_try_def split: prod.splits)

lemma io_res_Blocked [simp]: "io_res r = Blocked \<longleftrightarrow> r = Blocked"
  by (cases r) simp_all

lemma io_action_try [io_actions]: "io_action m \<Longrightarrow> io_action (io_try m)"
proof (rule io_actionI)
  assume m: "io_action m"
  show "fst (io_try m st) = fst (io_try m st')" if "same_stream st st'" for st st'
    using io_actionD(5) [OF m that] by (simp add: io_try_eq)
  show "same_stream (snd (io_try m st)) (snd (io_try m st'))" if "same_stream st st'" for st st'
    using io_actionD(6) [OF m that] by (simp add: io_try_eq)
qed (simp_all add: io_try_eq io_actionD(1-4))

lemma io_bind_Ok: "m st = (Ok x, st') \<Longrightarrow> io_bind m f st = f x st'"
  by (simp add: io_bind_def)

lemma io_bind_Err: "m st = (Err e, st') \<Longrightarrow> io_bind m f st = (Err e, st')"
  by (simp add: io_bind_def)

lemma io_bind_Blocked: "m st = (Blocked, st') \<Longrightarrow> io_bind m f st = (Blocked, st')"
  by (simp add: io_bind_def)

lemmas io_bind_simps = io_bind_Ok io_bind_Err io_bind_Blocked

lemma io_action_bind [io_actions]:
  assumes m: "io_action m" and f: "\<And>x. io_action (f x)"
  shows "io_action (io_bind m f)"
proof (rule io_actionI)
  fix st
  obtain r s where ms: "m st = (r, s)" by (cases "m st")
  note D = io_actionD [OF m, of st, unfolded ms snd_conv fst_conv]
  show "rx_end (snd (io_bind m f st)) = rx_end st"
    using D(1) io_actionD(1) [OF f] by (cases r) (simp_all add: io_bind_simps ms)
  show "\<exists>c. flat st = c @ flat (snd (io_bind m f st))"
  proof (cases r)
    case (Ok x)
    from D(2) obtain c where "flat st = c @ flat s" by blast
    moreover from io_actionD(2) [OF f] obtain d where "flat s = d @ flat (snd (f x s))" by blast
    ultimately have "flat st = (c @ d) @ flat (snd (f x s))" by simp
    then show ?thesis using Ok by (auto simp: io_bind_simps ms)
  qed (use D(2) in \<open>simp_all add: io_bind_simps ms\<close>)
  show "\<exists>w. tx (snd (io_bind m f st)) = tx st @ w"
  proof (cases r)
    case (Ok x)
    from D(3) obtain c where "tx s = tx st @ c" by blast
    moreover from io_actionD(3) [OF f] obtain d where "tx (snd (f x s)) = tx s @ d" by blast
    ultimately show ?thesis using Ok by (auto simp: io_bind_simps ms)
  qed (use D(3) in \<open>simp_all add: io_bind_simps ms\<close>)
  show "fst (io_bind m f st) \<noteq> Blocked" if "rx_end st \<noteq> Open"
    using that D(1) D(4) io_actionD(4) [OF f, of s] by (cases r) (simp_all add: io_bind_simps ms)
next
  fix st st' assume s: "same_stream st st'"
  obtain r u where mu: "m st = (r, u)" by (cases "m st")
  obtain u' where mu': "m st' = (r, u')"
    using io_actionD(5) [OF m s] mu by (cases "m st'") simp
  have u: "same_stream u u'" using io_actionD(6) [OF m s] by (simp add: mu mu')
  show "fst (io_bind m f st) = fst (io_bind m f st')"
    using io_actionD(5) [OF f u] by (cases r) (simp_all add: io_bind_simps mu mu')
  show "same_stream (snd (io_bind m f st)) (snd (io_bind m f st'))"
    using u io_actionD(6) [OF f u] by (cases r) (simp_all add: io_bind_simps mu mu')
qed

lemma io_action_if [io_actions]: "io_action m \<Longrightarrow> io_action n \<Longrightarrow> io_action (if b then m else n)"
  by simp

subsection \<open>Evaluation on a stream\<close>

lemma read_exact_flat:
  assumes "flat st = bs @ rest" and "length bs = n"
  shows "\<exists>st'. read_exact n st = (Ok bs, st') \<and> flat st' = rest \<and> rx_end st' = rx_end st \<and>
    tx st' = tx st \<and> tx_cap st' = tx_cap st"
  using assms by (auto simp: read_exact_def flat_read_exact_Ok)

lemma write_all_uncapped:
  "tx_cap st = None \<Longrightarrow> write_all bs st = (Ok (), st\<lparr>tx := tx st @ bs\<rparr>)"
  by (simp add: write_all_def)

lemma read_some_Ok:
  assumes "read_some n st = (Ok (b # bs), st')" and "0 < n"
  shows "flat st = (b # bs) @ flat st'" and "rx_end st' = rx_end st" and "tx st' = tx st"
    and "tx_cap st' = tx_cap st"
  using assms take_chunk_Some
  by (auto simp: read_some_def flat_def split: option.splits rx_status.splits)

end
