(* ===== verification/Envelope.thy ===== *)
theory Envelope
  imports Async_IO
begin

text \<open>
  The multiplexing envelope of \<^verbatim>\<open>src/envelope.rs\<close>, with what the transport sees of the
  \<^verbatim>\<open>vaiexia-core\<close> types it carries. The transport reads a request's and a response's id and an
  event's topic and hands the rest on unread: the type variable \<open>'x\<close> stands for everything it
  carries opaquely (method, parameters, outcome, payload, filter, diagnostic). A \<^verbatim>\<open>Topic\<close>, a
  \<^verbatim>\<open>RequestId\<close> and a \<^verbatim>\<open>Capability\<close> are their strings.

  \<open>serde\<close> is the \<^verbatim>\<open>serde_json\<close> coder of envelopes and \<open>service\<close> a \<^verbatim>\<open>vaiexia_core\<close> service; both
  are arguments of the definitions that use them. A service may keep state: its answer depends on
  the requests it handled before. An event source is a broadcast channel, named by a number; several
  topics may share one. A \<open>subscription\<close> is a task of a server that forwards the events of one topic
  from a source to a connection. \<open>serde_ok\<close> says that one envelope survives the coder.
\<close>

record 'x request =
  req_id :: string
  req_body :: 'x

record 'x response =
  resp_id :: string
  resp_body :: 'x

record 'x event =
  ev_topic :: string
  ev_body :: 'x

datatype 'x envelope =
    Request "'x request"
  | Response "'x response"
  | Event "'x event"
  | Subscribe string "'x option" "string option"
  | Unsubscribe string
  | SubscribeError string 'x
  | Ping
  | Pong

datatype 'x core_error = Disconnected | CoreTimeout | Auth 'x | OtherCore string

record 'x serde =
  to_vec :: "'x envelope \<Rightarrow> string + bytes"
  from_slice :: "bytes \<Rightarrow> string + 'x envelope"

record 'x service =
  svc_handle :: "'x request list \<Rightarrow> 'x request \<Rightarrow> 'x response"
  svc_verify_topic :: "string option \<Rightarrow> string \<Rightarrow> 'x core_error + unit"
  svc_event_source :: "string \<Rightarrow> nat option"
  diag_error :: "string \<Rightarrow> string \<Rightarrow> 'x"

record subscription =
  sub_source :: nat
  sub_topic :: string
  sub_conn :: nat

definition deny_diag :: "'x service \<Rightarrow> 'x core_error \<Rightarrow> 'x" where
  "deny_diag svc err =
     (case err of
        Auth d \<Rightarrow> d
      | _ \<Rightarrow> diag_error svc ''FORBIDDEN'' ''subscription denied'')"

definition serde_ok :: "'x serde \<Rightarrow> 'x envelope \<Rightarrow> bool" where
  "serde_ok J env \<longleftrightarrow> (case to_vec J env of Inl _ \<Rightarrow> False | Inr b \<Rightarrow> from_slice J b = Inr env)"

lemma serde_okE:
  assumes "serde_ok J env"
  obtains b where "to_vec J env = Inr b" and "from_slice J b = Inr env"
  using assms by (auto simp: serde_ok_def split: sum.splits)

end
