(* ===== verification/Demo_Serde.thy ===== *)
theory Demo_Serde
  imports Envelope
begin

text \<open>
  A concrete coder of envelopes without payload, for evaluating the definitions that take one: a
  byte for the kind, then the id or topic.
\<close>

fun plain_to_vec :: "unit envelope \<Rightarrow> string + bytes" where
  "plain_to_vec Ping = Inr [0]"
| "plain_to_vec Pong = Inr [1]"
| "plain_to_vec (Request r) = Inr (2 # str_bytes (req_id r))"
| "plain_to_vec (Response r) = Inr (3 # str_bytes (resp_id r))"
| "plain_to_vec (Subscribe t f c) = Inr (4 # str_bytes t)"
| "plain_to_vec (Event e) = Inr (5 # str_bytes (ev_topic e))"
| "plain_to_vec _ = Inl ''unsupported''"

definition plain_from_slice :: "bytes \<Rightarrow> string + unit envelope" where
  "plain_from_slice b =
     (case b of
        [] \<Rightarrow> Inl ''eof''
      | t # s \<Rightarrow>
          if t = 0 then Inr Ping
          else if t = 1 then Inr Pong
          else if t = 2 then Inr (Request \<lparr>req_id = bytes_str s, req_body = ()\<rparr>)
          else if t = 3 then Inr (Response \<lparr>resp_id = bytes_str s, resp_body = ()\<rparr>)
          else if t = 4 then Inr (Subscribe (bytes_str s) None None)
          else if t = 5 then Inr (Event \<lparr>ev_topic = bytes_str s, ev_body = ()\<rparr>)
          else Inl ''unknown kind'')"

definition plain_serde :: "unit serde" where
  "plain_serde = \<lparr>to_vec = plain_to_vec, from_slice = plain_from_slice\<rparr>"

lemma plain_serde_ok [simp]:
  "serde_ok plain_serde Ping" "serde_ok plain_serde Pong"
  "serde_ok plain_serde (Request r)" "serde_ok plain_serde (Response p)"
  "serde_ok plain_serde (Event e)" "serde_ok plain_serde (Subscribe t None None)"
  by (simp_all add: serde_ok_def plain_serde_def plain_from_slice_def)

end
