(* ===== verification/Wire_Dgram.thy ===== *)
theory Wire_Dgram
  imports Obfs_Prelude
begin

text \<open>
  Inner datagram framing, \<^verbatim>\<open>src/udp/wire_dgram.rs\<close>: a type byte followed by the body.
\<close>

datatype dgram_type = Hs1 | Hs2 | Hs3 | Cookie | Data

fun from_byte :: "u8 \<Rightarrow> dgram_type option" where
  "from_byte b =
     (if b = 0x01 then Some Hs1
      else if b = 0x02 then Some Hs2
      else if b = 0x03 then Some Hs3
      else if b = 0x04 then Some Cookie
      else if b = 0x05 then Some Data
      else None)"

fun as_byte :: "dgram_type \<Rightarrow> u8" where
  "as_byte Hs1 = 0x01"
| "as_byte Hs2 = 0x02"
| "as_byte Hs3 = 0x03"
| "as_byte Cookie = 0x04"
| "as_byte Data = 0x05"

definition encode_inner :: "dgram_type \<Rightarrow> bytes \<Rightarrow> bytes" where
  [wire_defs]: "encode_inner ty body = as_byte ty # body"

fun decode_inner :: "bytes \<Rightarrow> (dgram_type \<times> bytes) option" where
  "decode_inner [] = None"
| "decode_inner (b # body) =
     (case from_byte b of None \<Rightarrow> None | Some ty \<Rightarrow> Some (ty, body))"

lemma from_byte_as_byte [simp]: "from_byte (as_byte ty) = Some ty"
  by (cases ty) simp_all

lemma from_byte_Some: "from_byte b = Some ty \<Longrightarrow> b = as_byte ty"
  by (auto split: if_splits)

lemma from_byte_None: "from_byte b = None \<longleftrightarrow> b = 0 \<or> 5 < b"
proof -
  have "unat b = 0 \<or> unat b = 1 \<or> unat b = 2 \<or> unat b = 3 \<or> unat b = 4 \<or> unat b = 5 \<or> 5 < unat b"
    by arith
  then show ?thesis
    by (auto simp: word_less_nat_alt word_unat_eq_iff)
qed

lemma decode_encode_inner [simp]: "decode_inner (encode_inner ty body) = Some (ty, body)"
  by (simp add: wire_defs del: from_byte.simps)

lemma decode_inner_Some: "decode_inner bs = Some (ty, body) \<Longrightarrow> bs = encode_inner ty body"
  by (cases bs) (auto simp: wire_defs dest: from_byte_Some split: option.splits simp del: from_byte.simps)

interpretation inner: canonical_codec "\<lambda>_. True" "\<lambda>(ty, body). encode_inner ty body" decode_inner
  by unfold_locales (auto dest: decode_inner_Some)

text \<open>
  The inner framing is a bijection between typed bodies and the byte strings it accepts:
  a datagram decodes to a type and a body exactly when it is the encoding of that pair, so
  encoding round-trips and no other bytes are accepted.
\<close>

theorem decode_inner_iff:
  "decode_inner bs = Some (ty, body) \<longleftrightarrow> bs = encode_inner ty body"
  using inner.decode_Some_iff [of bs "(ty, body)"] by auto

text \<open>
  A datagram is rejected exactly when it is empty or its first byte is not one of the five
  type bytes 1 to 5.
\<close>

theorem decode_inner_reject:
  "decode_inner bs = None \<longleftrightarrow> bs = [] \<or> (\<exists>b body. bs = b # body \<and> (b = 0 \<or> 5 < b))"
proof (cases bs)
  case (Cons b body)
  have "from_byte b = None \<longleftrightarrow> b = 0 \<or> 5 < b"
    by (rule from_byte_None)
  with Cons show ?thesis by (cases "from_byte b") (simp_all del: from_byte.simps)
qed simp

end
