(* ===== verification/Dataplane.thy ===== *)
theory Dataplane
  imports Demo_Serde Noise_Api Wire_Dgram
begin

text \<open>
  The UDP data channel, \<^verbatim>\<open>src/udp/dataplane.rs\<close>: envelopes are coded, sealed as records, framed
  and shaped; datagrams are unshaped, unframed, opened and decoded.

  The record layer (\<^verbatim>\<open>RecordSealer\<close>, \<^verbatim>\<open>RecordOpener\<close>) and the mimicry of \<^verbatim>\<open>vaiexia-wire\<close> are
  arguments. What the channel relies on is named here: \<open>mimicry_ok\<close> (the receiver recovers the
  inner datagram) and \<open>record_contract\<close>, the documented behaviour of a record layer with explicit
  counters that authenticates before it checks for replay. Its ghost arguments are \<open>auth\<close>, the
  key, counter and plaintext a record authenticates; \<open>sst\<close>, a sealer's key and next counter;
  \<open>ost\<close>, an opener's key and the counters it has accepted; and \<open>w\<close>, the size of its window.
\<close>

record 'g dgram_mimicry =
  shape_out :: "bytes \<Rightarrow> 'g \<Rightarrow> bytes \<times> 'g"
  shape_in :: "bytes \<Rightarrow> bytes option"

record ('sl, 'op) record_api =
  sealer_new :: "bytes \<Rightarrow> 'sl"
  opener_new :: "bytes \<Rightarrow> 'op"
  rec_seal :: "'sl \<Rightarrow> bytes \<Rightarrow> bytes \<Rightarrow> (string + bytes) \<times> 'sl"
  rec_open :: "'op \<Rightarrow> bytes \<Rightarrow> bytes \<Rightarrow> (string + bytes) \<times> 'op"

record ('sl, 'op, 'g) data_channel =
  sealer :: 'sl
  opener :: 'op
  mimic :: "'g dgram_mimicry"

definition data_channel_new :: "'sl \<Rightarrow> 'op \<Rightarrow> 'g dgram_mimicry \<Rightarrow> ('sl, 'op, 'g) data_channel" where
  "data_channel_new s r m = \<lparr>sealer = s, opener = r, mimic = m\<rparr>"

definition seal_envelope ::
  "('sl, 'op) record_api \<Rightarrow> 'x serde \<Rightarrow> ('sl, 'op, 'g) data_channel \<Rightarrow> 'x envelope \<Rightarrow> 'g \<Rightarrow>
   (obfs_error + bytes) \<times> ('sl, 'op, 'g) data_channel \<times> 'g" where
  "seal_envelope R J ch env rng =
     (case to_vec J env of
        Inl e \<Rightarrow> (Inl (Serde e), ch, rng)
      | Inr json \<Rightarrow>
          (case rec_seal R (sealer ch) json [] of
             (Inl e, s) \<Rightarrow> (Inl (Wire e), ch\<lparr>sealer := s\<rparr>, rng)
           | (Inr rc, s) \<Rightarrow>
               (case shape_out (mimic ch) (encode_inner Data rc) rng of
                  (out, rng') \<Rightarrow> (Inr out, ch\<lparr>sealer := s\<rparr>, rng'))))"

definition open_datagram ::
  "('sl, 'op) record_api \<Rightarrow> 'x serde \<Rightarrow> ('sl, 'op, 'g) data_channel \<Rightarrow> bytes \<Rightarrow>
   (obfs_error + 'x envelope option) \<times> ('sl, 'op, 'g) data_channel" where
  "open_datagram R J ch datagram =
     (case shape_in (mimic ch) datagram of
        None \<Rightarrow> (Inr None, ch)
      | Some inner \<Rightarrow>
          (case decode_inner inner of
             None \<Rightarrow> (Inr None, ch)
           | Some (ty, rc) \<Rightarrow>
               if ty \<noteq> Data then (Inr None, ch)
               else
                 (case rec_open R (opener ch) rc [] of
                    (Inl _, r) \<Rightarrow> (Inr None, ch\<lparr>opener := r\<rparr>)
                  | (Inr plaintext, r) \<Rightarrow>
                      (case from_slice J plaintext of
                         Inr env \<Rightarrow> (Inr (Some env), ch\<lparr>opener := r\<rparr>)
                       | Inl _ \<Rightarrow> (Inr None, ch\<lparr>opener := r\<rparr>)))))"

fun open_all ::
  "('sl, 'op) record_api \<Rightarrow> 'x serde \<Rightarrow> ('sl, 'op, 'g) data_channel \<Rightarrow> bytes list \<Rightarrow>
   'x envelope option list \<times> ('sl, 'op, 'g) data_channel" where
  "open_all R J ch [] = ([], ch)"
| "open_all R J ch (d # ds) =
     (case open_datagram R J ch d of
        (r, ch1) \<Rightarrow>
          (case open_all R J ch1 ds of
             (rs, ch2) \<Rightarrow> ((case r of Inr o1 \<Rightarrow> o1 | Inl _ \<Rightarrow> None) # rs, ch2)))"

definition dgram_record :: "'g dgram_mimicry \<Rightarrow> bytes \<Rightarrow> bytes option" where
  "dgram_record M d =
     (case shape_in M d of
        None \<Rightarrow> None
      | Some inner \<Rightarrow>
          (case decode_inner inner of
             Some (Data, rc) \<Rightarrow> Some rc
           | _ \<Rightarrow> None))"

definition mimicry_ok :: "'g dgram_mimicry \<Rightarrow> bool" where
  "mimicry_ok M \<longleftrightarrow> (\<forall>b rng. shape_in M (fst (shape_out M b rng)) = Some b)"

definition in_window :: "nat \<Rightarrow> nat set \<Rightarrow> nat \<Rightarrow> bool" where
  "in_window w seen c \<longleftrightarrow> c \<notin> seen \<and> (\<forall>d\<in>seen. d < c + w)"

definition record_contract ::
  "('sl, 'op) record_api \<Rightarrow> (bytes \<Rightarrow> (bytes \<times> nat \<times> bytes) option) \<Rightarrow> ('sl \<Rightarrow> bytes \<times> nat) \<Rightarrow>
   ('op \<Rightarrow> bytes \<times> nat set) \<Rightarrow> nat \<Rightarrow> bool" where
  "record_contract R auth sst ost w \<longleftrightarrow>
     (\<forall>k. sst (sealer_new R k) = (k, 0)) \<and>
     (\<forall>k. ost (opener_new R k) = (k, {})) \<and>
     (\<forall>s p rc s'. rec_seal R s p [] = (Inr rc, s') \<longrightarrow>
        auth rc = Some (fst (sst s), snd (sst s), p) \<and> sst s' = (fst (sst s), Suc (snd (sst s)))) \<and>
     (\<forall>r k seen rc c p. ost r = (k, seen) \<longrightarrow> auth rc = Some (k, c, p) \<longrightarrow> in_window w seen c \<longrightarrow>
        (\<exists>r'. rec_open R r rc [] = (Inr p, r') \<and> ost r' = (k, insert c seen))) \<and>
     (\<forall>r k seen rc. ost r = (k, seen) \<longrightarrow>
        \<not> (\<exists>c p. auth rc = Some (k, c, p) \<and> in_window w seen c) \<longrightarrow>
        (\<exists>e r'. rec_open R r rc [] = (Inl e, r') \<and> ost r' = ost r))"

fun seal_all ::
  "('sl, 'op) record_api \<Rightarrow> 'x serde \<Rightarrow> ('sl, 'op, 'g) data_channel \<Rightarrow> 'x envelope list \<Rightarrow> 'g \<Rightarrow>
   (obfs_error + bytes) list" where
  "seal_all R J ch [] rng = []"
| "seal_all R J ch (e # es) rng =
     (case seal_envelope R J ch e rng of (r, ch1, rng1) \<Rightarrow> r # seal_all R J ch1 es rng1)"

text \<open>
  Concrete arguments for evaluating the channel: a record layer that writes key and counter in
  clear and the identity mimicry.
\<close>

definition clear_auth :: "bytes \<Rightarrow> (bytes \<times> nat \<times> bytes) option" where
  "clear_auth rc =
     (if 33 \<le> length rc then Some (take 32 rc, unat (rc ! 32), drop 33 rc) else None)"

definition clear_seal :: "bytes \<times> nat \<Rightarrow> bytes \<Rightarrow> bytes \<Rightarrow> (string + bytes) \<times> (bytes \<times> nat)" where
  "clear_seal s p a =
     (case s of (k, c) \<Rightarrow>
        if length k = 32 \<and> c < 256 then (Inr (k @ [of_nat c] @ p), (k, Suc c))
        else (Inl ''exhausted'', s))"

definition clear_open ::
  "bytes \<times> nat list \<Rightarrow> bytes \<Rightarrow> bytes \<Rightarrow> (string + bytes) \<times> (bytes \<times> nat list)" where
  "clear_open r rc a =
     (case r of (k, seen) \<Rightarrow>
        (case clear_auth rc of
           None \<Rightarrow> (Inl ''auth'', r)
         | Some (k', c, p) \<Rightarrow>
             if k' = k \<and> in_window 64 (set seen) c then (Inr p, (k, c # seen))
             else (Inl ''replay'', r)))"

definition clear_records :: "(bytes \<times> nat, bytes \<times> nat list) record_api" where
  "clear_records =
     \<lparr>sealer_new = (\<lambda>k. (k, 0)), opener_new = (\<lambda>k. (k, [])), rec_seal = clear_seal, rec_open = clear_open\<rparr>"

definition passthrough :: "nat dgram_mimicry" where
  "passthrough = \<lparr>shape_out = (\<lambda>b g. (b, g)), shape_in = Some\<rparr>"

definition demo_chan :: "(bytes \<times> nat, bytes \<times> nat list, nat) data_channel" where
  "demo_chan = data_channel_new (sealer_new clear_records demo_key) (opener_new clear_records demo_key) passthrough"

definition demo_dgram :: "u8 \<Rightarrow> u8 \<Rightarrow> bytes" where
  "demo_dgram c t = 5 # demo_key @ [c, t]"

subsection \<open>What the contract gives\<close>

lemma record_contract_new:
  assumes "record_contract R auth sst ost w"
  shows "sst (sealer_new R k) = (k, 0)" and "ost (opener_new R k) = (k, {})"
  using assms by (simp_all add: record_contract_def)

lemma record_contract_seal:
  assumes "record_contract R auth sst ost w" and "rec_seal R s p [] = (Inr rc, s')"
    and "sst s = (k, n)"
  shows "auth rc = Some (k, n, p)" and "sst s' = (k, Suc n)"
proof -
  have "auth rc = Some (fst (sst s), snd (sst s), p) \<and> sst s' = (fst (sst s), Suc (snd (sst s)))"
    using assms(1,2) unfolding record_contract_def by blast
  then show "auth rc = Some (k, n, p)" and "sst s' = (k, Suc n)" using assms(3) by simp_all
qed

lemma record_contract_accept:
  assumes "record_contract R auth sst ost w" and "ost r = (k, seen)"
    and "auth rc = Some (k, c, p)" and "in_window w seen c"
  shows "\<exists>r'. rec_open R r rc [] = (Inr p, r') \<and> ost r' = (k, insert c seen)"
  using assms unfolding record_contract_def by blast

lemma record_contract_reject:
  assumes "record_contract R auth sst ost w" and "ost r = (k, seen)"
    and "\<not> (\<exists>c p. auth rc = Some (k, c, p) \<and> in_window w seen c)"
  shows "\<exists>e r'. rec_open R r rc [] = (Inl e, r') \<and> ost r' = ost r"
  using assms unfolding record_contract_def by blast

lemma record_contract_open:
  assumes "record_contract R auth sst ost w" and "ost r = (k, seen)"
    and "rec_open R r rc [] = (Inr p, r')"
  shows "\<exists>c. auth rc = Some (k, c, p) \<and> in_window w seen c \<and> ost r' = (k, insert c seen)"
proof (cases "\<exists>c q. auth rc = Some (k, c, q) \<and> in_window w seen c")
  case True
  then show ?thesis using record_contract_accept [OF assms(1,2)] assms(3) by fastforce
next
  case False
  then show ?thesis using record_contract_reject [OF assms(1,2)] assms(3) by fastforce
qed

lemma record_contract_seen_mono:
  assumes "record_contract R auth sst ost w" and "ost r = (k, seen)" and "rec_open R r rc [] = (x, r')"
  shows "\<exists>seen'. ost r' = (k, seen') \<and> seen \<subseteq> seen'"
proof (cases x)
  case (Inl e)
  then have "\<not> (\<exists>c p. auth rc = Some (k, c, p) \<and> in_window w seen c)"
    using record_contract_accept [OF assms(1,2)] assms(3) by fastforce
  then show ?thesis using record_contract_reject [OF assms(1,2)] assms(2,3) by fastforce
next
  case (Inr p)
  then show ?thesis using record_contract_open [OF assms(1,2)] assms(3) by blast
qed

subsection \<open>The channel\<close>

lemma open_datagram_mimic [simp]: "mimic (snd (open_datagram R J ch d)) = mimic ch"
  by (auto simp: open_datagram_def split: option.splits prod.splits sum.splits)

lemma open_datagram_sealer [simp]: "sealer (snd (open_datagram R J ch d)) = sealer ch"
  by (auto simp: open_datagram_def split: option.splits prod.splits sum.splits)

lemma open_datagram_total: "\<exists>r. fst (open_datagram R J ch d) = Inr r"
  by (auto simp: open_datagram_def split: option.splits prod.splits sum.splits)

lemma open_datagram_no_record:
  "dgram_record (mimic ch) d = None \<Longrightarrow> open_datagram R J ch d = (Inr None, ch)"
  by (auto simp: open_datagram_def dgram_record_def split: option.splits prod.splits dgram_type.splits)

lemma open_datagram_record:
  "dgram_record (mimic ch) d = Some rc \<Longrightarrow>
     open_datagram R J ch d =
       (case rec_open R (opener ch) rc [] of
          (Inl _, r) \<Rightarrow> (Inr None, ch\<lparr>opener := r\<rparr>)
        | (Inr plaintext, r) \<Rightarrow>
            (Inr (case from_slice J plaintext of Inr env \<Rightarrow> Some env | Inl _ \<Rightarrow> None), ch\<lparr>opener := r\<rparr>))"
  by (auto simp: open_datagram_def dgram_record_def
      split: option.splits prod.splits sum.splits dgram_type.splits)

lemma seal_envelope_frame:
  assumes "seal_envelope R J ch env rng = (r, ch', rng')"
  shows "opener ch' = opener ch" and "mimic ch' = mimic ch"
  using assms by (auto simp: seal_envelope_def split: sum.splits prod.splits)

lemma seal_envelope_Inr:
  assumes "seal_envelope R J ch env rng = (Inr out, ch', rng')" and "mimicry_ok (mimic ch)"
  shows "\<exists>json rc. to_vec J env = Inr json \<and> rec_seal R (sealer ch) json [] = (Inr rc, sealer ch') \<and>
    dgram_record (mimic ch) out = Some rc"
proof -
  obtain json rc s where json: "to_vec J env = Inr json"
    and rc: "rec_seal R (sealer ch) json [] = (Inr rc, s)" and ch': "ch' = ch\<lparr>sealer := s\<rparr>"
    and out: "shape_out (mimic ch) (encode_inner Data rc) rng = (out, rng')"
    using assms(1) by (auto simp: seal_envelope_def split: sum.splits prod.splits)
  have "shape_in (mimic ch) (fst (shape_out (mimic ch) (encode_inner Data rc) rng)) = Some (encode_inner Data rc)"
    using assms(2) by (simp add: mimicry_ok_def)
  then have "dgram_record (mimic ch) out = Some rc" by (simp add: dgram_record_def out)
  with json rc ch' show ?thesis by auto
qed

subsection \<open>Sequences of datagrams\<close>

lemma length_open_all: "length (fst (open_all R J ch ds)) = length ds"
  by (induction ds arbitrary: ch) (auto split: prod.splits, metis fst_conv)

lemma open_all_Cons:
  "open_all R J ch (d # ds) =
     ((case fst (open_datagram R J ch d) of Inr o1 \<Rightarrow> o1 | Inl _ \<Rightarrow> None)
        # fst (open_all R J (snd (open_datagram R J ch d)) ds),
      snd (open_all R J (snd (open_datagram R J ch d)) ds))"
  by (simp split: prod.splits)

lemma open_datagram_ost:
  assumes "record_contract R auth sst ost w" and "ost (opener ch) = (k, seen)"
  shows "\<exists>seen'. ost (opener (snd (open_datagram R J ch d))) = (k, seen') \<and> seen \<subseteq> seen'"
proof (cases "dgram_record (mimic ch) d")
  case None
  then show ?thesis using assms(2) by (simp add: open_datagram_no_record)
next
  case (Some rc)
  obtain x r' where o: "rec_open R (opener ch) rc [] = (x, r')" by (cases "rec_open R (opener ch) rc []")
  then show ?thesis
    using record_contract_seen_mono [OF assms o] by (cases x) (simp_all add: open_datagram_record [OF Some])
qed

lemma open_datagram_delivers:
  assumes "record_contract R auth sst ost w" and "ost (opener ch) = (k, seen)"
    and "fst (open_datagram R J ch d) = Inr (Some env)"
  shows "\<exists>rc c p. dgram_record (mimic ch) d = Some rc \<and> auth rc = Some (k, c, p) \<and> c \<notin> seen \<and>
    from_slice J p = Inr env \<and> ost (opener (snd (open_datagram R J ch d))) = (k, insert c seen)"
proof -
  obtain rc where rc: "dgram_record (mimic ch) d = Some rc"
    using assms(3) open_datagram_no_record [of ch d R J]
    by (cases "dgram_record (mimic ch) d") auto
  obtain x r' where o: "rec_open R (opener ch) rc [] = (x, r')" by (cases "rec_open R (opener ch) rc []")
  then obtain p where x: "x = Inr p" and p: "from_slice J p = Inr env"
    using assms(3) by (cases x) (auto simp: open_datagram_record [OF rc] split: sum.splits)
  obtain c where "auth rc = Some (k, c, p)" and "in_window w seen c" and "ost r' = (k, insert c seen)"
    using record_contract_open [OF assms(1,2)] o x by blast
  then show ?thesis
    using rc p o x by (auto simp: open_datagram_record [OF rc] in_window_def)
qed

lemma open_all_fresh:
  assumes "record_contract R auth sst ost w"
  shows "ost (opener ch) = (k, seen) \<Longrightarrow> j < length ds \<Longrightarrow> fst (open_all R J ch ds) ! j = Some env \<Longrightarrow>
    \<exists>rc c p. dgram_record (mimic ch) (ds ! j) = Some rc \<and> auth rc = Some (k, c, p) \<and> c \<notin> seen"
proof (induction ds arbitrary: ch j seen)
  case (Cons d ds)
  show ?case
  proof (cases j)
    case 0
    then have "fst (open_datagram R J ch d) = Inr (Some env)"
      using Cons.prems(3) open_datagram_total [of R J ch d] by (auto simp: open_all_Cons simp del: open_all.simps)
    from open_datagram_delivers [OF assms Cons.prems(1) this] show ?thesis using 0 by auto
  next
    case (Suc i)
    obtain seen' where s: "ost (opener (snd (open_datagram R J ch d))) = (k, seen')" and "seen \<subseteq> seen'"
      using open_datagram_ost [OF assms Cons.prems(1)] by blast
    moreover have "i < length ds" and "fst (open_all R J (snd (open_datagram R J ch d)) ds) ! i = Some env"
      using Cons.prems(2,3) Suc by (simp_all add: open_all_Cons del: open_all.simps)
    ultimately show ?thesis using Cons.IH [OF s] Suc by fastforce
  qed
qed simp

lemma open_all_distinct:
  assumes "record_contract R auth sst ost w"
  shows "i < j \<Longrightarrow> j < length ds \<Longrightarrow> fst (open_all R J ch ds) ! i = Some e \<Longrightarrow>
    fst (open_all R J ch ds) ! j = Some e' \<Longrightarrow>
    dgram_record (mimic ch) (ds ! i) \<noteq> dgram_record (mimic ch) (ds ! j)"
proof (induction ds arbitrary: ch i j)
  case (Cons d ds)
  let ?ch = "snd (open_datagram R J ch d)"
  obtain j' where j: "j = Suc j'" using Cons.prems(1) by (cases j) auto
  have j': "j' < length ds" "fst (open_all R J ?ch ds) ! j' = Some e'"
    using Cons.prems(2,4) j by (simp_all add: open_all_Cons del: open_all.simps)
  show ?case
  proof (cases i)
    case 0
    obtain k seen where s: "ost (opener ch) = (k, seen)" by (cases "ost (opener ch)")
    have "fst (open_datagram R J ch d) = Inr (Some e)"
      using Cons.prems(3) 0 open_datagram_total [of R J ch d]
      by (auto simp: open_all_Cons simp del: open_all.simps)
    then obtain rc c p where "dgram_record (mimic ch) d = Some rc" and c: "auth rc = Some (k, c, p)"
      and s': "ost (opener ?ch) = (k, insert c seen)"
      using open_datagram_delivers [OF assms s] by blast
    moreover obtain rc' c' p' where "dgram_record (mimic ch) (ds ! j') = Some rc'"
      and "auth rc' = Some (k, c', p')" and "c' \<notin> insert c seen"
      using open_all_fresh [OF assms s' j'] by auto
    ultimately show ?thesis using 0 j by auto
  next
    case (Suc i')
    then have "i' < j'" "fst (open_all R J ?ch ds) ! i' = Some e"
      using Cons.prems(1,3) j by (simp_all add: open_all_Cons del: open_all.simps)
    from Cons.IH [OF this(1) j'(1) this(2) j'(2)] show ?thesis using Suc j by simp
  qed
qed simp

lemma seal_all_records:
  assumes c: "record_contract R auth sst ost w" and m: "mimicry_ok M"
  shows "seal_all R J ch es rng = map Inr ds \<Longrightarrow> sst (sealer ch) = (k, n) \<Longrightarrow> mimic ch = M \<Longrightarrow>
    i < length es \<Longrightarrow>
    \<exists>json rc. to_vec J (es ! i) = Inr json \<and> dgram_record M (ds ! i) = Some rc \<and>
      auth rc = Some (k, n + i, json)"
proof (induction es arbitrary: ch rng ds n i)
  case (Cons e es)
  obtain r ch1 rng1 where se: "seal_envelope R J ch e rng = (r, ch1, rng1)"
    by (cases "seal_envelope R J ch e rng") auto
  with Cons.prems(1) obtain d ds' where ds: "ds = d # ds'" and r: "r = Inr d"
    and rest: "seal_all R J ch1 es rng1 = map Inr ds'"
    by (cases ds) auto
  obtain json rc where json: "to_vec J e = Inr json"
    and rc: "rec_seal R (sealer ch) json [] = (Inr rc, sealer ch1)" and d: "dgram_record (mimic ch) d = Some rc"
    using seal_envelope_Inr [OF se [unfolded r]] m Cons.prems(3) by auto
  have auth: "auth rc = Some (k, n, json)" and n: "sst (sealer ch1) = (k, Suc n)"
    using record_contract_seal [OF c rc Cons.prems(2)] by simp_all
  have M: "mimic ch1 = M" using seal_envelope_frame(2) [OF se] Cons.prems(3) by simp
  show ?case
  proof (cases i)
    case 0
    then show ?thesis using json d auth Cons.prems(3) ds by auto
  next
    case (Suc i')
    then show ?thesis using Cons.IH [OF rest n M, of i'] Cons.prems(4) ds by auto
  qed
qed simp

lemma open_all_in_any_order:
  assumes c: "record_contract R auth sst ost w" and w: "N \<le> w"
    and recs: "\<And>i. i < N \<Longrightarrow> \<exists>json rc. from_slice J json = Inr (es ! i) \<and>
      dgram_record M (ds ! i) = Some rc \<and> auth rc = Some (k, i, json)"
  shows "distinct is \<Longrightarrow> set is \<subseteq> {..<N} \<Longrightarrow> ost (opener ch) = (k, seen) \<Longrightarrow> seen \<subseteq> {..<N} \<Longrightarrow>
    seen \<inter> set is = {} \<Longrightarrow> mimic ch = M \<Longrightarrow>
    fst (open_all R J ch (map ((!) ds) is)) = map (\<lambda>i. Some (es ! i)) is"
proof (induction "is" arbitrary: ch seen)
  case (Cons i "is")
  let ?r = "open_datagram R J ch (ds ! i)"
  obtain json rc where json: "from_slice J json = Inr (es ! i)"
    and rc: "dgram_record (mimic ch) (ds ! i) = Some rc" and auth: "auth rc = Some (k, i, json)"
    using recs [of i] Cons.prems(2,6) by auto
  have "in_window w seen i"
    using Cons.prems(4,5) w by (force simp: in_window_def)
  then obtain r' where o: "rec_open R (opener ch) rc [] = (Inr json, r')" and s: "ost r' = (k, insert i seen)"
    using record_contract_accept [OF c Cons.prems(3) auth] by blast
  have r: "?r = (Inr (Some (es ! i)), ch\<lparr>opener := r'\<rparr>)"
    by (simp add: open_datagram_record [OF rc] o json)
  have "fst (open_all R J (snd ?r) (map ((!) ds) is)) = map (\<lambda>i. Some (es ! i)) is"
    by (rule Cons.IH [of _ "insert i seen"]) (use Cons.prems s in \<open>auto simp: r\<close>)
  then show ?case by (simp add: open_all_Cons r del: open_all.simps)
qed simp

subsection \<open>The concrete arguments keep the contracts\<close>

lemma clear_seal_auth:
  assumes "clear_seal s p [] = (Inr rc, s')"
  shows "clear_auth rc = Some (fst s, snd s, p)" and "s' = (fst s, Suc (snd s))"
  using assms
  by (auto simp: clear_seal_def clear_auth_def nth_append unat_of_nat split: prod.splits if_splits)

lemma clear_records_contract:
  "record_contract clear_records clear_auth id (\<lambda>(k, seen). (k, set seen)) 64"
  unfolding record_contract_def
  by (auto simp: clear_records_def clear_open_def dest: clear_seal_auth split: prod.splits option.splits)

lemma passthrough_ok: "mimicry_ok passthrough"
  by (simp add: mimicry_ok_def passthrough_def)

subsection \<open>Properties\<close>

text \<open>
  C18. Replay protection. However datagrams are duplicated, reordered or injected, a channel delivers
  each record at most once: two datagrams of a received sequence that are both delivered carry
  different records. The record layer is only assumed to keep its documented contract.
\<close>

theorem no_record_delivered_twice:
  assumes "record_contract R auth sst ost w" and "i < j" and "j < length ds"
    and "fst (open_all R J ch ds) ! i = Some e" and "fst (open_all R J ch ds) ! j = Some e'"
  shows "dgram_record (mimic ch) (ds ! i) \<noteq> dgram_record (mimic ch) (ds ! j)"
  using open_all_distinct [OF assms] .

theorem no_record_delivered_twice_witness:
  "fst (open_all clear_records plain_serde demo_chan [demo_dgram 0 0, demo_dgram 1 1, demo_dgram 0 0])
     = [Some Ping, Some Pong, None] \<and>
   dgram_record passthrough (demo_dgram 0 0) \<noteq> dgram_record passthrough (demo_dgram 1 1)"
proof -
  let ?ds = "[demo_dgram 0 0, demo_dgram 1 1, demo_dgram 0 0]"
  have o: "fst (open_all clear_records plain_serde demo_chan ?ds) = [Some Ping, Some Pong, None]"
    by code_simp
  have m: "mimic demo_chan = passthrough" by (simp add: demo_chan_def data_channel_new_def)
  show ?thesis
    using no_record_delivered_twice [OF clear_records_contract, of 0 1 ?ds plain_serde demo_chan Ping Pong]
    by (simp add: o m del: open_all.simps)
qed

text \<open>
  C19. Delivery under reordering and loss. The datagrams one side seals from a list of envelopes, no
  longer than the replay window, are opened by the other side to exactly those envelopes, whichever
  of them arrive and in whatever order.
\<close>

theorem reordered_delivery:
  assumes "record_contract R auth sst ost w" and "mimicry_ok M" and "list_all (serde_ok J) es"
    and "seal_all R J (data_channel_new (sealer_new R k) r0 M) es rng = map Inr ds"
    and "length es \<le> w" and "distinct is" and "set is \<subseteq> {..<length es}"
  shows "fst (open_all R J (data_channel_new s0 (opener_new R k) M) (map ((!) ds) is))
       = map (\<lambda>i. Some (es ! i)) is"
proof (rule open_all_in_any_order [OF assms(1,5), where seen = "{}"])
  fix i assume i: "i < length es"
  then obtain json rc where json: "to_vec J (es ! i) = Inr json"
    and "dgram_record M (ds ! i) = Some rc" and "auth rc = Some (k, i, json)"
    using seal_all_records [OF assms(1,2,4), of k 0 i] record_contract_new [OF assms(1)]
    by (auto simp: data_channel_new_def)
  moreover have "from_slice J json = Inr (es ! i)"
    using assms(3) i json by (auto simp: list_all_length serde_ok_def)
  ultimately show "\<exists>json rc. from_slice J json = Inr (es ! i) \<and> dgram_record M (ds ! i) = Some rc \<and>
      auth rc = Some (k, i, json)" by blast
qed (use assms record_contract_new [OF assms(1)] in \<open>simp_all add: data_channel_new_def\<close>)

theorem reordered_delivery_witness:
  "fst (open_all clear_records plain_serde (data_channel_new (demo_key, 0) (opener_new clear_records demo_key) passthrough)
      (map ((!) [demo_dgram 0 0, demo_dgram 1 1, demo_dgram 2 0]) [2, 0, 1]))
     = map (\<lambda>i. Some ([Ping, Pong, Ping] ! i)) [2, 0, 1]"
proof (rule reordered_delivery [OF clear_records_contract passthrough_ok])
  show "seal_all clear_records plain_serde
      (data_channel_new (sealer_new clear_records demo_key) (demo_key, []) passthrough) [Ping, Pong, Ping] 0
    = map Inr [demo_dgram 0 0, demo_dgram 1 1, demo_dgram 2 0]"
    by code_simp
qed auto

text \<open>
  Opening never fails and never trusts unauthenticated bytes: for every datagram the result is
  determined by the record it carries. Without one (bad shape, bad type byte, another type) nothing
  is delivered and the channel is unchanged; otherwise exactly the opener moves, and an envelope is
  delivered only if the record opens and decodes.
\<close>

theorem open_datagram_spec:
  "open_datagram R J ch d =
     (case dgram_record (mimic ch) d of
        None \<Rightarrow> (Inr None, ch)
      | Some rc \<Rightarrow>
          (case rec_open R (opener ch) rc [] of
             (x, r) \<Rightarrow>
               (Inr (case x of
                       Inl _ \<Rightarrow> None
                     | Inr p \<Rightarrow> (case from_slice J p of Inr env \<Rightarrow> Some env | Inl _ \<Rightarrow> None)),
                ch\<lparr>opener := r\<rparr>)))"
  by (cases "dgram_record (mimic ch) d")
    (auto simp: open_datagram_no_record open_datagram_record split: prod.splits sum.splits)

end
