(* ===== verification/Udp_Keys.thy ===== *)
theory Udp_Keys
  imports Obfs_Prelude
begin

text \<open>
  Key derivation, \<^verbatim>\<open>src/udp/keys.rs\<close>. The keyed BLAKE2s of the \<^verbatim>\<open>blake2\<close> crate is the argument
  \<open>mac\<close>: key, then data, to a 32-byte tag. A \<^verbatim>\<open>RecordKey\<close> is its bytes.
\<close>

type_synonym mac_fn = "bytes \<Rightarrow> bytes \<Rightarrow> bytes"

definition derive_key :: "mac_fn \<Rightarrow> bytes \<Rightarrow> bytes \<Rightarrow> bytes" where
  "derive_key mac seed label = mac seed label"

definition derive_record_keys :: "mac_fn \<Rightarrow> bytes \<Rightarrow> bytes \<times> bytes" where
  "derive_record_keys mac seed =
     (derive_key mac seed (str_bytes ''vaiexia-udp-c2s''),
      derive_key mac seed (str_bytes ''vaiexia-udp-s2c''))"

end
