(* ===== verification/Cookie_Gate.thy ===== *)
theory Cookie_Gate
  imports Obfs_Prelude
begin

text \<open>
  Load gates, \<^verbatim>\<open>src/udp/cookie_gate.rs\<close>: a gate answers, each time it is asked, whether new
  handshakes are to be challenged with a cookie.
\<close>

type_synonym load_gate = "unit \<Rightarrow> bool"

definition always_open :: load_gate where
  "always_open u = False"

definition always_under_load :: load_gate where
  "always_under_load u = True"

end
