(* ===== verification/Rust_Std.thy ===== *)
theory Rust_Std
  imports Obfs_Prelude "HOL-Library.Sublist"
begin

text \<open>
  The functions of Rust's standard library that the proxy code uses on strings and bytes:
  decimal printing and parsing of \<open>u16\<close> (\<^verbatim>\<open>Display\<close> and \<^verbatim>\<open>FromStr\<close>), \<^verbatim>\<open>str::rfind\<close>,
  \<^verbatim>\<open>splitn\<close>, \<^verbatim>\<open>lines().next()\<close>, \<^verbatim>\<open>ends_with\<close> and \<^verbatim>\<open>str::from_utf8\<close>; and beside them the texts
  they accept, as grammars: decimal numbers, the first line and its words.
\<close>

definition cr :: char where "cr = CHR 0x0D"

definition lf :: char where "lf = CHR 0x0A"

definition crlf :: string where "crlf = [cr, lf]"

definition digit_char :: "nat \<Rightarrow> char" where
  "digit_char d = char_of (48 + d)"

definition is_digit :: "char \<Rightarrow> bool" where
  "is_digit c \<longleftrightarrow> 48 \<le> (of_char c :: nat) \<and> (of_char c :: nat) \<le> 57"

fun dec_string :: "nat \<Rightarrow> string" where
  "dec_string n = (if n < 10 then [digit_char n] else dec_string (n div 10) @ [digit_char (n mod 10)])"

declare dec_string.simps [simp del]

definition u16_to_string :: "u16 \<Rightarrow> string" where
  "u16_to_string w = dec_string (unat w)"

fun parse_digits :: "nat \<Rightarrow> string \<Rightarrow> nat option" where
  "parse_digits acc [] = Some acc"
| "parse_digits acc (c # cs) =
     (if is_digit c then
        (let acc' = acc * 10 + (of_char c - 48)
         in if acc' \<le> 65535 then parse_digits acc' cs else None)
      else None)"

definition parse_u16 :: "string \<Rightarrow> u16 option" where
  "parse_u16 s =
     (case s of
        [] \<Rightarrow> None
      | c # cs \<Rightarrow> map_option of_nat (parse_digits 0 (if c = CHR ''+'' \<and> cs \<noteq> [] then cs else s)))"

fun rfind :: "char \<Rightarrow> string \<Rightarrow> nat option" where
  "rfind c [] = None"
| "rfind c (x # xs) =
     (case rfind c xs of
        Some i \<Rightarrow> Some (Suc i)
      | None \<Rightarrow> if x = c then Some 0 else None)"

fun split_once :: "char \<Rightarrow> string \<Rightarrow> (string \<times> string) option" where
  "split_once c [] = None"
| "split_once c (x # xs) =
     (if x = c then Some ([], xs)
      else map_option (\<lambda>(a, b). (x # a, b)) (split_once c xs))"

fun splitn :: "nat \<Rightarrow> char \<Rightarrow> string \<Rightarrow> string list" where
  "splitn 0 c s = []"
| "splitn (Suc 0) c s = [s]"
| "splitn (Suc (Suc n)) c s =
     (case split_once c s of
        None \<Rightarrow> [s]
      | Some (a, b) \<Rightarrow> a # splitn (Suc n) c b)"

definition strip_cr :: "string \<Rightarrow> string" where
  "strip_cr l = (if l \<noteq> [] \<and> last l = cr then butlast l else l)"

definition first_line :: "string \<Rightarrow> string option" where
  "first_line s =
     (if s = [] then None
      else (case split_once lf s of
              None \<Rightarrow> Some s
            | Some (l, _) \<Rightarrow> Some (strip_cr l)))"

definition ends_with :: "'a list \<Rightarrow> 'a list \<Rightarrow> bool" where
  "ends_with xs ys \<longleftrightarrow> length ys \<le> length xs \<and> drop (length xs - length ys) xs = ys"

definition utf8_cont :: "u8 \<Rightarrow> bool" where
  "utf8_cont b \<longleftrightarrow> 0x80 \<le> b \<and> b \<le> 0xBF"

definition utf8_second :: "u8 \<Rightarrow> u8 \<Rightarrow> bool" where
  "utf8_second a b \<longleftrightarrow>
     utf8_cont b \<and> (a = 0xE0 \<longrightarrow> 0xA0 \<le> b) \<and> (a = 0xED \<longrightarrow> b \<le> 0x9F) \<and>
     (a = 0xF0 \<longrightarrow> 0x90 \<le> b) \<and> (a = 0xF4 \<longrightarrow> b \<le> 0x8F)"

fun utf8_valid :: "bytes \<Rightarrow> bool" where
  "utf8_valid [] = True"
| "utf8_valid (a # bs) =
     (if a < 0x80 then utf8_valid bs
      else if 0xC2 \<le> a \<and> a \<le> 0xDF then
        (case bs of b # rest \<Rightarrow> utf8_cont b \<and> utf8_valid rest | _ \<Rightarrow> False)
      else if 0xE0 \<le> a \<and> a \<le> 0xEF then
        (case bs of b # c # rest \<Rightarrow> utf8_second a b \<and> utf8_cont c \<and> utf8_valid rest | _ \<Rightarrow> False)
      else if 0xF0 \<le> a \<and> a \<le> 0xF4 then
        (case bs of b # c # d # rest \<Rightarrow>
           utf8_second a b \<and> utf8_cont c \<and> utf8_cont d \<and> utf8_valid rest | _ \<Rightarrow> False)
      else False)"

definition from_utf8 :: "bytes \<Rightarrow> string option" where
  "from_utf8 bs = (if utf8_valid bs then Some (bytes_str bs) else None)"

subsection \<open>The texts as grammars\<close>

text \<open>
  The decimal texts of a number: one digit or more, leading zeros allowed, after a plus sign or none.
  The first line of a text is what precedes the first line feed, without the carriage return before
  it. The second word of a line stands between its first space and the next one, if there is any.
\<close>

definition digits_value :: "nat \<Rightarrow> string \<Rightarrow> nat" where
  "digits_value = foldl (\<lambda>n c. 10 * n + (of_char c - of_char (CHR ''0'')))"

definition decimal :: "string \<Rightarrow> nat \<Rightarrow> bool" where
  "decimal s n \<longleftrightarrow>
     (\<exists>ds. (s = ds \<or> s = ''+'' @ ds) \<and> ds \<noteq> [] \<and> set ds \<subseteq> set ''0123456789'' \<and> digits_value 0 ds = n)"

definition opening_line :: "string \<Rightarrow> string \<Rightarrow> bool" where
  "opening_line s line \<longleftrightarrow>
     (\<exists>rest. lf \<notin> set line \<and> (s = line @ [cr, lf] @ rest \<or> s = line @ [lf] @ rest \<and> \<not> suffix [cr] line))"

definition second_word :: "string \<Rightarrow> string \<Rightarrow> bool" where
  "second_word line word \<longleftrightarrow>
     (\<exists>first more. CHR '' '' \<notin> set first \<and> CHR '' '' \<notin> set word \<and>
        (line = first @ '' '' @ word \<or> line = first @ '' '' @ word @ '' '' @ more))"

subsection \<open>Decimal numbers\<close>

lemma of_char_digit_char: "d < 10 \<Longrightarrow> (of_char (digit_char d) :: nat) = 48 + d"
  by (simp add: digit_char_def)

lemma is_digit_digit_char [simp]: "d < 10 \<Longrightarrow> is_digit (digit_char d)"
  by (simp add: is_digit_def of_char_digit_char)

lemma dec_string_digits: "list_all is_digit (dec_string n)"
proof (induction n rule: dec_string.induct)
  case (1 n)
  then show ?case by (subst dec_string.simps) auto
qed

lemma dec_string_nonempty [simp]: "dec_string n \<noteq> []"
  by (subst dec_string.simps) simp

lemma parse_digits_dec_string:
  "n \<le> 65535 \<Longrightarrow> parse_digits 0 (dec_string n @ rest) = parse_digits n rest"
proof (induction n arbitrary: rest rule: dec_string.induct)
  case (1 n)
  show ?case
  proof (cases "n < 10")
    case True
    then show ?thesis
      by (subst dec_string.simps) (simp add: of_char_digit_char)
  next
    case False
    have "parse_digits 0 (dec_string n @ rest)
        = parse_digits 0 (dec_string (n div 10) @ digit_char (n mod 10) # rest)"
      using False by (subst dec_string.simps) simp
    also have "\<dots> = parse_digits (n div 10) (digit_char (n mod 10) # rest)"
      using "1.IH" [OF False] "1.prems" by simp
    also have "\<dots> = parse_digits n rest"
      using "1.prems" by (simp add: of_char_digit_char)
    finally show ?thesis .
  qed
qed

lemma digit_not_plus: "is_digit c \<Longrightarrow> c \<noteq> CHR ''+''"
  by (auto simp: is_digit_def)

lemma parse_u16_to_string: "parse_u16 (u16_to_string w) = Some w"
proof -
  have bound: "unat w \<le> 65535" using unat_u16_less [of w] by simp
  obtain c cs where s: "dec_string (unat w) = c # cs"
    by (cases "dec_string (unat w)") auto
  then have "is_digit c" using dec_string_digits [of "unat w"] by simp
  then have "c \<noteq> CHR ''+''" by (rule digit_not_plus)
  moreover have "parse_digits 0 (c # cs) = Some (unat w)"
    using parse_digits_dec_string [OF bound, of "[]"] s by simp
  ultimately show ?thesis
    by (simp add: parse_u16_def u16_to_string_def s del: parse_digits.simps)
qed

lemma parse_digits_bound: "parse_digits acc s = Some n \<Longrightarrow> acc \<le> 65535 \<Longrightarrow> n \<le> 65535"
  by (induction s arbitrary: acc) (auto simp: Let_def split: if_splits)

lemma is_digit_iff: "is_digit c \<longleftrightarrow> c \<in> set ''0123456789''"
proof
  assume "is_digit c"
  then have "of_char c \<in> set [48 ..< 58 :: nat]" unfolding is_digit_def set_upt by simp
  moreover have "\<forall>n \<in> set [48 ..< 58 :: nat]. char_of n \<in> set ''0123456789''" by code_simp
  ultimately have "char_of (of_char c :: nat) \<in> set ''0123456789''" by blast
  then show "c \<in> set ''0123456789''" unfolding char_of_char .
next
  have "\<forall>d \<in> set ''0123456789''. is_digit d" by code_simp
  then show "c \<in> set ''0123456789'' \<Longrightarrow> is_digit c" by blast
qed

lemma digits_value_simps [simp]:
  "digits_value n [] = n" "digits_value n (c # cs) = digits_value (n * 10 + (of_char c - 48)) cs"
  by (simp_all add: digits_value_def mult.commute)

lemma digits_value_mono: "n \<le> digits_value n s"
proof (induction s arbitrary: n)
  case (Cons c s)
  show ?case using Cons.IH [of "n * 10 + (of_char c - 48)"] by simp
qed simp

lemma parse_digits_iff:
  "acc \<le> 65535 \<Longrightarrow> parse_digits acc s = Some n \<longleftrightarrow> list_all is_digit s \<and> digits_value acc s = n \<and> n \<le> 65535"
proof (induction s arbitrary: acc)
  case (Cons c s)
  show ?case
  proof (cases "acc * 10 + (of_char c - 48) \<le> (65535 :: nat)")
    case True
    then show ?thesis using Cons.IH [OF True] by simp
  next
    case False
    then show ?thesis using digits_value_mono [of "acc * 10 + (of_char c - 48)" s] by auto
  qed
qed auto

lemma parse_u16_iff: "parse_u16 s = Some p \<longleftrightarrow> decimal s (unat p)"
proof -
  have of: "map_option of_nat (parse_digits 0 ds) = Some p \<longleftrightarrow> list_all is_digit ds \<and> digits_value 0 ds = unat p" for ds
  proof -
    have "map_option of_nat (parse_digits 0 ds) = Some p \<longleftrightarrow> parse_digits 0 ds = Some (unat p)"
      using parse_digits_bound [of 0 ds] by (auto simp: unat_of_nat take_bit_eq_mod)
    then show ?thesis using unat_u16_less [of p] by (simp add: parse_digits_iff)
  qed
  have not_digit: "\<not> list_all is_digit (CHR ''+'' # ds)" for ds using digit_not_plus by auto
  have d: "decimal s (unat p) \<longleftrightarrow>
      (\<exists>ds. (s = ds \<or> s = CHR ''+'' # ds) \<and> ds \<noteq> [] \<and> list_all is_digit ds \<and> digits_value 0 ds = unat p)"
    by (simp only: decimal_def list_all_iff is_digit_iff subset_iff Ball_def append_Cons append_Nil)
  consider (plus) cs where "s = CHR ''+'' # cs" "cs \<noteq> []" | (none) "\<nexists>cs. s = CHR ''+'' # cs \<and> cs \<noteq> []" by blast
  then show ?thesis
  proof cases
    case plus
    then have "parse_u16 s = map_option of_nat (parse_digits 0 cs)" by (simp add: parse_u16_def)
    moreover have "decimal s (unat p) \<longleftrightarrow> list_all is_digit cs \<and> digits_value 0 cs = unat p"
      unfolding d unfolding plus(1) using plus(2) not_digit [of cs] by (auto simp: conj_disj_distribR ex_disj_distrib)
    ultimately show ?thesis by (simp only: of)
  next
    case none
    then have "parse_u16 s = (if s = [] then None else map_option of_nat (parse_digits 0 s))"
      by (cases s) (auto simp: parse_u16_def simp del: parse_digits.simps)
    moreover have "decimal s (unat p) \<longleftrightarrow> s \<noteq> [] \<and> list_all is_digit s \<and> digits_value 0 s = unat p"
      unfolding d using none by (simp only: conj_disj_distribR ex_disj_distrib) blast
    ultimately show ?thesis using of [of s] by (cases "s = []") (simp_all only: if_True if_False simp_thms option.distinct)
  qed
qed

subsection \<open>Searching and splitting\<close>

lemma rfind_None: "rfind c s = None \<longleftrightarrow> c \<notin> set s"
  by (induction s) (auto split: option.splits)

lemma rfind_last: "c \<notin> set ys \<Longrightarrow> rfind c (xs @ c # ys) = Some (length xs)"
  by (induction xs) (simp_all add: rfind_None [THEN iffD2])

lemma rfind_Some:
  "rfind c s = Some i \<Longrightarrow> i < length s \<and> s ! i = c \<and> c \<notin> set (drop (Suc i) s)"
  by (induction s arbitrary: i) (auto simp: rfind_None split: option.splits if_splits)

lemma split_once_Some: "split_once c s = Some (a, b) \<Longrightarrow> s = a @ c # b \<and> c \<notin> set a"
  by (induction s arbitrary: a) (auto split: if_splits)

lemma split_once_append: "c \<notin> set a \<Longrightarrow> split_once c (a @ c # b) = Some (a, b)"
  by (induction a) auto

lemma split_once_None: "split_once c s = None \<longleftrightarrow> c \<notin> set s"
  by (induction s) auto

lemma opening_line_iff: "lf \<in> set s \<Longrightarrow> opening_line s line \<longleftrightarrow> first_line s = Some line"
proof -
  assume "lf \<in> set s"
  then obtain l rest where s: "s = l @ lf # rest" "lf \<notin> set l" by (meson split_list_first)
  have eq: "s = l' @ lf # rest' \<longleftrightarrow> l' = l \<and> rest' = rest" if "lf \<notin> set l'" for l' rest'
    using s that split_once_append [of lf l' rest'] split_once_append [of lf l rest] by auto
  have "opening_line s line \<longleftrightarrow> lf \<notin> set line \<and> (line @ [cr] = l \<or> line = l \<and> \<not> suffix [cr] line)"
    using eq [of "line @ [cr]"] eq [of line] by (auto simp: opening_line_def cr_def lf_def)
  also have "\<dots> \<longleftrightarrow> line = strip_cr l"
    using s(2) by (cases l rule: rev_cases) (auto simp: strip_cr_def)
  finally show ?thesis using s by (auto simp: first_line_def split_once_append)
qed

lemma second_word_iff: "second_word line word \<longleftrightarrow> (\<exists>first more. splitn 3 (CHR '' '') line = first # word # more)"
proof
  assume "second_word line word"
  then obtain first more where w: "CHR '' '' \<notin> set first" "CHR '' '' \<notin> set word"
    "line = first @ CHR '' '' # word \<or> line = first @ CHR '' '' # word @ CHR '' '' # more"
    by (auto simp: second_word_def)
  have "split_once (CHR '' '') word = None" using w(2) by (simp add: split_once_None)
  with w show "\<exists>first more. splitn 3 (CHR '' '') line = first # word # more"
    by (auto simp: numeral_3_eq_3 split_once_append)
next
  assume "\<exists>first more. splitn 3 (CHR '' '') line = first # word # more"
  then obtain first rest where f: "split_once (CHR '' '') line = Some (first, rest)"
    and w: "(case split_once (CHR '' '') rest of None \<Rightarrow> rest | Some (a, b) \<Rightarrow> a) = word"
    by (auto simp: numeral_3_eq_3 split: option.splits)
  from split_once_Some [OF f] have l: "line = first @ CHR '' '' # rest" "CHR '' '' \<notin> set first" by simp_all
  show "second_word line word"
  proof (cases "split_once (CHR '' '') rest")
    case None
    then have "word = rest" using w by simp
    moreover have "CHR '' '' \<notin> set rest" using None by (simp add: split_once_None)
    ultimately show ?thesis using l unfolding second_word_def by auto
  next
    case (Some ab)
    then obtain more where "split_once (CHR '' '') rest = Some (word, more)" using w by (cases ab) simp
    from split_once_Some [OF this] show ?thesis using l unfolding second_word_def by auto
  qed
qed

lemma ends_with_append [simp]: "ends_with (xs @ ys) ys"
  by (simp add: ends_with_def)

lemma ends_with_iff: "ends_with xs ys \<longleftrightarrow> (\<exists>zs. xs = zs @ ys)"
  unfolding ends_with_def
  by (metis append_eq_conv_conj append_take_drop_id diff_add_inverse2 le_add2 length_append)

lemma utf8_valid_ascii: "list_all (\<lambda>b. b < 0x80) bs \<Longrightarrow> utf8_valid bs"
  by (induction bs) auto

end
