(* ===== verification/Socket_Addr.thy ===== *)
theory Socket_Addr
  imports Rust_Std
begin

text \<open>
  \<^verbatim>\<open>std::net::SocketAddr\<close> and its \<^verbatim>\<open>Display\<close>, which the cookie of a handshake is bound to.
  A version 6 address has eight 16-bit segments, a port, a flow label and a scope; the text shows
  everything but the flow label.
\<close>

datatype socket_addr =
    V4 u8 u8 u8 u8 u16
  | V6 "u16 list" u16 u32 u32

fun hex_string :: "nat \<Rightarrow> string" where
  "hex_string n =
     (if n < 16 then [char_of (if n < 10 then 48 + n else 87 + n)]
      else hex_string (n div 16) @ [char_of (if n mod 16 < 10 then 48 + n mod 16 else 87 + n mod 16)])"

declare hex_string.simps [simp del]

definition v4_string :: "u8 \<Rightarrow> u8 \<Rightarrow> u8 \<Rightarrow> u8 \<Rightarrow> string" where
  "v4_string a b c d =
     dec_string (unat a) @ ''.'' @ dec_string (unat b) @ ''.'' @ dec_string (unat c) @ ''.'' @
     dec_string (unat d)"

fun join :: "string \<Rightarrow> string list \<Rightarrow> string" where
  "join sep [] = []"
| "join sep [s] = s"
| "join sep (s # t # ss) = s @ sep @ join sep (t # ss)"

text \<open>The first longest run of zero segments: (start, length) of the best and of the current run.\<close>

fun zero_run :: "nat \<Rightarrow> nat \<times> nat \<Rightarrow> nat \<times> nat \<Rightarrow> u16 list \<Rightarrow> nat \<times> nat" where
  "zero_run i best cur [] = best"
| "zero_run i best cur (s # ss) =
     (if s = 0 then
        (let cur' = (if snd cur = 0 then i else fst cur, Suc (snd cur))
         in zero_run (Suc i) (if snd best < snd cur' then cur' else best) cur' ss)
      else zero_run (Suc i) best (0, 0) ss)"

definition v6_string :: "u16 list \<Rightarrow> string" where
  "v6_string segs =
     (case segs of
        [a, b, c, d, e, f, g, h] \<Rightarrow>
          if [a, b, c, d, e, f] = [0, 0, 0, 0, 0, 0xFFFF]
          then ''::ffff:'' @ v4_string (ucast (drop_bit 8 g)) (ucast g) (ucast (drop_bit 8 h)) (ucast h)
          else
            (let (start, len) = zero_run 0 (0, 0) (0, 0) segs;
                 hex = map (\<lambda>s. hex_string (unat s)) segs
             in if len > 1
                then join '':'' (take start hex) @ ''::'' @ join '':'' (drop (start + len) hex)
                else join '':'' hex)
      | _ \<Rightarrow> [])"

fun addr_to_string :: "socket_addr \<Rightarrow> string" where
  "addr_to_string (V4 a b c d port) = v4_string a b c d @ '':'' @ u16_to_string port"
| "addr_to_string (V6 segs port flow scope) =
     ''['' @ v6_string segs @ (if scope = 0 then [] else ''%'' @ dec_string (unat scope)) @ '']:'' @
     u16_to_string port"

lemma dec_string_inj: "dec_string m = dec_string n \<Longrightarrow> m \<le> 65535 \<Longrightarrow> n \<le> 65535 \<Longrightarrow> m = n"
  using parse_digits_dec_string [of m "[]"] parse_digits_dec_string [of n "[]"] by simp

lemma digits_then_separator:
  assumes "list_all is_digit a" and "list_all is_digit b" and "\<not> is_digit c"
    and "a @ c # x = b @ c # y"
  shows "a = b \<and> x = y"
proof -
  have "takeWhile is_digit (a @ c # x) = a" and "takeWhile is_digit (b @ c # y) = b"
    using assms(1-3) by (auto simp: takeWhile_append2 list_all_iff)
  with assms(4) show ?thesis by auto
qed

lemma dec_then_separator:
  assumes "dec_string m @ c # x = dec_string n @ c # y" and "\<not> is_digit c" and "m \<le> 65535" and "n \<le> 65535"
  shows "m = n \<and> x = y"
  using digits_then_separator [OF dec_string_digits dec_string_digits assms(2,1)] dec_string_inj assms(3,4)
  by blast

lemma separators [simp]: "\<not> is_digit CHR ''.''" "\<not> is_digit CHR '':''" "\<not> is_digit CHR ''[''"
  by (simp_all add: is_digit_def)

lemma unat_u8_bound: "unat (b :: u8) \<le> 65535"
  using unat_u8_less [of b] by simp

lemma unat_u16_bound: "unat (b :: u16) \<le> 65535"
  using unat_u16_less [of b] by simp

lemma v4_addr_to_string_inj:
  assumes "addr_to_string (V4 a b c d p) = addr_to_string (V4 a' b' c' d' p')"
  shows "V4 a b c d p = V4 a' b' c' d' p'"
proof -
  note sep = dec_then_separator [OF _ _ unat_u8_bound unat_u8_bound]
  have "dec_string (unat a) @ CHR ''.'' # dec_string (unat b) @ CHR ''.'' # dec_string (unat c) @
      CHR ''.'' # dec_string (unat d) @ CHR '':'' # dec_string (unat p) =
    dec_string (unat a') @ CHR ''.'' # dec_string (unat b') @ CHR ''.'' # dec_string (unat c') @
      CHR ''.'' # dec_string (unat d') @ CHR '':'' # dec_string (unat p')"
    using assms by (simp add: v4_string_def u16_to_string_def)
  from sep [OF this] have a: "unat a = unat a'" and
    "dec_string (unat b) @ CHR ''.'' # dec_string (unat c) @ CHR ''.'' # dec_string (unat d) @
      CHR '':'' # dec_string (unat p) =
     dec_string (unat b') @ CHR ''.'' # dec_string (unat c') @ CHR ''.'' # dec_string (unat d') @
      CHR '':'' # dec_string (unat p')" by simp_all
  from sep [OF this(2)] have b: "unat b = unat b'" and
    "dec_string (unat c) @ CHR ''.'' # dec_string (unat d) @ CHR '':'' # dec_string (unat p) =
     dec_string (unat c') @ CHR ''.'' # dec_string (unat d') @ CHR '':'' # dec_string (unat p')" by simp_all
  from sep [OF this(2)] have c: "unat c = unat c'" and
    "dec_string (unat d) @ CHR '':'' # dec_string (unat p) =
     dec_string (unat d') @ CHR '':'' # dec_string (unat p')" by simp_all
  from sep [OF this(2)] have d: "unat d = unat d'" and "dec_string (unat p) = dec_string (unat p')" by simp_all
  then have "unat p = unat p'" using dec_string_inj unat_u16_bound by blast
  with a b c d show ?thesis by (simp add: word_unat_eq_iff)
qed

end
