(* ===== verification/Udp_Handshake.thy ===== *)
theory Udp_Handshake
  imports Noise_Api Dataplane Udp_Keys Cookie_Gate Socket_Addr "HOL-Library.Sublist"
begin

text \<open>
  The UDP handshake, \<^verbatim>\<open>src/udp/handshake.rs\<close>: wire helpers, the server's two steps
  (\<open>process_hs1\<close>, \<open>complete_handshake_msg3\<close>) and the client's retransmission loops
  (\<open>client_udp_handshake\<close>).

  The cookie secret of \<^verbatim>\<open>vaiexia-wire\<close> is an argument, as is the Noise state machine. A context
  \<open>udp_ctx\<close> bundles the arguments that client and server share.

  The client's socket is a script: what each wait for a datagram meets next (a datagram with its
  source, an I/O error, or the deadline of that wait; after the script ends every wait runs into its
  deadline), and whether each send fails. Durations are not modelled, only which event comes first.
\<close>

record 'c cookie_api =
  ck_new :: "bytes \<Rightarrow> 'c"
  ck_make :: "'c \<Rightarrow> bytes \<Rightarrow> bytes"
  ck_verify :: "'c \<Rightarrow> bytes \<Rightarrow> bytes \<Rightarrow> bool"
  ck_rotate :: "bytes \<Rightarrow> 'c \<Rightarrow> 'c"

record ('x, 'g, 'h, 'sl, 'op) udp_ctx =
  noise :: "'h noise_api"
  records :: "('sl, 'op) record_api"
  json :: "'x serde"
  mac :: mac_fn
  profile :: "'g dgram_mimicry"
  fill_bytes :: "nat \<Rightarrow> 'g \<Rightarrow> bytes \<times> 'g"

subsection \<open>Wire helpers\<close>

definition shape_hs :: "dgram_type \<Rightarrow> bytes \<Rightarrow> 'g dgram_mimicry \<Rightarrow> 'g \<Rightarrow> bytes \<times> 'g" where
  "shape_hs ty msg m rng = shape_out m (encode_inner ty msg) rng"

definition unshape_hs :: "bytes \<Rightarrow> 'g dgram_mimicry \<Rightarrow> (dgram_type \<times> bytes) option" where
  "unshape_hs datagram m = (case shape_in m datagram of None \<Rightarrow> None | Some inner \<Rightarrow> decode_inner inner)"

definition encode_cookie :: "bytes \<Rightarrow> bytes" where
  "encode_cookie cookie = cookie"

definition decode_cookie :: "bytes \<Rightarrow> bytes option" where
  "decode_cookie body = (if length body < 16 then None else Some (take 16 body))"

definition src_bytes :: "socket_addr \<Rightarrow> bytes" where
  "src_bytes addr = str_bytes (addr_to_string addr)"

definition encode_msg1_framed :: "bytes \<Rightarrow> bytes option \<Rightarrow> bytes" where
  [wire_defs]: "encode_msg1_framed msg1 cookie =
     u16_to_be_bytes (of_nat (length msg1)) @ msg1 @ (case cookie of None \<Rightarrow> [] | Some c \<Rightarrow> c)"

definition decode_msg1_framed :: "bytes \<Rightarrow> (bytes \<times> bytes option) option" where
  [wire_defs]: "decode_msg1_framed body =
     (case body of
        b0 # b1 # rest \<Rightarrow>
          (let msg1_len = unat (u16_from_be_bytes b0 b1)
           in if length rest < msg1_len then None
              else
                (let remaining = drop msg1_len rest
                 in Some (take msg1_len rest,
                          if 16 \<le> length remaining then Some (take 16 remaining) else None)))
      | _ \<Rightarrow> None)"

subsection \<open>Server side\<close>

datatype 'h accept_result =
    CookieReply bytes
  | PartialHandshake 'h bytes socket_addr

definition process_hs1 ::
  "'h noise_api \<Rightarrow> 'c cookie_api \<Rightarrow> nat \<Rightarrow> bytes \<Rightarrow> socket_addr \<Rightarrow> bytes \<Rightarrow> 'c \<Rightarrow> load_gate \<Rightarrow>
   'g dgram_mimicry \<Rightarrow> 'g \<Rightarrow> (obfs_error + 'h accept_result option) \<times> 'g" where
  "process_hs1 N C ent body client_addr server_private cookie_secret load_gate m rng =
     (case decode_msg1_framed body of
        None \<Rightarrow> (Inr None, rng)
      | Some (msg1, supplied_cookie) \<Rightarrow>
          (let src = src_bytes client_addr;
               cookie_ok = (case supplied_cookie of
                              Some c \<Rightarrow> ck_verify C cookie_secret src c
                            | None \<Rightarrow> False)
           in if load_gate () \<and> \<not> cookie_ok
              then (case shape_hs Cookie (encode_cookie (ck_make C cookie_secret src)) m rng of
                      (wire, rng') \<Rightarrow> (Inr (Some (CookieReply wire)), rng'))
              else
                (case hs_responder N ent server_private of
                   Inl e \<Rightarrow> (Inl (HandshakeFailed (''responder: '' @ e)), rng)
                 | Inr hs \<Rightarrow>
                     (case hs_read N hs msg1 of
                        (Inl _, _) \<Rightarrow> (Inr None, rng)
                      | (Inr _, hs1) \<Rightarrow>
                          (case hs_write N hs1 [] of
                             (Inl e, _) \<Rightarrow> (Inl (HandshakeFailed (''write msg2: '' @ e)), rng)
                           | (Inr msg2, hs2) \<Rightarrow>
                               (case shape_hs Hs2 msg2 m rng of
                                  (wire, rng') \<Rightarrow>
                                    (Inr (Some (PartialHandshake hs2 wire client_addr)), rng')))))))"

definition complete_handshake_msg3 ::
  "('x, 'g, 'h, 'sl, 'op) udp_ctx \<Rightarrow> 'h \<Rightarrow> bytes \<Rightarrow>
   obfs_error + (('sl, 'op, 'g) data_channel \<times> bytes)" where
  "complete_handshake_msg3 U responder msg3_body =
     (case hs_read (noise U) responder msg3_body of
        (Inl e, _) \<Rightarrow> Inl (HandshakeFailed (''read msg3: '' @ e))
      | (Inr payload, hs) \<Rightarrow>
          if length payload < 32 then Inl (HandshakeFailed ''msg3 payload too short for seed'')
          else
            (let seed = take 32 payload
             in case hs_remote_static (noise U) hs of
                  None \<Rightarrow> Inl (HandshakeFailed ''no remote static after msg3'')
                | Some client_static \<Rightarrow>
                    (case derive_record_keys (mac U) seed of
                       (c2s_key, s2c_key) \<Rightarrow>
                         Inr (data_channel_new (sealer_new (records U) s2c_key)
                                (opener_new (records U) c2s_key) (profile U), client_static))))"

subsection \<open>Client side\<close>

datatype udp_ev = Deadline | RecvErr io_error | Dgram socket_addr bytes

record udp_sock =
  inbox :: "udp_ev list"
  sent :: "(socket_addr \<times> bytes) list"
  send_script :: "io_error option list"

definition MAX_HS_TRIES :: nat where "MAX_HS_TRIES = 12"

definition MAX_HANDSHAKE_ATTEMPTS :: nat where "MAX_HANDSHAKE_ATTEMPTS = 3"

definition HS_MAX_DGRAM :: nat where "HS_MAX_DGRAM = 65535"

definition send_to :: "bytes \<Rightarrow> socket_addr \<Rightarrow> udp_sock \<Rightarrow> io_error option \<times> udp_sock" where
  "send_to d dst sk =
     (case send_script sk of
        [] \<Rightarrow> (None, sk\<lparr>sent := sent sk @ [(dst, d)]\<rparr>)
      | None # os \<Rightarrow> (None, sk\<lparr>sent := sent sk @ [(dst, d)], send_script := os\<rparr>)
      | Some e # os \<Rightarrow> (Some e, sk\<lparr>send_script := os\<rparr>))"

fun recv_from_server :: "socket_addr \<Rightarrow> nat \<Rightarrow> udp_ev list \<Rightarrow> (io_error + bytes) option \<times> udp_ev list" where
  "recv_from_server expected max_size [] = (None, [])"
| "recv_from_server expected max_size (Deadline # es) = (None, es)"
| "recv_from_server expected max_size (RecvErr e # es) = (Some (Inl e), es)"
| "recv_from_server expected max_size (Dgram src d # es) =
     (if src = expected then (Some (Inr (take max_size d)), es)
      else recv_from_server expected max_size es)"

fun msg1_loop ::
  "nat \<Rightarrow> socket_addr \<Rightarrow> 'g dgram_mimicry \<Rightarrow> bytes \<Rightarrow> bytes option \<Rightarrow> udp_sock \<Rightarrow> 'g \<Rightarrow>
   (obfs_error + bytes option) \<times> udp_sock \<times> 'g" where
  "msg1_loop 0 server m msg1 cookie sk rng = (Inr None, sk, rng)"
| "msg1_loop (Suc n) server m msg1 cookie sk rng =
     (case shape_hs Hs1 (encode_msg1_framed msg1 cookie) m rng of
        (wire, rng') \<Rightarrow>
          (case send_to wire server sk of
             (Some e, sk') \<Rightarrow> (Inl (Io e), sk', rng')
           | (None, sk') \<Rightarrow>
               (case recv_from_server server HS_MAX_DGRAM (inbox sk') of
                  (None, es) \<Rightarrow> msg1_loop n server m msg1 cookie (sk'\<lparr>inbox := es\<rparr>) rng'
                | (Some (Inl e), es) \<Rightarrow> (Inl (Io e), sk'\<lparr>inbox := es\<rparr>, rng')
                | (Some (Inr data), es) \<Rightarrow>
                    (case unshape_hs data m of
                       Some (Hs2, body) \<Rightarrow> (Inr (Some body), sk'\<lparr>inbox := es\<rparr>, rng')
                     | Some (Cookie, body) \<Rightarrow>
                         msg1_loop n server m msg1
                           (case decode_cookie body of Some c \<Rightarrow> Some c | None \<Rightarrow> cookie)
                           (sk'\<lparr>inbox := es\<rparr>) rng'
                     | _ \<Rightarrow> msg1_loop n server m msg1 cookie (sk'\<lparr>inbox := es\<rparr>) rng'))))"

lemma recv_from_server_shrinks:
  "recv_from_server a n es = (Some r, es') \<Longrightarrow> length es' < length es"
  by (induction a n es rule: recv_from_server.induct) (auto split: if_splits)

function wait_ready ::
  "('x, 'g, 'h, 'sl, 'op) udp_ctx \<Rightarrow> socket_addr \<Rightarrow> ('sl, 'op, 'g) data_channel \<Rightarrow> udp_ev list \<Rightarrow>
   bool \<times> ('sl, 'op, 'g) data_channel \<times> udp_ev list" where
  "wait_ready U server ch es =
     (case recv_from_server server HS_MAX_DGRAM es of
        (None, es') \<Rightarrow> (False, ch, es')
      | (Some (Inl e), es') \<Rightarrow> (False, ch, es')
      | (Some (Inr data), es') \<Rightarrow>
          (case open_datagram (records U) (json U) ch data of
             (Inr (Some _), ch') \<Rightarrow> (True, ch', es')
           | (_, ch') \<Rightarrow> wait_ready U server ch' es'))"
  by pat_completeness auto
termination
  by (relation "measure (\<lambda>(U, server, ch, es). length es)") (auto dest: recv_from_server_shrinks [OF sym])

declare wait_ready.simps [simp del]

fun resend_loop ::
  "nat \<Rightarrow> ('x, 'g, 'h, 'sl, 'op) udp_ctx \<Rightarrow> socket_addr \<Rightarrow> bytes \<Rightarrow> ('sl, 'op, 'g) data_channel \<Rightarrow>
   udp_sock \<Rightarrow> bool \<times> ('sl, 'op, 'g) data_channel \<times> udp_sock" where
  "resend_loop 0 U server wire3 ch sk = (False, ch, sk)"
| "resend_loop (Suc n) U server wire3 ch sk =
     (case send_to wire3 server sk of
        (_, sk') \<Rightarrow>
          (case wait_ready U server ch (inbox sk') of
             (True, ch', es) \<Rightarrow> (True, ch', sk'\<lparr>inbox := es\<rparr>)
           | (False, ch', es) \<Rightarrow> resend_loop n U server wire3 ch' (sk'\<lparr>inbox := es\<rparr>)))"

text \<open>
  The rest of one attempt: waiting for the ready record, then everything from msg2 on. A result to
  return, or \<open>None\<close> for the next attempt.
\<close>

definition await_ready ::
  "('x, 'g, 'h, 'sl, 'op) udp_ctx \<Rightarrow> socket_addr \<Rightarrow> bytes \<Rightarrow> ('sl, 'op, 'g) data_channel \<Rightarrow>
   udp_sock \<Rightarrow> bool \<times> ('sl, 'op, 'g) data_channel \<times> udp_sock" where
  "await_ready U server wire3 ch sk =
     (case wait_ready U server ch (inbox sk) of
        (True, ch', es) \<Rightarrow> (True, ch', sk\<lparr>inbox := es\<rparr>)
      | (False, ch', es) \<Rightarrow> resend_loop 3 U server wire3 ch' (sk\<lparr>inbox := es\<rparr>))"

definition finish_attempt ::
  "('x, 'g, 'h, 'sl, 'op) udp_ctx \<Rightarrow> socket_addr \<Rightarrow> bytes \<Rightarrow> 'h \<Rightarrow> bytes \<Rightarrow> udp_sock \<Rightarrow> 'g \<Rightarrow>
   (obfs_error + ('sl, 'op, 'g) data_channel) option \<times> udp_sock \<times> 'g" where
  "finish_attempt U server seed hs1 msg2 sk rng =
     (case hs_read (noise U) hs1 msg2 of
        (Inl _, _) \<Rightarrow> (None, sk, rng)
      | (Inr _, hs2) \<Rightarrow>
          (case hs_write (noise U) hs2 seed of
             (Inl _, _) \<Rightarrow> (None, sk, rng)
           | (Inr msg3, _) \<Rightarrow>
               (case shape_hs Hs3 msg3 (profile U) rng of
                  (wire3, rng') \<Rightarrow>
                    (case send_to wire3 server sk of
                       (Some e, sk') \<Rightarrow> (Some (Inl (Io e)), sk', rng')
                     | (None, sk') \<Rightarrow>
                         (case derive_record_keys (mac U) seed of
                            (c2s_key, s2c_key) \<Rightarrow>
                              (case await_ready U server wire3
                                      (data_channel_new (sealer_new (records U) c2s_key)
                                         (opener_new (records U) s2c_key) (profile U)) sk' of
                                 (True, ch, sk'') \<Rightarrow> (Some (Inr ch), sk'', rng')
                               | (False, _, sk'') \<Rightarrow> (None, sk'', rng')))))))"

definition client_attempt ::
  "('x, 'g, 'h, 'sl, 'op) udp_ctx \<Rightarrow> nat \<Rightarrow> socket_addr \<Rightarrow> bytes \<Rightarrow> bytes \<Rightarrow> udp_sock \<Rightarrow> 'g \<Rightarrow>
   (obfs_error + ('sl, 'op, 'g) data_channel) option \<times> udp_sock \<times> 'g" where
  "client_attempt U ent server server_pub client_private sk rng =
     (case fill_bytes U 32 rng of
        (seed, rng1) \<Rightarrow>
          (case hs_initiator (noise U) ent client_private server_pub of
             Inl e \<Rightarrow> (Some (Inl (HandshakeFailed (''initiator: '' @ e))), sk, rng1)
           | Inr hs0 \<Rightarrow>
               (case hs_write (noise U) hs0 [] of
                  (Inl e, _) \<Rightarrow> (Some (Inl (HandshakeFailed (''write msg1: '' @ e))), sk, rng1)
                | (Inr msg1, hs1) \<Rightarrow>
                    (case msg1_loop MAX_HS_TRIES server (profile U) msg1 None sk rng1 of
                       (Inl e, sk2, rng2) \<Rightarrow> (Some (Inl e), sk2, rng2)
                     | (Inr None, sk2, rng2) \<Rightarrow> (None, sk2, rng2)
                     | (Inr (Some msg2), sk2, rng2) \<Rightarrow>
                         finish_attempt U server seed hs1 msg2 sk2 rng2))))"

fun client_attempts ::
  "nat \<Rightarrow> ('x, 'g, 'h, 'sl, 'op) udp_ctx \<Rightarrow> nat \<Rightarrow> socket_addr \<Rightarrow> bytes \<Rightarrow> bytes \<Rightarrow> udp_sock \<Rightarrow> 'g \<Rightarrow>
   (obfs_error + ('sl, 'op, 'g) data_channel) \<times> udp_sock \<times> 'g" where
  "client_attempts 0 U ent server server_pub client_private sk rng =
     (Inl (HandshakeFailed ''handshake exhausted all attempts''), sk, rng)"
| "client_attempts (Suc n) U ent server server_pub client_private sk rng =
     (case client_attempt U ent server server_pub client_private sk rng of
        (Some r, sk', rng') \<Rightarrow> (r, sk', rng')
      | (None, sk', rng') \<Rightarrow> client_attempts n U (Suc ent) server server_pub client_private sk' rng')"

definition client_udp_handshake ::
  "('x, 'g, 'h, 'sl, 'op) udp_ctx \<Rightarrow> nat \<Rightarrow> socket_addr \<Rightarrow> bytes \<Rightarrow> bytes \<Rightarrow> udp_sock \<Rightarrow> 'g \<Rightarrow>
   (obfs_error + ('sl, 'op, 'g) data_channel) \<times> udp_sock \<times> 'g" where
  "client_udp_handshake U ent server server_pub client_private sk rng =
     client_attempts MAX_HANDSHAKE_ATTEMPTS U ent server server_pub client_private sk rng"

subsection \<open>Contracts of the arguments\<close>

text \<open>
  What the code relies on. \<open>cookie_contract\<close>: cookies are 16 bytes, and verify under the secret that
  made them and after one rotation of it. \<open>fill_ok\<close>: the generator fills as many bytes as asked.
\<close>

definition cookie_contract :: "'c cookie_api \<Rightarrow> bool" where
  "cookie_contract C \<longleftrightarrow>
     (\<forall>s src. length (ck_make C s src) = 16 \<and> ck_verify C s src (ck_make C s src)) \<and>
     (\<forall>s seed src. ck_verify C (ck_rotate C seed s) src (ck_make C s src))"

definition fill_ok :: "('x, 'g, 'h, 'sl, 'op) udp_ctx \<Rightarrow> bool" where
  "fill_ok U \<longleftrightarrow> (\<forall>n g. length (fst (fill_bytes U n g)) = n)"

text \<open>
  Concrete arguments for evaluating the handshake: a cookie is a secret with the length of the
  source address.
\<close>

definition demo_cookie :: "bytes \<Rightarrow> bytes \<Rightarrow> bytes" where
  "demo_cookie secret src = take 15 (secret @ replicate 15 0) @ [of_nat (length src)]"

definition demo_cookies :: "(bytes \<times> bytes) cookie_api" where
  "demo_cookies =
     \<lparr>ck_new = (\<lambda>seed. (seed, seed)), ck_make = (\<lambda>(cur, prev) src. demo_cookie cur src),
      ck_verify = (\<lambda>(cur, prev) src c. c = demo_cookie cur src \<or> c = demo_cookie prev src),
      ck_rotate = (\<lambda>seed (cur, prev). (seed, cur))\<rparr>"

definition demo_mac :: mac_fn where
  "demo_mac key label = map (\<lambda>b. b + last label) (take 32 key)"

definition demo_ctx :: "(unit, nat, bytes \<times> nat \<times> bytes option, bytes \<times> nat, bytes \<times> nat list) udp_ctx" where
  "demo_ctx =
     \<lparr>noise = demo_noise, records = clear_records, json = plain_serde, mac = demo_mac,
      profile = passthrough, fill_bytes = (\<lambda>n g. (replicate n (of_nat g), Suc g))\<rparr>"

definition demo_server :: socket_addr where
  "demo_server = V4 10 0 0 1 4433"

definition demo_client :: socket_addr where
  "demo_client = V4 10 0 0 2 5000"

definition demo_sock :: udp_sock where
  "demo_sock =
     \<lparr>inbox = [Deadline, Dgram demo_client [2, 9], Dgram demo_server [2, 1], Dgram demo_server (5 # replicate 32 99 @ [0, 1])],
      sent = [], send_script = []\<rparr>"

text \<open>What a run of the client side may do to its socket: \<open>n\<close> more datagrams to one peer.\<close>

definition sock_ext :: "socket_addr \<Rightarrow> nat \<Rightarrow> udp_sock \<Rightarrow> udp_sock \<Rightarrow> bool" where
  "sock_ext a n sk sk' \<longleftrightarrow>
     (\<exists>ds. sent sk' = sent sk @ map (Pair a) ds \<and> length ds \<le> n) \<and> suffix (inbox sk') (inbox sk)"

text \<open>A datagram of the inbox carries a record that authenticates under key \<open>k\<close> and decodes.\<close>

definition ready_proof ::
  "('x, 'g, 'h, 'sl, 'op) udp_ctx \<Rightarrow> (bytes \<Rightarrow> (bytes \<times> nat \<times> bytes) option) \<Rightarrow> socket_addr \<Rightarrow>
   bytes \<Rightarrow> udp_ev list \<Rightarrow> bool" where
  "ready_proof U auth server k es \<longleftrightarrow>
     (\<exists>d rc c p env. Dgram server d \<in> set es \<and> dgram_record (profile U) (take HS_MAX_DGRAM d) = Some rc \<and>
        auth rc = Some (k, c, p) \<and> from_slice (json U) p = Inr env)"

definition keyed_chan ::
  "('x, 'g, 'h, 'sl, 'op) udp_ctx \<Rightarrow> ('op \<Rightarrow> bytes \<times> nat set) \<Rightarrow> 'sl \<Rightarrow> bytes \<Rightarrow>
   ('sl, 'op, 'g) data_channel \<Rightarrow> bool" where
  "keyed_chan U ost s k ch \<longleftrightarrow>
     sealer ch = s \<and> mimic ch = profile U \<and> fst (ost (opener ch)) = k"

subsection \<open>Wire formats\<close>

definition msg1_wf :: "bytes \<times> bytes option \<Rightarrow> bool" where
  "msg1_wf = (\<lambda>(msg1, cookie). length msg1 < 65536 \<and> (case cookie of None \<Rightarrow> True | Some c \<Rightarrow> length c = 16))"

lemma decode_encode_msg1:
  "decode_msg1_framed (encode_msg1_framed msg1 cookie) =
     (let n = length msg1 mod 65536; rest = drop n (msg1 @ (case cookie of None \<Rightarrow> [] | Some c \<Rightarrow> c))
      in Some (take n msg1, if 16 \<le> length rest then Some (take 16 rest) else None))"
proof -
  have n: "length msg1 mod 65536 \<le> length msg1" by simp
  show ?thesis
    using n by (simp add: wire_defs u16_to_be_bytes_def u16_from_to_be unat_of_nat Let_def)
qed

interpretation msg1: codec msg1_wf "\<lambda>(m, c). encode_msg1_framed m c" decode_msg1_framed
  by unfold_locales
    (auto simp: msg1_wf_def decode_encode_msg1 Let_def split: option.splits)

lemma unshape_shape_hs:
  "mimicry_ok M \<Longrightarrow> shape_hs ty msg M rng = (w, rng') \<Longrightarrow> unshape_hs w M = Some (ty, msg)"
  unfolding mimicry_ok_def shape_hs_def unshape_hs_def
  by (metis fst_conv inner.decode_encode option.case(2) prod.case)

subsection \<open>The client's socket\<close>

lemma sock_ext_refl [simp]: "sock_ext a n sk sk"
  by (auto simp: sock_ext_def intro: exI [of _ "[]"])

lemma sock_ext_trans:
  assumes "sock_ext a n sk1 sk2" and "sock_ext a m sk2 sk3"
  shows "sock_ext a (n + m) sk1 sk3"
proof -
  obtain ds es where "sent sk2 = sent sk1 @ map (Pair a) ds" "length ds \<le> n"
    "sent sk3 = sent sk2 @ map (Pair a) es" "length es \<le> m"
    using assms by (auto simp: sock_ext_def)
  then have "sent sk3 = sent sk1 @ map (Pair a) (ds @ es) \<and> length (ds @ es) \<le> n + m" by simp
  moreover have "suffix (inbox sk3) (inbox sk1)"
    using assms by (auto simp: sock_ext_def intro: suffix_order.trans)
  ultimately show ?thesis unfolding sock_ext_def by blast
qed

lemma sock_ext_mono: "sock_ext a n sk sk' \<Longrightarrow> n \<le> m \<Longrightarrow> sock_ext a m sk sk'"
  unfolding sock_ext_def by (meson le_trans)

lemma sock_ext_inbox: "suffix es (inbox sk) \<Longrightarrow> sock_ext a 0 sk (sk\<lparr>inbox := es\<rparr>)"
  by (simp add: sock_ext_def)

lemma sock_ext_set_inbox: "sock_ext a n sk sk' \<Longrightarrow> set (inbox sk') \<subseteq> set (inbox sk)"
  by (auto simp: sock_ext_def suffix_def)

lemma send_to_inbox: "send_to d a sk = (e, sk') \<Longrightarrow> inbox sk' = inbox sk"
  by (auto simp: send_to_def split: list.splits option.splits)

lemma send_to_ext: "send_to d a sk = (e, sk') \<Longrightarrow> sock_ext a 1 sk sk'"
  by (auto simp: send_to_def sock_ext_def split: list.splits option.splits
      intro: exI [of _ "[d]"] exI [of _ "[]"])

lemma send_to_sent: "send_to d a sk = (None, sk') \<Longrightarrow> sent sk' = sent sk @ [(a, d)]"
  by (auto simp: send_to_def split: list.splits option.splits)

lemma recv_from_server_suffix: "recv_from_server a n es = (r, es') \<Longrightarrow> suffix es' es"
  by (induction a n es rule: recv_from_server.induct)
    (auto split: if_splits intro: suffix_ConsI)

lemma recv_from_server_Dgram:
  "recv_from_server a n es = (Some (Inr data), es') \<Longrightarrow> \<exists>d. Dgram a d \<in> set es \<and> data = take n d"
  by (induction a n es rule: recv_from_server.induct) (auto split: if_splits)

lemma send_recv_ext:
  assumes "send_to d a sk = (e, sk1)" and "recv_from_server a n (inbox sk1) = (r, es)"
  shows "sock_ext a 1 sk (sk1\<lparr>inbox := es\<rparr>)"
  using sock_ext_trans [OF send_to_ext [OF assms(1)] sock_ext_inbox [OF recv_from_server_suffix [OF assms(2)]]]
  by simp

lemma msg1_loop_ext: "msg1_loop n a m msg1 c sk g = (r, sk', g') \<Longrightarrow> sock_ext a n sk sk'"
proof (induction n arbitrary: c sk g)
  case (Suc n)
  obtain wire g1 where w: "shape_hs Hs1 (encode_msg1_framed msg1 c) m g = (wire, g1)" by fastforce
  obtain e sk1 where snd: "send_to wire a sk = (e, sk1)" by fastforce
  obtain x es where rcv: "recv_from_server a HS_MAX_DGRAM (inbox sk1) = (x, es)" by fastforce
  have e1: "sock_ext a 1 sk sk1" by (rule send_to_ext [OF snd])
  have e2: "sock_ext a 1 sk (sk1\<lparr>inbox := es\<rparr>)" by (rule send_recv_ext [OF snd rcv])
  have IH: "sock_ext a (Suc n) sk sk'"
    if "msg1_loop n a m msg1 c' (sk1\<lparr>inbox := es\<rparr>) g1 = (r, sk', g')" for c'
    using sock_ext_trans [OF e2 Suc.IH [OF that]] by simp
  show ?case
    using Suc.prems e1 e2
    by (auto simp: w snd rcv intro: IH sock_ext_mono [of a 1]
        split: option.splits sum.splits prod.splits dgram_type.splits)
qed simp

lemma wait_ready_suffix: "wait_ready U a ch es = (b, ch', es') \<Longrightarrow> suffix es' es"
proof (induction "length es" arbitrary: ch es rule: less_induct)
  case less
  obtain x es1 where r: "recv_from_server a HS_MAX_DGRAM es = (x, es1)" by fastforce
  have s: "suffix es1 es" by (rule recv_from_server_suffix [OF r])
  have IH: "suffix es' es" if "x = Some y" and "wait_ready U a ch1 es1 = (b, ch', es')" for ch1 y
    using less.hyps [OF recv_from_server_shrinks that(2)] r that(1) s suffix_order.trans by blast
  show ?case
    using less.prems s
    by (auto simp: wait_ready.simps [of U a ch es] r intro: IH
        split: option.splits sum.splits prod.splits)
qed

lemma resend_loop_ext: "resend_loop n U a w ch sk = (b, ch', sk') \<Longrightarrow> sock_ext a n sk sk'"
proof (induction n arbitrary: ch sk)
  case (Suc n)
  obtain e sk1 where snd: "send_to w a sk = (e, sk1)" by fastforce
  obtain ok ch1 es where wr: "wait_ready U a ch (inbox sk1) = (ok, ch1, es)" by (metis prod_cases3)
  have e2: "sock_ext a 1 sk (sk1\<lparr>inbox := es\<rparr>)"
    using sock_ext_trans [OF send_to_ext [OF snd] sock_ext_inbox [OF wait_ready_suffix [OF wr]]] by simp
  have IH: "resend_loop n U a w ch1 (sk1\<lparr>inbox := es\<rparr>) = (b, ch', sk') \<Longrightarrow> sock_ext a (Suc n) sk sk'"
    using sock_ext_trans [OF e2 Suc.IH] by fastforce
  show ?case
    using Suc.prems IH e2 by (cases ok) (auto simp: snd wr intro: sock_ext_mono [of a 1])
qed simp

lemma await_ready_ext: "await_ready U a w ch sk = (b, ch', sk') \<Longrightarrow> sock_ext a 3 sk sk'"
proof -
  assume a: "await_ready U a w ch sk = (b, ch', sk')"
  obtain ok ch1 es where wr: "wait_ready U a ch (inbox sk) = (ok, ch1, es)" by (metis prod_cases3)
  have e: "sock_ext a 0 sk (sk\<lparr>inbox := es\<rparr>)" by (rule sock_ext_inbox [OF wait_ready_suffix [OF wr]])
  show ?thesis
    using a e sock_ext_trans [OF e resend_loop_ext]
    by (cases ok) (auto simp: await_ready_def wr intro: sock_ext_mono [of a 0])
qed

lemma finish_attempt_ext: "finish_attempt U a seed hs msg2 sk g = (r, sk', g') \<Longrightarrow> sock_ext a 4 sk sk'"
  unfolding finish_attempt_def
  by (auto split: prod.splits sum.splits option.splits bool.splits
      dest!: send_to_ext await_ready_ext intro: sock_ext_mono [of a 1] dest: sock_ext_trans [of a 1 _ _ 3])

lemma client_attempt_ext: "client_attempt U ent a sp cp sk g = (r, sk', g') \<Longrightarrow> sock_ext a 16 sk sk'"
  unfolding client_attempt_def MAX_HS_TRIES_def
  by (auto split: prod.splits sum.splits option.splits
      dest!: msg1_loop_ext finish_attempt_ext intro: sock_ext_mono [of a 12] dest: sock_ext_trans [of a 12 _ _ 4])

lemma client_attempts_ext: "client_attempts n U ent a sp cp sk g = (r, sk', g') \<Longrightarrow> sock_ext a (n * 16) sk sk'"
proof (induction n arbitrary: ent sk g)
  case (Suc n)
  then show ?case
    by (auto split: prod.splits option.splits dest!: client_attempt_ext
        dest: sock_ext_trans [of a 16 _ _ "n * 16"] intro: sock_ext_mono [of a 16])
qed simp

subsection \<open>What a successful wait proves\<close>

lemma keyed_chan_open:
  assumes "record_contract (records U) auth sst ost w" and "keyed_chan U ost s k ch"
  shows "keyed_chan U ost s k (snd (open_datagram (records U) J ch d))"
proof -
  obtain seen where "ost (opener ch) = (k, seen)"
    using assms(2) by (cases "ost (opener ch)") (auto simp: keyed_chan_def)
  from open_datagram_ost [OF assms(1) this, of J d] show ?thesis
    using assms(2) by (auto simp: keyed_chan_def)
qed

lemma wait_ready_proof:
  assumes c: "record_contract (records U) auth sst ost w"
  shows "keyed_chan U ost s k ch \<Longrightarrow> wait_ready U a ch es = (b, ch', es') \<Longrightarrow>
    keyed_chan U ost s k ch' \<and> (b \<longrightarrow> ready_proof U auth a k es)"
proof (induction "length es" arbitrary: ch es rule: less_induct)
  case less
  obtain x es1 where r: "recv_from_server a HS_MAX_DGRAM es = (x, es1)" by fastforce
  show ?case
  proof (cases "\<exists>data. x = Some (Inr data)")
    case False
    then show ?thesis
      using less.prems by (auto simp: wait_ready.simps [of U a ch es] r split: option.splits sum.splits)
  next
    case True
    then obtain data where x: "x = Some (Inr data)" by blast
    obtain d where d: "Dgram a d \<in> set es" "data = take HS_MAX_DGRAM d"
      using recv_from_server_Dgram r x by blast
    obtain o1 ch1 where od: "open_datagram (records U) (json U) ch data = (Inr o1, ch1)"
      using open_datagram_total [of "records U" "json U" ch data]
      by (cases "open_datagram (records U) (json U) ch data") auto
    have k1: "keyed_chan U ost s k ch1" using keyed_chan_open [OF c less.prems(1), of "json U" data] od by simp
    show ?thesis
    proof (cases o1)
      case None
      have "length es1 < length es" using recv_from_server_shrinks r x by blast
      moreover have "wait_ready U a ch1 es1 = (b, ch', es')"
        using less.prems(2) by (simp add: wait_ready.simps [of U a ch es] r x od None)
      ultimately have "keyed_chan U ost s k ch' \<and> (b \<longrightarrow> ready_proof U auth a k es1)"
        using less.hyps k1 by blast
      then show ?thesis
        using recv_from_server_suffix [OF r] by (auto simp: ready_proof_def suffix_def)
    next
      case (Some env)
      obtain seen where ko: "ost (opener ch) = (k, seen)"
        using less.prems(1) by (cases "ost (opener ch)") (auto simp: keyed_chan_def)
      have "fst (open_datagram (records U) (json U) ch data) = Inr (Some env)" using od Some by simp
      from open_datagram_delivers [OF c ko this] have "ready_proof U auth a k es"
        using d less.prems(1) unfolding ready_proof_def keyed_chan_def by metis
      then show ?thesis
        using less.prems(2) k1 by (auto simp: wait_ready.simps [of U a ch es] r x od Some)
    qed
  qed
qed

lemma ready_proof_mono: "ready_proof U auth a k es \<Longrightarrow> set es \<subseteq> set es' \<Longrightarrow> ready_proof U auth a k es'"
  unfolding ready_proof_def by blast

lemma resend_loop_proof:
  assumes c: "record_contract (records U) auth sst ost w"
  shows "keyed_chan U ost s k ch \<Longrightarrow> resend_loop n U a w3 ch sk = (True, ch', sk') \<Longrightarrow>
    keyed_chan U ost s k ch' \<and> ready_proof U auth a k (inbox sk)"
proof (induction n arbitrary: ch sk)
  case (Suc n)
  obtain e sk1 where snd: "send_to w3 a sk = (e, sk1)" by fastforce
  obtain ok ch1 es where wr: "wait_ready U a ch (inbox sk1) = (ok, ch1, es)" by (metis prod_cases3)
  have i: "inbox sk1 = inbox sk" by (rule send_to_inbox [OF snd])
  have k: "keyed_chan U ost s k ch1" and "ok \<longrightarrow> ready_proof U auth a k (inbox sk)"
    using wait_ready_proof [OF c Suc.prems(1) wr] i by simp_all
  moreover have "set es \<subseteq> set (inbox sk)" using wait_ready_suffix [OF wr] i by (auto simp: suffix_def)
  ultimately show ?case
    using Suc.prems(2) Suc.IH [OF k, of "sk1\<lparr>inbox := es\<rparr>"]
    by (cases ok) (auto simp: snd wr intro: ready_proof_mono)
qed simp

lemma await_ready_proof:
  assumes c: "record_contract (records U) auth sst ost w"
    and k: "keyed_chan U ost s k ch" and a: "await_ready U a w3 ch sk = (True, ch', sk')"
  shows "keyed_chan U ost s k ch' \<and> ready_proof U auth a k (inbox sk)"
proof -
  obtain ok ch1 es where wr: "wait_ready U a ch (inbox sk) = (ok, ch1, es)" by (metis prod_cases3)
  have k1: "keyed_chan U ost s k ch1" and "ok \<longrightarrow> ready_proof U auth a k (inbox sk)"
    using wait_ready_proof [OF c k wr] by simp_all
  moreover have "set es \<subseteq> set (inbox sk)" using wait_ready_suffix [OF wr] by (auto simp: suffix_def)
  ultimately show ?thesis
    using a resend_loop_proof [OF c k1, of 3 a w3 "sk\<lparr>inbox := es\<rparr>"]
    by (cases ok) (auto simp: await_ready_def wr intro: ready_proof_mono)
qed

subsection \<open>Attempts\<close>

text \<open>
  \<open>later U g g'\<close>: the generator in state \<open>g\<close> is in state \<open>g'\<close> after some draws. \<open>failed_tries\<close>: from the
  socket \<open>sk\<close> and the generator \<open>g\<close>, \<open>n\<close> attempts one after the other came to nothing and left the two as
  \<open>sk'\<close> and \<open>g'\<close>; each drew its seed, and the next one began with the generator after that draw.
\<close>

inductive later :: "('x, 'g, 'h, 'sl, 'op) udp_ctx \<Rightarrow> 'g \<Rightarrow> 'g \<Rightarrow> bool" for U g where
  later_refl: "later U g g"
| later_fill: "later U g g' \<Longrightarrow> later U g (snd (fill_bytes U n g'))"
| later_shape: "later U g g' \<Longrightarrow> later U g (snd (shape_hs ty body (profile U) g'))"

inductive failed_tries ::
  "('x, 'g, 'h, 'sl, 'op) udp_ctx \<Rightarrow> socket_addr \<Rightarrow> bytes \<Rightarrow> bytes \<Rightarrow> nat \<Rightarrow> udp_sock \<Rightarrow> 'g \<Rightarrow> nat \<Rightarrow> udp_sock \<Rightarrow> 'g \<Rightarrow> bool"
  for U a sp cp where
  no_try: "failed_tries U a sp cp ent sk g 0 sk g"
| next_try: "client_attempt U ent a sp cp sk g = (None, sk1, g1) \<Longrightarrow> later U (snd (fill_bytes U 32 g)) g1 \<Longrightarrow>
    failed_tries U a sp cp (Suc ent) sk1 g1 n sk' g' \<Longrightarrow> failed_tries U a sp cp ent sk g (Suc n) sk' g'"

text \<open>
  What one successful attempt has done, from the socket \<open>sk\<close> and the generator \<open>g\<close> it began with: it drew
  a seed; a new Noise initiator for the server's key \<open>sp\<close> wrote the first message and read the second;
  then the third message, whose payload is the seed, was sent; and of the datagrams that were still
  to come at this point, one from the server holds a record that authenticates under the
  server-to-client key of the seed. The channel has the keys of the seed.
\<close>

definition established ::
  "('x, 'g, 'h, 'sl, 'op) udp_ctx \<Rightarrow> (bytes \<Rightarrow> (bytes \<times> nat \<times> bytes) option) \<Rightarrow>
   ('op \<Rightarrow> bytes \<times> nat set) \<Rightarrow> nat \<Rightarrow> socket_addr \<Rightarrow> bytes \<Rightarrow> bytes \<Rightarrow> udp_sock \<Rightarrow> 'g \<Rightarrow> ('sl, 'op, 'g) data_channel \<Rightarrow> bool" where
  "established U auth ost ent a sp cp sk g ch \<longleftrightarrow>
     (\<exists>seed g1 hs0 msg1 hs1 msg2 sk2 g2 x hs2 msg3 hs3 sk3.
        fill_bytes U 32 g = (seed, g1) \<and>
        hs_initiator (noise U) ent cp sp = Inr hs0 \<and>
        hs_write (noise U) hs0 [] = (Inr msg1, hs1) \<and>
        msg1_loop MAX_HS_TRIES a (profile U) msg1 None sk g1 = (Inr (Some msg2), sk2, g2) \<and>
        hs_read (noise U) hs1 msg2 = (Inr x, hs2) \<and>
        hs_write (noise U) hs2 seed = (Inr msg3, hs3) \<and>
        send_to (fst (shape_hs Hs3 msg3 (profile U) g2)) a sk2 = (None, sk3) \<and>
        ready_proof U auth a (snd (derive_record_keys (mac U) seed)) (inbox sk3) \<and>
        keyed_chan U ost (sealer_new (records U) (fst (derive_record_keys (mac U) seed)))
          (snd (derive_record_keys (mac U) seed)) ch)"

lemma msg1_loop_later:
  "msg1_loop n a (profile U) msg1 c sk g1 = (r, sk', g') \<Longrightarrow> later U g g1 \<Longrightarrow> later U g g'"
proof (induction n arbitrary: c sk g1)
  case (Suc n)
  obtain wire g2 where w: "shape_hs Hs1 (encode_msg1_framed msg1 c) (profile U) g1 = (wire, g2)" by fastforce
  have "later U g g2" using later_shape [OF Suc.prems(2), of Hs1 "encode_msg1_framed msg1 c"] w by simp
  with Suc w show ?case
    by (auto split: prod.splits option.splits sum.splits dgram_type.splits)
qed simp

lemma finish_attempt_later:
  "finish_attempt U a seed hs msg2 sk g1 = (r, sk', g') \<Longrightarrow> later U g g1 \<Longrightarrow> later U g g'"
  unfolding finish_attempt_def
  using later_shape [of U g g1]
  by (auto split: prod.splits sum.splits option.splits bool.splits) (metis snd_conv)+

lemma client_attempt_later:
  assumes "client_attempt U ent a sp cp sk g = (r, sk', g')"
  shows "later U (snd (fill_bytes U 32 g)) g'"
  using assms later_refl [of U "snd (fill_bytes U 32 g)"] unfolding client_attempt_def
  by (auto split: prod.splits sum.splits option.splits dest: msg1_loop_later finish_attempt_later)

lemma client_attempt_proof:
  assumes c: "record_contract (records U) auth sst ost w"
    and f: "client_attempt U ent a sp cp sk g = (Some (Inr ch), sk', g')"
  shows "established U auth ost ent a sp cp sk g ch"
proof -
  obtain seed g1 c2s s2c where sd: "fill_bytes U 32 g = (seed, g1)" and ks: "derive_record_keys (mac U) seed = (c2s, s2c)" by fastforce
  let ?ch = "data_channel_new (sealer_new (records U) c2s) (opener_new (records U) s2c) (profile U)"
  obtain hs0 msg1 hs1 msg2 sk2 g2 where
    i: "hs_initiator (noise U) ent cp sp = Inr hs0" "hs_write (noise U) hs0 [] = (Inr msg1, hs1)"
      "msg1_loop MAX_HS_TRIES a (profile U) msg1 None sk g1 = (Inr (Some msg2), sk2, g2)"
    and fin: "finish_attempt U a seed hs1 msg2 sk2 g2 = (Some (Inr ch), sk', g')"
    using f by (auto simp: client_attempt_def sd split: prod.splits sum.splits option.splits)
  obtain x hs2 msg3 hs3 wire3 g3 sk3 where r: "hs_read (noise U) hs1 msg2 = (Inr x, hs2)"
    and w: "hs_write (noise U) hs2 seed = (Inr msg3, hs3)"
    and w3: "shape_hs Hs3 msg3 (profile U) g2 = (wire3, g3)"
    and s: "send_to wire3 a sk2 = (None, sk3)"
    and aw: "await_ready U a wire3 ?ch sk3 = (True, ch, sk')"
    using fin by (auto simp: finish_attempt_def ks split: prod.splits sum.splits option.splits bool.splits)
  have "keyed_chan U ost (sealer_new (records U) c2s) s2c ?ch"
    using record_contract_new [OF c] by (simp add: keyed_chan_def data_channel_new_def)
  from await_ready_proof [OF c this aw] show ?thesis
    unfolding established_def using sd i r w w3 s ks by auto
qed

lemma client_attempts_proof:
  assumes c: "record_contract (records U) auth sst ost w"
  shows "client_attempts n U ent a sp cp sk g = (Inr ch, sk', g') \<Longrightarrow>
    \<exists>i < n. \<exists>sk1 g1. failed_tries U a sp cp ent sk g i sk1 g1 \<and> established U auth ost (ent + i) a sp cp sk1 g1 ch"
proof (induction n arbitrary: ent sk g)
  case (Suc n)
  obtain r sk1 g1 where ca: "client_attempt U ent a sp cp sk g = (r, sk1, g1)" by (metis prod_cases3)
  show ?case
  proof (cases r)
    case None
    then have "client_attempts n U (Suc ent) a sp cp sk1 g1 = (Inr ch, sk', g')" using Suc.prems ca by simp
    from Suc.IH [OF this] obtain i sk2 g2 where
      i: "i < n" "failed_tries U a sp cp (Suc ent) sk1 g1 i sk2 g2" "established U auth ost (Suc ent + i) a sp cp sk2 g2 ch" by blast
    from next_try [OF ca [unfolded None] client_attempt_later [OF ca] i(2)] i(1,3) show ?thesis
      by (intro exI [of _ "Suc i"]) auto
  next
    case (Some x)
    then have "client_attempt U ent a sp cp sk g = (Some (Inr ch), sk', g')" using Suc.prems ca by auto
    from client_attempt_proof [OF c this] no_try [of U a sp cp ent sk g] show ?thesis by (intro exI [of _ 0]) auto
  qed
qed simp

subsection \<open>Cookies\<close>

lemma process_hs1_challenge:
  assumes "decode_msg1_framed body = Some (msg1, c)" and "gate ()"
    and "\<And>ck. c = Some ck \<Longrightarrow> \<not> ck_verify C secret (src_bytes a) ck"
  shows "process_hs1 N C ent body a priv secret gate M g =
    (case shape_hs Cookie (ck_make C secret (src_bytes a)) M g of (w, g') \<Rightarrow> (Inr (Some (CookieReply w)), g'))"
  using assms by (cases c) (simp_all add: process_hs1_def encode_cookie_def Let_def)

lemma process_hs1_pass:
  assumes "decode_msg1_framed body = Some (msg1, Some ck)" and "ck_verify C secret (src_bytes a) ck"
  shows "process_hs1 N C ent body a priv secret gate M g = process_hs1 N C ent body a priv secret always_open M g"
  using assms by (simp add: process_hs1_def always_open_def Let_def)

lemma process_hs1_partial_cookie:
  assumes "process_hs1 N C ent body a priv secret gate M g = (Inr (Some (PartialHandshake hs w a')), g')"
    and "gate ()"
  shows "\<exists>msg1 ck. decode_msg1_framed body = Some (msg1, Some ck) \<and> ck_verify C secret (src_bytes a) ck"
proof (cases "decode_msg1_framed body")
  case (Some mc)
  obtain msg1 c where mc: "mc = (msg1, c)" by fastforce
  show ?thesis
  proof (rule ccontr)
    assume "\<not> ?thesis"
    then have "\<And>ck. c = Some ck \<Longrightarrow> \<not> ck_verify C secret (src_bytes a) ck" using Some mc by simp
    then have "process_hs1 N C ent body a priv secret gate M g =
      (case shape_hs Cookie (ck_make C secret (src_bytes a)) M g of (w, g') \<Rightarrow> (Inr (Some (CookieReply w)), g'))"
      by (intro process_hs1_challenge [OF Some [unfolded mc], of gate] assms(2))
    then show False using assms(1) by (simp split: prod.splits)
  qed
qed (use assms in \<open>simp add: process_hs1_def\<close>)

subsection \<open>The concrete arguments keep the contracts\<close>

lemma demo_cookie_contract: "cookie_contract demo_cookies"
  by (simp add: cookie_contract_def demo_cookies_def demo_cookie_def min_def split: prod.splits)

lemma take_dgram: "length d \<le> 65535 \<Longrightarrow> take HS_MAX_DGRAM d = d"
  by (simp add: HS_MAX_DGRAM_def)

lemma demo_handshake:
  "client_udp_handshake demo_ctx 0 demo_server demo_key demo_key demo_sock 0 =
     (Inr (data_channel_new (replicate 32 115, 0) (replicate 32 99, [0]) passthrough),
      \<lparr>inbox = [], sent = [(demo_server, [1, 0, 1, 0]), (demo_server, [1, 0, 1, 0]), (demo_server, 3 # 2 # demo_key @ replicate 32 0)],
       send_script = []\<rparr>, 1)"
proof -
  have "msg1_loop (Suc (Suc n)) demo_server passthrough [0] None demo_sock (Suc 0) =
    (Inr (Some [1]), \<lparr>inbox = [Dgram demo_server (5 # replicate 32 99 @ [0, 1])],
       sent = [(demo_server, [1, 0, 1, 0]), (demo_server, [1, 0, 1, 0])], send_script = []\<rparr>, Suc 0)" for n
    by (simp add: demo_sock_def shape_hs_def unshape_hs_def passthrough_def send_to_def take_dgram
      encode_msg1_framed_def encode_inner_def u16_to_be_bytes_def demo_server_def demo_client_def)
  from this [of 10] have l: "msg1_loop MAX_HS_TRIES demo_server passthrough [0] None demo_sock (Suc 0) =
    (Inr (Some [1]), \<lparr>inbox = [Dgram demo_server (5 # replicate 32 99 @ [0, 1])],
       sent = [(demo_server, [1, 0, 1, 0]), (demo_server, [1, 0, 1, 0])], send_script = []\<rparr>, Suc 0)"
    by (simp add: MAX_HS_TRIES_def)
  have w: "wait_ready demo_ctx demo_server (data_channel_new (replicate 32 115, 0) (replicate 32 99, []) passthrough)
     [Dgram demo_server (5 # replicate 32 99 @ [0, 1])] = 
     (True, data_channel_new (replicate 32 115, 0) (replicate 32 99, [0]) passthrough, [])"
    by (simp add: wait_ready.simps take_dgram open_datagram_def demo_ctx_def clear_records_def clear_open_def 
      clear_auth_def passthrough_def data_channel_new_def plain_serde_def plain_from_slice_def nth_append in_window_def)
  have k: "derive_record_keys demo_mac (replicate 32 0) = (replicate 32 115, replicate 32 99)"
    by (simp add: derive_record_keys_def derive_key_def demo_mac_def)

  have "client_attempt demo_ctx 0 demo_server demo_key demo_key demo_sock 0 =
   (Some (Inr (data_channel_new (replicate 32 115, 0) (replicate 32 99, [0]) passthrough)),
      \<lparr>inbox = [], sent = [(demo_server, [1, 0, 1, 0]), (demo_server, [1, 0, 1, 0]), (demo_server, 3 # 2 # demo_key @ replicate 32 0)],
       send_script = []\<rparr>, 1)"
    using l w by (simp add: client_attempt_def demo_ctx_def demo_noise_def demo_write_def
      demo_read_def finish_attempt_def await_ready_def k shape_hs_def passthrough_def encode_inner_def send_to_def clear_records_def)
  then show ?thesis
    by (simp add: client_udp_handshake_def MAX_HANDSHAKE_ATTEMPTS_def eval_nat_numeral)
qed

lemma demo_ctx_records: "record_contract (records demo_ctx) clear_auth id (\<lambda>(k, seen). (k, set seen)) 64"
  by (simp add: demo_ctx_def clear_records_contract)

subsection \<open>Properties\<close>

text \<open>
  The framing of the first message is exact: with a cookie of 16 bytes or none, the server reads
  back what the client wrote if and only if the Noise message fits the 16-bit length field; the cast
  of a longer length wraps and the server splits the body elsewhere.
\<close>

theorem msg1_framing_iff:
  assumes "case cookie of None \<Rightarrow> True | Some c \<Rightarrow> length c = 16"
  shows "decode_msg1_framed (encode_msg1_framed msg1 cookie) = Some (msg1, cookie) \<longleftrightarrow> length msg1 < 65536"
proof
  assume "decode_msg1_framed (encode_msg1_framed msg1 cookie) = Some (msg1, cookie)"
  then have "take (length msg1 mod 65536) msg1 = msg1" by (simp add: decode_encode_msg1 Let_def)
  from arg_cong [OF this, of length] have "length msg1 mod 65536 = length msg1" by simp
  then show "length msg1 < 65536" by (metis mod_less_divisor zero_less_numeral)
next
  assume "length msg1 < 65536"
  then show "decode_msg1_framed (encode_msg1_framed msg1 cookie) = Some (msg1, cookie)"
    using msg1.decode_encode [of "(msg1, cookie)"] assms by (simp add: msg1_wf_def)
qed

theorem msg1_framing_iff_witness:
  "decode_msg1_framed (encode_msg1_framed [1, 2, 3] (Some (replicate 16 9))) = Some ([1, 2, 3], Some (replicate 16 9))"
  using msg1_framing_iff [of "Some (replicate 16 9)" "[1, 2, 3]"] by simp

text \<open>
  The cookie exchange. A server under load answers a first message without a cookie by a cookie
  datagram and no responder state; the cookie the client decodes from it, sent back from the same
  address, passes the check under the same secret and after one rotation of it, so that the message
  is then processed as if there were no load.
\<close>

theorem cookie_exchange:
  assumes "cookie_contract C" and "mimicry_ok M" and "length msg1 < 65536" and "gate ()"
    and "secret' = secret \<or> secret' = ck_rotate C seed secret"
  shows "\<exists>reply g1 body ck.
    process_hs1 N C ent (encode_msg1_framed msg1 None) a priv secret gate M g = (Inr (Some (CookieReply reply)), g1) \<and>
    unshape_hs reply M = Some (Cookie, body) \<and> decode_cookie body = Some ck \<and>
    process_hs1 N C ent' (encode_msg1_framed msg1 (Some ck)) a priv secret' gate M g' =
      process_hs1 N C ent' (encode_msg1_framed msg1 (Some ck)) a priv secret' always_open M g'"
proof -
  let ?ck = "ck_make C secret (src_bytes a)"
  obtain reply g1 where w: "shape_hs Cookie ?ck M g = (reply, g1)" by fastforce
  have len: "length ?ck = 16" and v: "ck_verify C secret' (src_bytes a) ?ck"
    using assms(1,5) by (auto simp: cookie_contract_def)
  have d: "decode_msg1_framed (encode_msg1_framed msg1 None) = Some (msg1, None)"
    using msg1.decode_encode [of "(msg1, None)"] assms(3) by (simp add: msg1_wf_def)
  have d': "decode_msg1_framed (encode_msg1_framed msg1 (Some ?ck)) = Some (msg1, Some ?ck)"
    using msg1.decode_encode [of "(msg1, Some ?ck)"] assms(3) len by (simp add: msg1_wf_def)
  have r: "process_hs1 N C ent (encode_msg1_framed msg1 None) a priv secret gate M g = (Inr (Some (CookieReply reply)), g1)"
    using process_hs1_challenge [OF d, of gate C secret a N ent priv M g] assms(4) w by simp
  have u: "unshape_hs reply M = Some (Cookie, ?ck)" by (rule unshape_shape_hs [OF assms(2) w])
  have c: "decode_cookie ?ck = Some ?ck" using len by (simp add: decode_cookie_def)
  show ?thesis by (intro exI conjI, rule r, rule u, rule c, rule process_hs1_pass [OF d' v])
qed

theorem cookie_exchange_witness:
  "\<exists>reply g1 body ck.
    process_hs1 demo_noise demo_cookies 0 (encode_msg1_framed [0] None) demo_client demo_key ([1], [2])
      always_under_load passthrough 0 = (Inr (Some (CookieReply reply)), g1) \<and>
    unshape_hs reply passthrough = Some (Cookie, body) \<and> decode_cookie body = Some ck \<and>
    process_hs1 demo_noise demo_cookies 1 (encode_msg1_framed [0] (Some ck)) demo_client demo_key ([3], [1])
      always_under_load passthrough 0 =
    process_hs1 demo_noise demo_cookies 1 (encode_msg1_framed [0] (Some ck)) demo_client demo_key ([3], [1])
      always_open passthrough 0"
  using cookie_exchange [OF demo_cookie_contract passthrough_ok, of "[0]" always_under_load "([3], [1])" "([1], [2])" "[3]"
      demo_noise 0 demo_client demo_key 0 1 0]
  by (simp add: always_under_load_def demo_cookies_def)

text \<open>
  Under load the server creates handshake state only for a source that has echoed a cookie valid
  for its own address: without one, whatever the body, no responder results.
\<close>

theorem no_responder_without_cookie:
  assumes "gate ()"
    and "\<forall>msg1 ck. decode_msg1_framed body = Some (msg1, Some ck) \<longrightarrow> \<not> ck_verify C secret (src_bytes a) ck"
  shows "fst (process_hs1 N C ent body a priv secret gate M g) =
    Inr (if decode_msg1_framed body = None then None
         else Some (CookieReply (fst (shape_hs Cookie (ck_make C secret (src_bytes a)) M g))))"
proof (cases "decode_msg1_framed body")
  case (Some mc)
  obtain msg1 c where mc: "mc = (msg1, c)" by fastforce
  have "\<And>ck. c = Some ck \<Longrightarrow> \<not> ck_verify C secret (src_bytes a) ck" using assms(2) Some mc by simp
  then have "process_hs1 N C ent body a priv secret gate M g =
    (case shape_hs Cookie (ck_make C secret (src_bytes a)) M g of (w, g') \<Rightarrow> (Inr (Some (CookieReply w)), g'))"
    by (intro process_hs1_challenge [OF Some [unfolded mc], of gate] assms(1))
  then show ?thesis using Some by (simp split: prod.splits)
qed (simp add: process_hs1_def)

theorem no_responder_without_cookie_witness:
  "fst (process_hs1 demo_noise demo_cookies 0 (encode_msg1_framed [0] (Some (replicate 16 0))) demo_client demo_key
      ([1], [2]) always_under_load passthrough 0) =
   Inr (Some (CookieReply (4 # demo_cookie [1] (src_bytes demo_client))))"
proof -
  have d: "decode_msg1_framed (encode_msg1_framed [0] (Some (replicate 16 0))) = Some ([0], Some (replicate 16 0))"
    by code_simp
  have v: "\<not> ck_verify demo_cookies ([1], [2]) (src_bytes demo_client) (replicate 16 0)"
    by (simp add: demo_cookies_def demo_cookie_def numeral_eq_Suc)
  have w: "fst (shape_hs Cookie (ck_make demo_cookies ([1], [2]) (src_bytes demo_client)) passthrough 0) =
    4 # demo_cookie [1] (src_bytes demo_client)"
    by (simp add: shape_hs_def encode_inner_def passthrough_def demo_cookies_def)
  show ?thesis
    using no_responder_without_cookie [of always_under_load "encode_msg1_framed [0] (Some (replicate 16 0))"
        demo_cookies "([1], [2])" demo_client demo_noise 0 demo_key passthrough 0] d v w
    by (simp add: always_under_load_def)
qed

text \<open>
  C23. The client's handshake always ends, after at most 48 datagrams (three attempts of twelve first
  messages, one third message and three resends), all of them to the server's address, and it leaves
  what it did not consume of its inbox.
\<close>

theorem client_handshake_bounded:
  "\<exists>r sk' g' ds. client_udp_handshake U ent a sp cp sk g = (r, sk', g') \<and>
     sent sk' = sent sk @ map (Pair a) ds \<and> length ds \<le> 48 \<and> suffix (inbox sk') (inbox sk)"
proof -
  obtain r sk' g' where h: "client_udp_handshake U ent a sp cp sk g = (r, sk', g')" by (metis prod_cases3)
  from client_attempts_ext [OF h [unfolded client_udp_handshake_def]]
  show ?thesis using h by (auto simp: sock_ext_def MAX_HANDSHAKE_ATTEMPTS_def)
qed

text \<open>
  C16. The client never reports a connection the server has not completed. If the handshake succeeds,
  it does so in one of three attempts, those before it having failed, and this attempt drew its own
  seed, from the generator as it was after the seeds of the attempts before it were drawn. The attempt
  then sent the third Noise message, to the server's key and with this seed as its payload, and among
  the datagrams that were still to come at that point, one from the server's address holds a record
  that authenticates under the seed's server-to-client key. The channel is keyed from the seed.
\<close>

theorem client_handshake_authenticated:
  assumes "record_contract (records U) auth sst ost w"
    and "client_udp_handshake U ent a sp cp sk g = (Inr ch, sk', g')"
  shows "\<exists>i < 3. \<exists>sk1 g1. failed_tries U a sp cp ent sk g i sk1 g1 \<and> established U auth ost (ent + i) a sp cp sk1 g1 ch"
  using client_attempts_proof [OF assms(1)] assms(2) unfolding client_udp_handshake_def MAX_HANDSHAKE_ATTEMPTS_def .

theorem client_handshake_authenticated_witness:
  "\<exists>ch sk' g'. client_udp_handshake demo_ctx 0 demo_server demo_key demo_key demo_sock 0 = (Inr ch, sk', g') \<and>
     (\<exists>i < 3. \<exists>sk1 g1. failed_tries demo_ctx demo_server demo_key demo_key 0 demo_sock 0 i sk1 g1 \<and>
        established demo_ctx clear_auth (\<lambda>(k, seen). (k, set seen)) (0 + i) demo_server demo_key demo_key sk1 g1 ch)"
proof -
  from client_handshake_authenticated [OF demo_ctx_records demo_handshake] show ?thesis
    using demo_handshake by blast
qed

end
