(* ===== verification/Verifier.thy ===== *)
theory Verifier
  imports Obfs_Prelude
begin

text \<open>
  Transport-layer authentication, \<^verbatim>\<open>src/verifier.rs\<close>: a gate maps a client's static key to
  acceptance or a rejection message. The locale \<open>transport_gate\<close> is the interface the servers
  rely on; both gates of the source interpret it.
\<close>

type_synonym gate = "bytes \<Rightarrow> string + unit"

record subject =
  subject_id :: string
  scopes :: "string set"

record key_allow_list =
  allowed :: "bytes list"

definition hex_digit :: "nat \<Rightarrow> char" where
  "hex_digit n = char_of (if n < 10 then 48 + n else 87 + n)"

definition hex_byte :: "u8 \<Rightarrow> string" where
  "hex_byte b = [hex_digit (unat b div 16), hex_digit (unat b mod 16)]"

definition hex_key :: "bytes \<Rightarrow> string" where
  "hex_key k = concat (map hex_byte k)"

definition allow_all :: gate where
  "allow_all remote_static = Inr ()"

definition allow_all_verify :: "string option \<Rightarrow> string \<Rightarrow> string + subject" where
  "allow_all_verify capability method = Inr \<lparr>subject_id = ''obfs-client'', scopes = {''*''}\<rparr>"

definition key_allow_list_new :: "bytes list \<Rightarrow> key_allow_list" where
  "key_allow_list_new keys = \<lparr>allowed = keys\<rparr>"

definition key_allow_list_authenticate :: "key_allow_list \<Rightarrow> gate" where
  "key_allow_list_authenticate g remote_static =
     (if remote_static \<in> set (allowed g) then Inr ()
      else Inl (''public key not in allow-list: '' @ hex_key remote_static))"

text \<open>What a server relies on: a gate decides on the key alone.\<close>

locale transport_gate =
  fixes authenticate :: gate
    and accepts :: "bytes \<Rightarrow> bool"
  assumes authenticate_iff: "authenticate k = Inr () \<longleftrightarrow> accepts k"
begin

lemma authenticate_reject: "\<not> accepts k \<longleftrightarrow> (\<exists>msg. authenticate k = Inl msg)"
  using authenticate_iff [of k] by (cases "authenticate k") auto

end

interpretation all_gate: transport_gate allow_all "\<lambda>_. True"
  by unfold_locales (simp add: allow_all_def)

interpretation list_gate: transport_gate
  "key_allow_list_authenticate (key_allow_list_new ks)" "\<lambda>k. k \<in> set ks" for ks
  by unfold_locales (simp add: key_allow_list_authenticate_def key_allow_list_new_def)

subsection \<open>The hexadecimal rendering of a key\<close>

lemma of_char_hex_digit:
  "n < 16 \<Longrightarrow> (of_char (hex_digit n) :: nat) = (if n < 10 then 48 + n else 87 + n)"
  by (simp add: hex_digit_def)

lemma hex_digit_inj:
  assumes "m < 16" and "n < 16" and eq: "hex_digit m = hex_digit n"
  shows "m = n"
proof -
  have "(of_char (hex_digit m) :: nat) = of_char (hex_digit n)" by (simp only: eq)
  then have "(if m < 10 then 48 + m else 87 + m) = (if n < 10 then 48 + n else 87 + n)"
    by (simp only: of_char_hex_digit assms(1,2))
  then show ?thesis by (simp split: if_splits)
qed

lemma length_hex_byte [simp]: "length (hex_byte b) = 2"
  by (simp add: hex_byte_def)

lemma hex_byte_inj: "hex_byte a = hex_byte b \<Longrightarrow> a = b"
proof -
  assume eq: "hex_byte a = hex_byte b"
  have lt: "unat x div 16 < 16 \<and> unat x mod 16 < 16" for x :: u8
    using unat_u8_less [of x] by auto
  have "unat a div 16 = unat b div 16" and "unat a mod 16 = unat b mod 16"
    using eq lt [of a] lt [of b] by (auto simp: hex_byte_def intro: hex_digit_inj)
  then have "unat a = unat b" by (metis div_mult_mod_eq)
  then show "a = b" by (simp add: word_unat_eq_iff)
qed

lemma hex_key_Cons: "hex_key (b # k) = hex_byte b @ hex_key k"
  by (simp add: hex_key_def)

lemma length_hex_key: "length (hex_key k) = 2 * length k"
  by (induction k) (simp_all add: hex_key_def)

lemma hex_key_inj: "hex_key k = hex_key l \<Longrightarrow> k = l"
proof (induction k arbitrary: l)
  case Nil
  then have "length (hex_key l) = 0" by (simp add: hex_key_def)
  then show ?case by (simp add: length_hex_key)
next
  case (Cons b k)
  then have "length (hex_key l) = 2 * length (b # k)" by (simp only: length_hex_key [symmetric])
  then obtain c l' where l: "l = c # l'" by (cases l) (simp_all add: length_hex_key)
  with Cons.prems have "hex_byte b = hex_byte c" and "hex_key k = hex_key l'"
    by (simp_all add: hex_key_Cons)
  with Cons.IH l show ?case by (auto dest: hex_byte_inj)
qed

text \<open>
  The allow-list gate accepts a static key exactly when it is one of the configured keys; any
  other key is rejected with a message that identifies it: two rejected keys never share a message.
\<close>

theorem key_allow_list_gate:
  "(key_allow_list_authenticate (key_allow_list_new ks) k = Inr () \<longleftrightarrow> k \<in> set ks) \<and>
   (key_allow_list_authenticate (key_allow_list_new ks) k =
      key_allow_list_authenticate (key_allow_list_new ks) l \<longleftrightarrow> k = l \<or> {k, l} \<subseteq> set ks)"
proof
  show "key_allow_list_authenticate (key_allow_list_new ks) k = Inr () \<longleftrightarrow> k \<in> set ks"
    by (rule list_gate.authenticate_iff)
  show "key_allow_list_authenticate (key_allow_list_new ks) k =
      key_allow_list_authenticate (key_allow_list_new ks) l \<longleftrightarrow> k = l \<or> {k, l} \<subseteq> set ks"
    by (auto simp: key_allow_list_authenticate_def key_allow_list_new_def dest: hex_key_inj)
qed

end
