(* ===== verification/Udp_Server.thy ===== *)
theory Udp_Server
  imports Udp_Handshake Verifier
begin

text \<open>
  The UDP server, \<^verbatim>\<open>src/udp/server.rs\<close>, as a state machine.

  The state holds the receive loop's two hash maps, and what the spawned tasks own. Each completed
  handshake creates a channel, an outbound queue and a sealer task; these live on after the peer
  entry is dropped, so they are entries of the list \<open>conns\<close>, and a peer refers to one by its index
  (the \<^verbatim>\<open>Arc\<close> shared by handler and task). A subscription task is an entry of \<open>subs\<close>. The central
  outbound channel is \<open>out_queue\<close>, and \<open>sent_dgrams\<close> lists what was handed to the socket, whose
  send errors the code discards. \<open>handled\<close> lists the requests the service has handled.

  An event is one step of one task: a datagram received at a time (in milliseconds), with what the
  load gate says then; a step of a sealer task; a step of the send loop; a rotation of the cookie
  secret; an event published on a source, with the subscriptions that lag and miss it. An
  interleaving of the tasks is a list of events.
\<close>

record 'h pending_handshake =
  responder :: 'h
  created_at :: nat

record peer_state =
  peer_conn :: nat
  last_seen :: nat

record ('x, 'g, 'sl, 'op) conn =
  conn_chan :: "('sl, 'op, 'g) data_channel"
  conn_dst :: socket_addr
  conn_queue :: "'x envelope list"
  conn_rng :: 'g

record ('x, 'g, 'h, 'sl, 'op, 'c) udp_server =
  pending :: "(socket_addr, 'h pending_handshake) fmap"
  peers :: "(socket_addr, peer_state) fmap"
  conns :: "('x, 'g, 'sl, 'op) conn list"
  subs :: "subscription list"
  out_queue :: "(socket_addr \<times> bytes) list"
  sent_dgrams :: "(socket_addr \<times> bytes) list"
  handled :: "'x request list"
  cookie_secret :: 'c
  srv_rng :: 'g
  entropy :: nat

record ('x, 'g, 'h, 'sl, 'op, 'c) udp_server_cfg =
  ctx :: "('x, 'g, 'h, 'sl, 'op) udp_ctx"
  cookies :: "'c cookie_api"
  service :: "'x service"
  auth_gate :: "bytes \<Rightarrow> string + unit"
  server_priv :: bytes
  task_rng :: "nat \<Rightarrow> 'g"

datatype 'x udp_event =
    Recv nat bool socket_addr bytes
  | SealNext nat
  | SendNext
  | RotateCookie bytes
  | Publish nat "'x event" "nat list"

definition SRV_MAX_DGRAM :: nat where "SRV_MAX_DGRAM = 65507"
definition MAX_PEERS :: nat where "MAX_PEERS = 1024"
definition MAX_PENDING :: nat where "MAX_PENDING = 2048"
definition PENDING_SOFT_LIMIT :: nat where "PENDING_SOFT_LIMIT = 256"
definition PEER_IDLE_TIMEOUT :: nat where "PEER_IDLE_TIMEOUT = 120000"
definition PENDING_TIMEOUT :: nat where "PENDING_TIMEOUT = 5000"

definition sock_send ::
  "socket_addr \<Rightarrow> bytes \<Rightarrow> ('x, 'g, 'h, 'sl, 'op, 'c) udp_server \<Rightarrow> ('x, 'g, 'h, 'sl, 'op, 'c) udp_server" where
  "sock_send dst d s = s\<lparr>sent_dgrams := sent_dgrams s @ [(dst, d)]\<rparr>"

definition set_chan ::
  "nat \<Rightarrow> ('sl, 'op, 'g) data_channel \<Rightarrow> ('x, 'g, 'h, 'sl, 'op, 'c) udp_server \<Rightarrow>
   ('x, 'g, 'h, 'sl, 'op, 'c) udp_server" where
  "set_chan i ch s = s\<lparr>conns := (conns s)[i := (conns s ! i)\<lparr>conn_chan := ch\<rparr>]\<rparr>"

definition push_queue ::
  "nat \<Rightarrow> 'x envelope \<Rightarrow> ('x, 'g, 'h, 'sl, 'op, 'c) udp_server \<Rightarrow> ('x, 'g, 'h, 'sl, 'op, 'c) udp_server" where
  "push_queue i env s =
     s\<lparr>conns := (conns s)[i := (conns s ! i)\<lparr>conn_queue := conn_queue (conns s ! i) @ [env]\<rparr>]\<rparr>"

text \<open>Sealing on the handler's side: with the loop's generator, straight to the socket.\<close>

definition seal_and_send ::
  "('x, 'g, 'h, 'sl, 'op, 'c) udp_server_cfg \<Rightarrow> nat \<Rightarrow> socket_addr \<Rightarrow> 'x envelope \<Rightarrow>
   ('x, 'g, 'h, 'sl, 'op, 'c) udp_server \<Rightarrow> ('x, 'g, 'h, 'sl, 'op, 'c) udp_server" where
  "seal_and_send K i src env s =
     (case seal_envelope (records (ctx K)) (json (ctx K)) (conn_chan (conns s ! i)) env (srv_rng s) of
        (r, ch, g) \<Rightarrow>
          (let s' = set_chan i ch s\<lparr>srv_rng := g\<rparr>
           in case r of Inr wire \<Rightarrow> sock_send src wire s' | Inl _ \<Rightarrow> s'))"

subsection \<open>The handler\<close>

text \<open>Each branch returns whether it reaches the cleanup below the match, and the new state.\<close>

definition handle_hs1 ::
  "('x, 'g, 'h, 'sl, 'op, 'c) udp_server_cfg \<Rightarrow> nat \<Rightarrow> bool \<Rightarrow> socket_addr \<Rightarrow> bytes \<Rightarrow>
   ('x, 'g, 'h, 'sl, 'op, 'c) udp_server \<Rightarrow> bool \<times> ('x, 'g, 'h, 'sl, 'op, 'c) udp_server" where
  "handle_hs1 K now load src body s =
     (if MAX_PEERS \<le> fmsize (peers s) then (False, s)
      else
        (let effective_under_load = load \<or> PENDING_SOFT_LIMIT \<le> fmsize (pending s);
             eff_gate = (if effective_under_load then always_under_load else always_open)
         in case process_hs1 (noise (ctx K)) (cookies K) (entropy s) body src (server_priv K)
                   (cookie_secret s) eff_gate (profile (ctx K)) (srv_rng s) of
              (result, g) \<Rightarrow>
                (let s' = s\<lparr>srv_rng := g, entropy := Suc (entropy s)\<rparr>
                 in case result of
                      Inr (Some (CookieReply wire)) \<Rightarrow> (True, sock_send src wire s')
                    | Inr (Some (PartialHandshake hs msg2 _)) \<Rightarrow>
                        if MAX_PENDING \<le> fmsize (pending s) \<and> fmlookup (pending s) src = None
                        then (False, s')
                        else
                          (True, sock_send src msg2
                             (s'\<lparr>pending := fmupd src \<lparr>responder = hs, created_at = now\<rparr> (pending s')\<rparr>))
                    | _ \<Rightarrow> (True, s'))))"

definition handle_hs3 ::
  "('x, 'g, 'h, 'sl, 'op, 'c) udp_server_cfg \<Rightarrow> nat \<Rightarrow> socket_addr \<Rightarrow> bytes \<Rightarrow>
   ('x, 'g, 'h, 'sl, 'op, 'c) udp_server \<Rightarrow> bool \<times> ('x, 'g, 'h, 'sl, 'op, 'c) udp_server" where
  "handle_hs3 K now src body s =
     (case fmlookup (pending s) src of
        None \<Rightarrow> (False, s)
      | Some ph \<Rightarrow>
          (let s1 = s\<lparr>pending := fmdrop src (pending s)\<rparr>
           in case complete_handshake_msg3 (ctx K) (responder ph) body of
                Inl _ \<Rightarrow> (True, s1)
              | Inr (channel, client_static) \<Rightarrow>
                  (case auth_gate K client_static of
                     Inl _ \<Rightarrow> (False, s1)
                   | Inr _ \<Rightarrow>
                       (let i = length (conns s1);
                            c = \<lparr>conn_chan = channel, conn_dst = src, conn_queue = [],
                                 conn_rng = task_rng K (entropy s1)\<rparr>;
                            s2 = s1\<lparr>conns := conns s1 @ [c], entropy := Suc (entropy s1)\<rparr>;
                            s3 = seal_and_send K i src Pong s2
                        in (True, s3\<lparr>peers := fmupd src \<lparr>peer_conn = i, last_seen = now\<rparr> (peers s3)\<rparr>)))))"

definition handle_subscribe ::
  "('x, 'g, 'h, 'sl, 'op, 'c) udp_server_cfg \<Rightarrow> nat \<Rightarrow> string \<Rightarrow> string option \<Rightarrow>
   ('x, 'g, 'h, 'sl, 'op, 'c) udp_server \<Rightarrow> ('x, 'g, 'h, 'sl, 'op, 'c) udp_server" where
  "handle_subscribe K i topic capability s =
     (case svc_verify_topic (service K) capability topic of
        Inl err \<Rightarrow> push_queue i (SubscribeError topic (deny_diag (service K) err)) s
      | Inr _ \<Rightarrow>
          (case svc_event_source (service K) topic of
             Some src \<Rightarrow> s\<lparr>subs := subs s @ [\<lparr>sub_source = src, sub_topic = topic, sub_conn = i\<rparr>]\<rparr>
           | None \<Rightarrow> s))"

definition handle_env ::
  "('x, 'g, 'h, 'sl, 'op, 'c) udp_server_cfg \<Rightarrow> nat \<Rightarrow> socket_addr \<Rightarrow> 'x envelope \<Rightarrow>
   ('x, 'g, 'h, 'sl, 'op, 'c) udp_server \<Rightarrow> ('x, 'g, 'h, 'sl, 'op, 'c) udp_server" where
  "handle_env K i src env s =
     (case env of
        Ping \<Rightarrow> seal_and_send K i src Pong s
      | Request req \<Rightarrow>
          seal_and_send K i src (Response (svc_handle (service K) (handled s) req))
            (s\<lparr>handled := handled s @ [req]\<rparr>)
      | Subscribe topic _ capability \<Rightarrow> handle_subscribe K i topic capability s
      | Unsubscribe _ \<Rightarrow> s
      | _ \<Rightarrow> s)"

definition handle_data ::
  "('x, 'g, 'h, 'sl, 'op, 'c) udp_server_cfg \<Rightarrow> nat \<Rightarrow> socket_addr \<Rightarrow> bytes \<Rightarrow>
   ('x, 'g, 'h, 'sl, 'op, 'c) udp_server \<Rightarrow> bool \<times> ('x, 'g, 'h, 'sl, 'op, 'c) udp_server" where
  "handle_data K now src dgram s =
     (case fmlookup (peers s) src of
        None \<Rightarrow> (False, s)
      | Some peer \<Rightarrow>
          (let i = peer_conn peer;
               s1 = s\<lparr>peers := fmupd src (peer\<lparr>last_seen := now\<rparr>) (peers s)\<rparr>
           in case open_datagram (records (ctx K)) (json (ctx K)) (conn_chan (conns s1 ! i)) dgram of
                (r, ch) \<Rightarrow>
                  (let s2 = set_chan i ch s1
                   in case r of
                        Inr (Some env) \<Rightarrow> (True, handle_env K i src env s2)
                      | _ \<Rightarrow> (False, s2))))"

definition cleanup ::
  "nat \<Rightarrow> ('x, 'g, 'h, 'sl, 'op, 'c) udp_server \<Rightarrow> ('x, 'g, 'h, 'sl, 'op, 'c) udp_server" where
  "cleanup now s =
     s\<lparr>pending := retain (\<lambda>ph. now - created_at ph < PENDING_TIMEOUT) (pending s),
       peers := retain (\<lambda>p. now - last_seen p < PEER_IDLE_TIMEOUT) (peers s)\<rparr>"

definition handle_dgram ::
  "('x, 'g, 'h, 'sl, 'op, 'c) udp_server_cfg \<Rightarrow> nat \<Rightarrow> bool \<Rightarrow> socket_addr \<Rightarrow> bytes \<Rightarrow>
   ('x, 'g, 'h, 'sl, 'op, 'c) udp_server \<Rightarrow> ('x, 'g, 'h, 'sl, 'op, 'c) udp_server" where
  "handle_dgram K now load src dgram s =
     (case shape_in (profile (ctx K)) dgram of
        None \<Rightarrow> s
      | Some inner \<Rightarrow>
          (case decode_inner inner of
             None \<Rightarrow> s
           | Some (ty, body) \<Rightarrow>
               (case (case ty of
                        Hs1 \<Rightarrow> handle_hs1 K now load src body s
                      | Hs3 \<Rightarrow> handle_hs3 K now src body s
                      | Data \<Rightarrow> handle_data K now src dgram s
                      | _ \<Rightarrow> (True, s)) of
                  (True, s') \<Rightarrow> cleanup now s'
                | (False, s') \<Rightarrow> s')))"

subsection \<open>The tasks\<close>

definition seal_next ::
  "('x, 'g, 'h, 'sl, 'op, 'c) udp_server_cfg \<Rightarrow> nat \<Rightarrow>
   ('x, 'g, 'h, 'sl, 'op, 'c) udp_server \<Rightarrow> ('x, 'g, 'h, 'sl, 'op, 'c) udp_server" where
  "seal_next K i s =
     (if length (conns s) \<le> i then s
      else
        (let c = conns s ! i
         in case conn_queue c of
              [] \<Rightarrow> s
            | env # q \<Rightarrow>
                (case seal_envelope (records (ctx K)) (json (ctx K)) (conn_chan c) env (conn_rng c) of
                   (r, ch, g) \<Rightarrow>
                     (let s' = s\<lparr>conns := (conns s)[i := c\<lparr>conn_chan := ch, conn_queue := q, conn_rng := g\<rparr>]\<rparr>
                      in case r of
                           Inr wire \<Rightarrow> s'\<lparr>out_queue := out_queue s' @ [(conn_dst c, wire)]\<rparr>
                         | Inl _ \<Rightarrow> s'))))"

definition send_next ::
  "('x, 'g, 'h, 'sl, 'op, 'c) udp_server \<Rightarrow> ('x, 'g, 'h, 'sl, 'op, 'c) udp_server" where
  "send_next s =
     (case out_queue s of
        [] \<Rightarrow> s
      | (dst, data) # q \<Rightarrow> sock_send dst data (s\<lparr>out_queue := q\<rparr>))"

definition rotate_cookie ::
  "('x, 'g, 'h, 'sl, 'op, 'c) udp_server_cfg \<Rightarrow> bytes \<Rightarrow>
   ('x, 'g, 'h, 'sl, 'op, 'c) udp_server \<Rightarrow> ('x, 'g, 'h, 'sl, 'op, 'c) udp_server" where
  "rotate_cookie K seed s = s\<lparr>cookie_secret := ck_rotate (cookies K) seed (cookie_secret s)\<rparr>"

fun publish ::
  "nat \<Rightarrow> 'x event \<Rightarrow> nat list \<Rightarrow> nat \<Rightarrow> subscription list \<Rightarrow>
   ('x, 'g, 'h, 'sl, 'op, 'c) udp_server \<Rightarrow> ('x, 'g, 'h, 'sl, 'op, 'c) udp_server" where
  "publish src ev lagging n [] s = s"
| "publish src ev lagging n (sub # rest) s =
     publish src ev lagging (Suc n) rest
       (if sub_source sub = src \<and> n \<notin> set lagging \<and> ev_topic ev = sub_topic sub
        then push_queue (sub_conn sub) (Event ev) s
        else s)"

definition udp_step ::
  "('x, 'g, 'h, 'sl, 'op, 'c) udp_server_cfg \<Rightarrow> ('x, 'g, 'h, 'sl, 'op, 'c) udp_server \<Rightarrow>
   'x udp_event \<Rightarrow> ('x, 'g, 'h, 'sl, 'op, 'c) udp_server" where
  "udp_step K s e =
     (case e of
        Recv now load src d \<Rightarrow> handle_dgram K now load src (take SRV_MAX_DGRAM d) s
      | SealNext i \<Rightarrow> seal_next K i s
      | SendNext \<Rightarrow> send_next s
      | RotateCookie seed \<Rightarrow> rotate_cookie K seed s
      | Publish src ev lagging \<Rightarrow> publish src ev lagging 0 (subs s) s)"

definition serve_obfs_udp ::
  "('x, 'g, 'h, 'sl, 'op, 'c) udp_server_cfg \<Rightarrow> bytes \<Rightarrow> 'g \<Rightarrow> ('x, 'g, 'h, 'sl, 'op, 'c) udp_server" where
  "serve_obfs_udp K cookie_seed g =
     \<lparr>pending = fmempty, peers = fmempty, conns = [], subs = [], out_queue = [], sent_dgrams = [],
      handled = [], cookie_secret = ck_new (cookies K) cookie_seed, srv_rng = g, entropy = 0\<rparr>"

subsection \<open>Invariant\<close>

text \<open>
  \<open>sized\<close>: the maps are bounded. \<open>linked\<close>: a peer's connection exists and sends to that peer's
  address, so no two peers share one, and a subscription feeds an existing queue.
\<close>

definition dsts :: "('x, 'g, 'h, 'sl, 'op, 'c) udp_server \<Rightarrow> socket_addr list" where
  "dsts s = map conn_dst (conns s)"

definition sized :: "('x, 'g, 'h, 'sl, 'op, 'c) udp_server \<Rightarrow> bool" where
  "sized s \<longleftrightarrow> fmsize (pending s) \<le> MAX_PENDING \<and> fmsize (peers s) + fmsize (pending s) < MAX_PEERS + MAX_PENDING"

definition linked :: "('x, 'g, 'h, 'sl, 'op, 'c) udp_server \<Rightarrow> bool" where
  "linked s \<longleftrightarrow>
     (\<forall>src p. fmlookup (peers s) src = Some p \<longrightarrow> peer_conn p < length (dsts s) \<and> dsts s ! peer_conn p = src) \<and>
     (\<forall>sub \<in> set (subs s). sub_conn sub < length (dsts s))"

definition server_inv :: "('x, 'g, 'h, 'sl, 'op, 'c) udp_server \<Rightarrow> bool" where
  "server_inv s \<longleftrightarrow> sized s \<and> linked s"

text \<open>A datagram that would pass the cookie check at the server's present secret.\<close>

definition cookie_verified ::
  "('x, 'g, 'h, 'sl, 'op, 'c) udp_server_cfg \<Rightarrow> ('x, 'g, 'h, 'sl, 'op, 'c) udp_server \<Rightarrow> 'x udp_event \<Rightarrow> bool" where
  "cookie_verified K s e =
     (case e of
        Recv now load src d \<Rightarrow>
          (case unshape_hs (take SRV_MAX_DGRAM d) (profile (ctx K)) of
             Some (Hs1, body) \<Rightarrow>
               (case decode_msg1_framed body of
                  Some (_, Some ck) \<Rightarrow> ck_verify (cookies K) (cookie_secret s) (src_bytes src) ck
                | _ \<Rightarrow> False)
           | _ \<Rightarrow> False)
      | _ \<Rightarrow> False)"

text \<open>
  Events only where they were authorised: every subscription passed the service's topic check, and
  an event waits in a connection's queue only if that connection subscribed to its topic.
\<close>

definition subs_authorised ::
  "('x, 'g, 'h, 'sl, 'op, 'c) udp_server_cfg \<Rightarrow> ('x, 'g, 'h, 'sl, 'op, 'c) udp_server \<Rightarrow> bool" where
  "subs_authorised K s \<longleftrightarrow>
     (\<forall>sub \<in> set (subs s). \<exists>cap. svc_verify_topic (service K) cap (sub_topic sub) = Inr ())"

definition queues :: "('x, 'g, 'h, 'sl, 'op, 'c) udp_server \<Rightarrow> 'x envelope list list" where
  "queues s = map conn_queue (conns s)"

definition events_subscribed :: "('x, 'g, 'h, 'sl, 'op, 'c) udp_server \<Rightarrow> bool" where
  "events_subscribed s \<longleftrightarrow>
     (\<forall>i < length (queues s). \<forall>ev. Event ev \<in> set (queues s ! i) \<longrightarrow>
        (\<exists>sub \<in> set (subs s). sub_conn sub = i \<and> sub_topic sub = ev_topic ev))"

definition events_authorised ::
  "('x, 'g, 'h, 'sl, 'op, 'c) udp_server_cfg \<Rightarrow> ('x, 'g, 'h, 'sl, 'op, 'c) udp_server \<Rightarrow> bool" where
  "events_authorised K s \<longleftrightarrow> subs_authorised K s \<and> events_subscribed s"

text \<open>Runs in which no datagram passes the cookie check: what a spoofing sender can cause.\<close>

inductive unverified_run ::
  "('x, 'g, 'h, 'sl, 'op, 'c) udp_server_cfg \<Rightarrow> ('x, 'g, 'h, 'sl, 'op, 'c) udp_server \<Rightarrow>
   ('x, 'g, 'h, 'sl, 'op, 'c) udp_server \<Rightarrow> bool" for K s where
  start: "unverified_run K s s"
| step: "unverified_run K s s' \<Longrightarrow> \<not> cookie_verified K s' e \<Longrightarrow> unverified_run K s (udp_step K s' e)"

subsection \<open>What the helpers leave alone\<close>

lemma dsts_update [simp]:
  "conn_dst c = conn_dst (conns s ! i) \<Longrightarrow> dsts (s'\<lparr>conns := (conns s)[i := c]\<rparr>) = dsts s"
  by (cases "i < length (conns s)")
    (simp_all add: dsts_def map_update list_update_same_conv list_update_beyond)

lemma sock_send_frame [simp]:
  "pending (sock_send a d s) = pending s" "peers (sock_send a d s) = peers s"
  "subs (sock_send a d s) = subs s" "conns (sock_send a d s) = conns s"
  "out_queue (sock_send a d s) = out_queue s" "handled (sock_send a d s) = handled s"
  "cookie_secret (sock_send a d s) = cookie_secret s" "sent_dgrams (sock_send a d s) = sent_dgrams s @ [(a, d)]"
  "dsts (sock_send a d s) = dsts s"
  by (simp_all add: sock_send_def dsts_def)

lemma set_chan_frame [simp]:
  "pending (set_chan i ch s) = pending s" "peers (set_chan i ch s) = peers s"
  "subs (set_chan i ch s) = subs s" "out_queue (set_chan i ch s) = out_queue s"
  "handled (set_chan i ch s) = handled s" "cookie_secret (set_chan i ch s) = cookie_secret s"
  "sent_dgrams (set_chan i ch s) = sent_dgrams s" "dsts (set_chan i ch s) = dsts s"
  by (simp_all add: set_chan_def)

lemma push_queue_frame [simp]:
  "pending (push_queue i env s) = pending s" "peers (push_queue i env s) = peers s"
  "subs (push_queue i env s) = subs s" "out_queue (push_queue i env s) = out_queue s"
  "handled (push_queue i env s) = handled s" "cookie_secret (push_queue i env s) = cookie_secret s"
  "sent_dgrams (push_queue i env s) = sent_dgrams s" "dsts (push_queue i env s) = dsts s"
  by (simp_all add: push_queue_def)

lemma dsts_other [simp]:
  "dsts (s\<lparr>pending := x1\<rparr>) = dsts s" "dsts (s\<lparr>peers := x2\<rparr>) = dsts s" "dsts (s\<lparr>subs := x3\<rparr>) = dsts s"
  "dsts (s\<lparr>out_queue := x4\<rparr>) = dsts s" "dsts (s\<lparr>handled := x5\<rparr>) = dsts s" "dsts (s\<lparr>srv_rng := x6\<rparr>) = dsts s"
  "dsts (s\<lparr>entropy := x7\<rparr>) = dsts s" "dsts (s\<lparr>cookie_secret := x8\<rparr>) = dsts s"
  "dsts (s'\<lparr>conns := conns s @ [c]\<rparr>) = dsts s @ [conn_dst c]"
  by (simp_all add: dsts_def)

lemma seal_and_send_frame [simp]:
  "pending (seal_and_send K i a env s) = pending s" "peers (seal_and_send K i a env s) = peers s"
  "subs (seal_and_send K i a env s) = subs s" "out_queue (seal_and_send K i a env s) = out_queue s"
  "handled (seal_and_send K i a env s) = handled s" "cookie_secret (seal_and_send K i a env s) = cookie_secret s"
  "dsts (seal_and_send K i a env s) = dsts s"
  by (auto simp: seal_and_send_def Let_def split: prod.splits sum.splits)

lemma handle_subscribe_frame [simp]:
  "pending (handle_subscribe K i t c s) = pending s" "peers (handle_subscribe K i t c s) = peers s"
  "out_queue (handle_subscribe K i t c s) = out_queue s" "handled (handle_subscribe K i t c s) = handled s"
  "cookie_secret (handle_subscribe K i t c s) = cookie_secret s"
  "sent_dgrams (handle_subscribe K i t c s) = sent_dgrams s" "dsts (handle_subscribe K i t c s) = dsts s"
  by (auto simp: handle_subscribe_def split: sum.splits option.splits)

lemma handle_env_frame [simp]:
  "pending (handle_env K i a env s) = pending s" "peers (handle_env K i a env s) = peers s"
  "out_queue (handle_env K i a env s) = out_queue s" "cookie_secret (handle_env K i a env s) = cookie_secret s"
  "dsts (handle_env K i a env s) = dsts s"
  by (auto simp: handle_env_def split: envelope.splits)

lemma handle_env_subs:
  "set (subs (handle_env K i a env s)) \<subseteq> set (subs s) \<union> {sub. sub_conn sub = i}"
  by (auto simp: handle_env_def handle_subscribe_def split: envelope.splits sum.splits option.splits)

lemma publish_frame [simp]:
  "pending (publish src ev lag n xs s) = pending s" "peers (publish src ev lag n xs s) = peers s"
  "subs (publish src ev lag n xs s) = subs s" "out_queue (publish src ev lag n xs s) = out_queue s"
  "handled (publish src ev lag n xs s) = handled s" "cookie_secret (publish src ev lag n xs s) = cookie_secret s"
  "sent_dgrams (publish src ev lag n xs s) = sent_dgrams s" "dsts (publish src ev lag n xs s) = dsts s"
  by (induction xs arbitrary: n s) simp_all

lemma seal_next_frame [simp]:
  "pending (seal_next K i s) = pending s" "peers (seal_next K i s) = peers s" "subs (seal_next K i s) = subs s"
  "handled (seal_next K i s) = handled s" "cookie_secret (seal_next K i s) = cookie_secret s"
  "sent_dgrams (seal_next K i s) = sent_dgrams s" "dsts (seal_next K i s) = dsts s"
  by (auto simp: seal_next_def Let_def split: list.splits prod.splits sum.splits)

lemma send_next_frame [simp]:
  "pending (send_next s) = pending s" "peers (send_next s) = peers s" "subs (send_next s) = subs s"
  "handled (send_next s) = handled s" "cookie_secret (send_next s) = cookie_secret s" "conns (send_next s) = conns s"
  "dsts (send_next s) = dsts s"
  by (auto simp: send_next_def dsts_def split: list.splits)

lemma rotate_cookie_frame [simp]:
  "pending (rotate_cookie K b s) = pending s" "peers (rotate_cookie K b s) = peers s"
  "subs (rotate_cookie K b s) = subs s" "handled (rotate_cookie K b s) = handled s"
  "conns (rotate_cookie K b s) = conns s" "dsts (rotate_cookie K b s) = dsts s"
  by (simp_all add: rotate_cookie_def)

subsection \<open>The handler keeps the invariant\<close>

lemma handle_hs1_cases:
  assumes "handle_hs1 K now load src body s = (b, s')"
  shows "peers s' = peers s \<and> subs s' = subs s \<and> conns s' = conns s \<and> handled s' = handled s \<and> dsts s' = dsts s \<and>
    (pending s' = pending s \<or>
     (\<exists>hs. pending s' = fmupd src \<lparr>responder = hs, created_at = now\<rparr> (pending s) \<and>
        fmsize (peers s) < MAX_PEERS \<and> (fmsize (pending s) < MAX_PENDING \<or> fmlookup (pending s) src \<noteq> None)))"
  using assms unfolding handle_hs1_def Let_def
  by (auto split: if_splits prod.splits sum.splits option.splits accept_result.splits)

lemma handle_hs3_cases:
  assumes "handle_hs3 K now src body s = (b, s')"
  shows "s' = s \<or>
    (fmlookup (pending s) src \<noteq> None \<and> pending s' = fmdrop src (pending s) \<and> subs s' = subs s \<and> handled s' = handled s \<and>
     (peers s' = peers s \<and> dsts s' = dsts s \<or>
      peers s' = fmupd src \<lparr>peer_conn = length (dsts s), last_seen = now\<rparr> (peers s) \<and> dsts s' = dsts s @ [src]))"
  using assms unfolding handle_hs3_def Let_def
  by (auto simp: dsts_def [of s] split: option.splits sum.splits prod.splits)

lemma handle_data_cases:
  assumes "handle_data K now src d s = (b, s')"
  shows "s' = s \<or>
    (\<exists>p. fmlookup (peers s) src = Some p \<and> peers s' = fmupd src (p\<lparr>last_seen := now\<rparr>) (peers s) \<and>
       pending s' = pending s \<and> dsts s' = dsts s \<and>
       set (subs s') \<subseteq> set (subs s) \<union> {sub. sub_conn sub = peer_conn p})"
proof (cases "fmlookup (peers s) src")
  case None
  then show ?thesis using assms by (simp add: handle_data_def)
next
  case (Some p)
  then show ?thesis
    using assms handle_env_subs unfolding handle_data_def Let_def
    by (fastforce split: prod.splits sum.splits option.splits)
qed

lemma sized_cleanup: "sized s \<Longrightarrow> sized (cleanup now s)"
  using fmsize_retain_le [of "\<lambda>ph. now - created_at ph < PENDING_TIMEOUT" "pending s"]
    fmsize_retain_le [of "\<lambda>p. now - last_seen p < PEER_IDLE_TIMEOUT" "peers s"]
  by (simp add: sized_def cleanup_def)

lemma linked_cleanup: "linked s \<Longrightarrow> linked (cleanup now s)"
  by (auto simp: linked_def cleanup_def fmlookup_retain split: option.splits if_splits)

lemma sized_hs1: "handle_hs1 K now load src body s = (b, s') \<Longrightarrow> sized s \<Longrightarrow> sized s'"
  by (drule handle_hs1_cases) (auto simp: sized_def fmsize_upd)

lemma sized_hs3: "handle_hs3 K now src body s = (b, s') \<Longrightarrow> sized s \<Longrightarrow> sized s'"
  by (drule handle_hs3_cases) (auto simp: sized_def fmsize_upd dest: fmsize_drop_Suc)

lemma sized_data: "handle_data K now src d s = (b, s') \<Longrightarrow> sized s \<Longrightarrow> sized s'"
  by (drule handle_data_cases) (auto simp: sized_def fmsize_upd)

lemma linked_hs1: "handle_hs1 K now load src body s = (b, s') \<Longrightarrow> linked s \<Longrightarrow> linked s'"
  by (drule handle_hs1_cases) (simp add: linked_def)

lemma linked_hs3: "handle_hs3 K now src body s = (b, s') \<Longrightarrow> linked s \<Longrightarrow> linked s'"
  by (drule handle_hs3_cases) (auto simp: linked_def nth_append less_Suc_eq split: if_splits)

lemma linked_data: "handle_data K now src d s = (b, s') \<Longrightarrow> linked s \<Longrightarrow> linked s'"
  by (drule handle_data_cases) (auto simp: linked_def split: if_splits)

lemma handle_dgram_unshape:
  "handle_dgram K now load src d s =
     (case unshape_hs d (profile (ctx K)) of
        None \<Rightarrow> s
      | Some (ty, body) \<Rightarrow>
          (case (case ty of
                   Hs1 \<Rightarrow> handle_hs1 K now load src body s
                 | Hs3 \<Rightarrow> handle_hs3 K now src body s
                 | Data \<Rightarrow> handle_data K now src d s
                 | _ \<Rightarrow> (True, s)) of
             (b, s') \<Rightarrow> if b then cleanup now s' else s'))"
  by (auto simp: handle_dgram_def unshape_hs_def split: option.splits prod.splits bool.splits)

lemma handle_dgram_cases:
  obtains (ignored) "handle_dgram K now load src d s = s"
  | (hs1) body b s' where "unshape_hs d (profile (ctx K)) = Some (Hs1, body)"
      "handle_hs1 K now load src body s = (b, s')" "handle_dgram K now load src d s = (if b then cleanup now s' else s')"
  | (hs3) body b s' where "unshape_hs d (profile (ctx K)) = Some (Hs3, body)"
      "handle_hs3 K now src body s = (b, s')" "handle_dgram K now load src d s = (if b then cleanup now s' else s')"
  | (data) body b s' where "unshape_hs d (profile (ctx K)) = Some (Data, body)"
      "handle_data K now src d s = (b, s')" "handle_dgram K now load src d s = (if b then cleanup now s' else s')"
  | (other) ty body where "unshape_hs d (profile (ctx K)) = Some (ty, body)" "ty = Hs2 \<or> ty = Cookie"
      "handle_dgram K now load src d s = cleanup now s"
proof (cases "unshape_hs d (profile (ctx K))")
  case None
  then show ?thesis by (intro ignored) (simp add: handle_dgram_unshape)
next
  case (Some tb)
  obtain ty body where tb: "tb = (ty, body)" by fastforce
  note u = Some [unfolded tb]
  show ?thesis
  proof (cases ty)
    case Hs1
    with u show ?thesis
      by (cases "handle_hs1 K now load src body s") (auto intro: hs1 simp: handle_dgram_unshape)
  next
    case Hs3
    with u show ?thesis
      by (cases "handle_hs3 K now src body s") (auto intro: hs3 simp: handle_dgram_unshape)
  next
    case Data
    with u show ?thesis
      by (cases "handle_data K now src d s") (auto intro: data simp: handle_dgram_unshape)
  qed (use u other in \<open>auto simp: handle_dgram_unshape\<close>)
qed

lemma sized_dgram: "sized s \<Longrightarrow> sized (handle_dgram K now load src d s)"
  by (cases rule: handle_dgram_cases [of K now load src d s])
    (auto intro: sized_cleanup dest: sized_hs1 sized_hs3 sized_data)

lemma linked_dgram: "linked s \<Longrightarrow> linked (handle_dgram K now load src d s)"
  by (cases rule: handle_dgram_cases [of K now load src d s])
    (auto intro: linked_cleanup dest: linked_hs1 linked_hs3 linked_data)

lemma server_inv_step: "server_inv s \<Longrightarrow> server_inv (udp_step K s e)"
proof (cases e)
  case (Recv now load src d)
  then show "server_inv s \<Longrightarrow> ?thesis" by (simp add: udp_step_def server_inv_def sized_dgram linked_dgram)
qed (simp_all add: udp_step_def server_inv_def sized_def linked_def)

interpretation udp: step_invariant "udp_step K" "\<lambda>_. True" server_inv
  by unfold_locales (rule server_inv_step)

lemma server_inv_start: "server_inv (serve_obfs_udp K seed g)"
  by (simp add: server_inv_def sized_def linked_def serve_obfs_udp_def MAX_PEERS_def MAX_PENDING_def)

subsection \<open>Floods\<close>

lemma handle_hs1_unverified:
  assumes "handle_hs1 K now load src body s = (b, s')" and "fmsize (pending s) = PENDING_SOFT_LIMIT"
    and "\<And>msg1 ck. decode_msg1_framed body = Some (msg1, Some ck) \<Longrightarrow>
      \<not> ck_verify (cookies K) (cookie_secret s) (src_bytes src) ck"
  shows "pending s' = pending s"
proof (cases "MAX_PEERS \<le> fmsize (peers s)")
  case False
  let ?p = "process_hs1 (noise (ctx K)) (cookies K) (entropy s) body src (server_priv K) (cookie_secret s)
      always_under_load (profile (ctx K)) (srv_rng s)"
  have "fst ?p \<noteq> Inr (Some (PartialHandshake hs w a))" for hs w a
    using process_hs1_partial_cookie [of _ _ _ body src _ _ always_under_load _ _ hs w a] assms(3)
    by (cases ?p) (fastforce simp: always_under_load_def)
  then show ?thesis
    using assms(1,2) False unfolding handle_hs1_def Let_def
    by (auto split: prod.splits sum.splits option.splits accept_result.splits if_splits)
qed (use assms(1) in \<open>simp add: handle_hs1_def\<close>)

lemma pending_cleanup_le: "fmsize (pending (cleanup now s)) \<le> fmsize (pending s)"
  by (simp add: cleanup_def fmsize_retain_le)

lemma pending_dgram_unverified:
  assumes "fmsize (pending s) \<le> PENDING_SOFT_LIMIT"
    and "\<not> cookie_verified K s (Recv now load src d)"
  shows "fmsize (pending (handle_dgram K now load src (take SRV_MAX_DGRAM d) s)) \<le> PENDING_SOFT_LIMIT"
proof (cases rule: handle_dgram_cases [of K now load src "take SRV_MAX_DGRAM d" s])
  case (hs1 body b s')
  have nv: "\<And>msg1 ck. decode_msg1_framed body = Some (msg1, Some ck) \<Longrightarrow>
      \<not> ck_verify (cookies K) (cookie_secret s) (src_bytes src) ck"
    using assms(2) hs1(1) by (auto simp: cookie_verified_def)
  have "fmsize (pending s') \<le> PENDING_SOFT_LIMIT"
  proof (cases "fmsize (pending s) = PENDING_SOFT_LIMIT")
    case True
    then show ?thesis using handle_hs1_unverified [OF hs1(2) True nv] by simp
  next
    case False
    then show ?thesis using handle_hs1_cases [OF hs1(2)] assms(1) by (auto simp: fmsize_upd)
  qed
  then show ?thesis using hs1(3) pending_cleanup_le [of now s'] by (cases b) auto
next
  case (hs3 body b s')
  have "fmsize (pending s') \<le> fmsize (pending s)"
    using handle_hs3_cases [OF hs3(2)] by (auto simp: fmsize_drop)
  then show ?thesis using hs3(3) assms(1) pending_cleanup_le [of now s'] by (cases b) auto
next
  case (data body b s')
  then show ?thesis using handle_data_cases [OF data(2)] assms(1) pending_cleanup_le [of now s'] by (cases b) auto
next
  case other
  then show ?thesis using assms(1) pending_cleanup_le [of now s] by simp
qed (simp add: assms(1))

lemma pending_step_unverified:
  assumes "fmsize (pending s) \<le> PENDING_SOFT_LIMIT" and "\<not> cookie_verified K s e"
  shows "fmsize (pending (udp_step K s e)) \<le> PENDING_SOFT_LIMIT"
  using assms pending_dgram_unverified [OF assms(1)] by (cases e) (simp_all add: udp_step_def)

lemma unverified_run_pending:
  "unverified_run K s s' \<Longrightarrow> fmsize (pending s) \<le> PENDING_SOFT_LIMIT \<Longrightarrow> fmsize (pending s') \<le> PENDING_SOFT_LIMIT"
  by (induction rule: unverified_run.induct) (auto intro: pending_step_unverified)

end
