(* ===== verification/Udp_Server_Safety.thy ===== *)
theory Udp_Server_Safety
  imports Udp_Server
begin

text \<open>
  What the UDP server guarantees in every run: bounded state, resistance to floods, admission only
  through the gate, service only for admitted peers, at most one reply per datagram, events only
  to subscribers; and one thing it does not, eviction at the peer limit.
\<close>

subsection \<open>A concrete server\<close>

definition demo_service :: "unit service" where
  "demo_service =
     \<lparr>svc_handle = (\<lambda>_ r. \<lparr>resp_id = req_id r, resp_body = ()\<rparr>),
      svc_verify_topic = (\<lambda>cap topic. if topic = ''logs'' then Inr () else Inl (OtherCore ''no'')),
      svc_event_source = (\<lambda>topic. if topic = ''logs'' then Some 0 else None),
      diag_error = (\<lambda>_ _. ())\<rparr>"

definition demo_cfg ::
  "(unit, nat, bytes \<times> nat \<times> bytes option, bytes \<times> nat, bytes \<times> nat list, bytes \<times> bytes) udp_server_cfg" where
  "demo_cfg =
     \<lparr>ctx = demo_ctx, cookies = demo_cookies, service = demo_service, auth_gate = (\<lambda>k. if k = demo_key then Inr () else Inl ''no''),
      server_priv = replicate 32 1, task_rng = id\<rparr>"

definition demo_hs1 :: "unit udp_event" where
  "demo_hs1 = Recv 0 False demo_client [1, 0, 1, 0]"

definition demo_hs3 :: "unit udp_event" where
  "demo_hs3 = Recv 10 False demo_client (3 # 2 # demo_key @ replicate 32 0)"

definition demo_start ::
  "(unit, nat, bytes \<times> nat \<times> bytes option, bytes \<times> nat, bytes \<times> nat list, bytes \<times> bytes) udp_server" where
  "demo_start = serve_obfs_udp demo_cfg [1] 0"

lemma take_srv_dgram: "length d \<le> 65507 \<Longrightarrow> take SRV_MAX_DGRAM d = d"
  by (simp add: SRV_MAX_DGRAM_def)

lemma demo_step_hs1:
  "udp_step demo_cfg demo_start demo_hs1 =
     demo_start\<lparr>pending := fmupd demo_client \<lparr>responder = (replicate 32 1, 2, None), created_at = 0\<rparr> fmempty,
       sent_dgrams := [(demo_client, [2, 1])], entropy := 1\<rparr>"
  by (simp add: udp_step_def demo_hs1_def demo_start_def serve_obfs_udp_def take_srv_dgram handle_dgram_def demo_cfg_def
      demo_ctx_def passthrough_def handle_hs1_def process_hs1_def decode_msg1_framed_def u16_from_be_bytes_def
      demo_noise_def demo_read_def demo_write_def shape_hs_def encode_inner_def sock_send_def always_open_def
      MAX_PEERS_def PENDING_SOFT_LIMIT_def MAX_PENDING_def PENDING_TIMEOUT_def cleanup_def numeral_2_eq_2)

lemma demo_step_hs3:
  "udp_step demo_cfg (udp_step demo_cfg demo_start demo_hs1) demo_hs3 =
     demo_start\<lparr>peers := fmupd demo_client \<lparr>peer_conn = 0, last_seen = 10\<rparr> fmempty,
       conns := [\<lparr>conn_chan = data_channel_new (replicate 32 99, 1) (replicate 32 115, []) passthrough,
                  conn_dst = demo_client, conn_queue = [], conn_rng = 1\<rparr>],
       sent_dgrams := [(demo_client, [2, 1]), (demo_client, 5 # replicate 32 99 @ [0, 1])], entropy := 2\<rparr>"
proof -
  have k: "derive_record_keys demo_mac (replicate 32 0) = (replicate 32 115, replicate 32 99)"
    by (simp add: derive_record_keys_def derive_key_def demo_mac_def)
  have l: "length demo_key = 32" by (simp add: demo_key_def)
  show ?thesis
    by (simp add: demo_step_hs1)
      (simp add: udp_step_def demo_hs3_def demo_start_def serve_obfs_udp_def take_srv_dgram handle_dgram_def demo_cfg_def
      demo_ctx_def passthrough_def handle_hs3_def complete_handshake_msg3_def l k demo_noise_def demo_read_def
      data_channel_new_def clear_records_def clear_seal_def seal_and_send_def seal_envelope_def plain_serde_def
      encode_inner_def sock_send_def set_chan_def PENDING_TIMEOUT_def PEER_IDLE_TIMEOUT_def cleanup_def numeral_2_eq_2)
qed

lemma demo_complete:
  "complete_handshake_msg3 demo_ctx (replicate 32 1, 2, None) (2 # demo_key @ replicate 32 0) =
     Inr (data_channel_new (replicate 32 99, 0) (replicate 32 115, []) passthrough, demo_key)"
proof -
  have k: "derive_record_keys demo_mac (replicate 32 0) = (replicate 32 115, replicate 32 99)"
    by (simp add: derive_record_keys_def derive_key_def demo_mac_def)
  have l: "length demo_key = 32" by (simp add: demo_key_def)
  show ?thesis
    by (simp add: complete_handshake_msg3_def demo_ctx_def demo_noise_def demo_read_def l k clear_records_def)
qed

subsection \<open>Admission\<close>

lemma fmlookup_cleanup:
  "fmlookup (peers (cleanup now s)) src = Some p \<Longrightarrow> fmlookup (peers s) src = Some p"
  by (auto simp: cleanup_def fmlookup_retain split: option.splits if_splits)

lemma handle_hs3_admits:
  assumes "handle_hs3 K now src body s = (b, s')" and "fmlookup (peers s') a = Some p"
    and "fmlookup (peers s) a \<noteq> Some p"
  shows "a = src \<and> peer_conn p = length (conns s) \<and>
    (\<exists>ph ch static. fmlookup (pending s) src = Some ph \<and>
       complete_handshake_msg3 (ctx K) (responder ph) body = Inr (ch, static) \<and> auth_gate K static = Inr ())"
  using assms unfolding handle_hs3_def Let_def
  by (auto split: option.splits sum.splits prod.splits if_splits)

lemma handle_data_keeps_conn:
  assumes "handle_data K now src d s = (b, s')" and "fmlookup (peers s') a = Some p"
  shows "\<exists>q. fmlookup (peers s) a = Some q \<and> peer_conn q = peer_conn p"
  using handle_data_cases [OF assms(1)] assms(2) by (auto split: if_splits)

definition admitted ::
  "('x, 'g, 'h, 'sl, 'op, 'c) udp_server_cfg \<Rightarrow> ('x, 'g, 'h, 'sl, 'op, 'c) udp_server \<Rightarrow>
   'x udp_event \<Rightarrow> socket_addr \<Rightarrow> bool" where
  "admitted K s e src \<longleftrightarrow>
     (\<exists>now load d body ph ch static.
        e = Recv now load src d \<and>
        unshape_hs (take SRV_MAX_DGRAM d) (profile (ctx K)) = Some (Hs3, body) \<and>
        fmlookup (pending s) src = Some ph \<and>
        complete_handshake_msg3 (ctx K) (responder ph) body = Inr (ch, static) \<and>
        auth_gate K static = Inr ())"

lemma dgram_admits:
  assumes "fmlookup (peers (handle_dgram K now load src (take SRV_MAX_DGRAM d) s)) a = Some p"
    and "\<And>q. fmlookup (peers s) a = Some q \<Longrightarrow> peer_conn q \<noteq> peer_conn p"
  shows "admitted K s (Recv now load src d) a \<and> peer_conn p = length (conns s)"
proof -
  have n: "fmlookup (peers s) a \<noteq> Some p" using assms(2) by blast
  show ?thesis
  proof (cases rule: handle_dgram_cases [of K now load src "take SRV_MAX_DGRAM d" s])
    case ignored
    then show ?thesis using n assms(1) by simp
  next
    case (hs1 body b s')
    then show ?thesis using n assms(1) handle_hs1_cases [OF hs1(2)] by (cases b) (auto dest: fmlookup_cleanup)
  next
    case (hs3 body b s')
    have "fmlookup (peers s') a = Some p" using assms(1) hs3(3) by (cases b) (auto dest: fmlookup_cleanup)
    from handle_hs3_admits [OF hs3(2) this n] show ?thesis using hs3(1) unfolding admitted_def by blast
  next
    case (data body b s')
    have "fmlookup (peers s') a = Some p" using assms(1) data(3) by (cases b) (auto dest: fmlookup_cleanup)
    from handle_data_keeps_conn [OF data(2) this] show ?thesis using assms(2) by blast
  next
    case other
    then show ?thesis using n assms(1) by (auto dest: fmlookup_cleanup)
  qed
qed

subsection \<open>Service\<close>

lemma handle_env_handled:
  "handled (handle_env K i a env s) = handled s @ (case env of Request r \<Rightarrow> [r] | _ \<Rightarrow> [])"
  by (auto simp: handle_env_def split: envelope.splits)

lemma cleanup_frame [simp]:
  "handled (cleanup now s) = handled s" "sent_dgrams (cleanup now s) = sent_dgrams s"
  "out_queue (cleanup now s) = out_queue s" "conns (cleanup now s) = conns s" "subs (cleanup now s) = subs s"
  by (simp_all add: cleanup_def)

lemma handle_data_handled:
  "handle_data K now src d s = (b, s') \<Longrightarrow>
     handled s' = handled s @
       (case fmlookup (peers s) src of
          None \<Rightarrow> []
        | Some p \<Rightarrow>
            (case fst (open_datagram (records (ctx K)) (json (ctx K)) (conn_chan (conns s ! peer_conn p)) d) of
               Inr (Some (Request r)) \<Rightarrow> [r]
             | _ \<Rightarrow> []))"
  unfolding handle_data_def Let_def
  by (auto simp: handle_env_handled split: option.splits prod.splits sum.splits envelope.splits)

lemma handle_hs3_handled: "handle_hs3 K now src body s = (b, s') \<Longrightarrow> handled s' = handled s"
  by (drule handle_hs3_cases) auto

lemma dgram_handled:
  "handled (handle_dgram K now load src d s) = handled s @
     (case (unshape_hs d (profile (ctx K)), fmlookup (peers s) src) of
        (Some (Data, _), Some p) \<Rightarrow>
          (case fst (open_datagram (records (ctx K)) (json (ctx K)) (conn_chan (conns s ! peer_conn p)) d) of
             Inr (Some (Request r)) \<Rightarrow> [r]
           | _ \<Rightarrow> [])
      | _ \<Rightarrow> [])"
proof (cases "unshape_hs d (profile (ctx K))")
  case (Some tb)
  obtain ty body where tb: "tb = (ty, body)" by fastforce
  obtain b1 s1 b3 s3 b5 s5 where h: "handle_hs1 K now load src body s = (b1, s1)"
    "handle_hs3 K now src body s = (b3, s3)" "handle_data K now src d s = (b5, s5)" by fastforce
  show ?thesis
    using Some tb handle_hs1_cases [OF h(1)] handle_hs3_handled [OF h(2)] handle_data_handled [OF h(3)]
    by (cases ty) (simp_all add: handle_dgram_unshape h split: option.splits)
qed (simp add: handle_dgram_unshape)

subsection \<open>The queues of the connections\<close>

lemma queues_same [simp]:
  "conn_queue c = conn_queue (conns s ! i) \<Longrightarrow> queues (s'\<lparr>conns := (conns s)[i := c]\<rparr>) = queues s"
  by (cases "i < length (conns s)")
    (simp_all add: queues_def map_update list_update_same_conv list_update_beyond)

lemma queues_frame [simp]:
  "queues (s\<lparr>pending := x1\<rparr>) = queues s" "queues (s\<lparr>peers := x2\<rparr>) = queues s" "queues (s\<lparr>subs := x3\<rparr>) = queues s"
  "queues (s\<lparr>out_queue := x4\<rparr>) = queues s" "queues (s\<lparr>handled := x5\<rparr>) = queues s" "queues (s\<lparr>srv_rng := x6\<rparr>) = queues s"
  "queues (s\<lparr>entropy := x7\<rparr>) = queues s" "queues (s\<lparr>cookie_secret := x8\<rparr>) = queues s"
  "queues (s'\<lparr>conns := conns s @ [c]\<rparr>) = queues s @ [conn_queue c]"
  "queues (sock_send a d s) = queues s" "queues (cleanup now s) = queues s"
  by (simp_all add: queues_def sock_send_def cleanup_def)

lemma queues_set_chan [simp]: "queues (set_chan i ch s) = queues s"
  by (simp add: set_chan_def)

lemma queues_seal_and_send [simp]: "queues (seal_and_send K i a env s) = queues s"
  by (auto simp: seal_and_send_def Let_def split: prod.splits sum.splits)

lemma queues_push: "queues (push_queue i env s) = (queues s)[i := queues s ! i @ [env]]"
  by (cases "i < length (conns s)") (simp_all add: push_queue_def queues_def map_update list_update_beyond)

subsection \<open>Replies\<close>

text \<open>
  A reply is either sent at once or queued for the sealer task of a connection. \<open>sends_to\<close>: at most one
  datagram more, to \<open>src\<close>, and nothing queued, where a new connection begins with an empty queue.
  \<open>queues_one\<close>: nothing sent, and one more refused subscription in the queue of connection \<open>i\<close>.
\<close>

definition sends_to ::
  "socket_addr \<Rightarrow> ('x, 'g, 'h, 'sl, 'op, 'c) udp_server \<Rightarrow> ('x, 'g, 'h, 'sl, 'op, 'c) udp_server \<Rightarrow> bool" where
  "sends_to src s s' \<longleftrightarrow>
     out_queue s' = out_queue s \<and> (queues s' = queues s \<or> queues s' = queues s @ [[]]) \<and>
     (\<exists>ds. length ds \<le> 1 \<and> sent_dgrams s' = sent_dgrams s @ map (Pair src) ds)"

definition queues_one ::
  "nat \<Rightarrow> ('x, 'g, 'h, 'sl, 'op, 'c) udp_server \<Rightarrow> ('x, 'g, 'h, 'sl, 'op, 'c) udp_server \<Rightarrow> bool" where
  "queues_one i s s' \<longleftrightarrow>
     out_queue s' = out_queue s \<and> sent_dgrams s' = sent_dgrams s \<and> (\<exists>t x. queues s' = (queues s)[i := queues s ! i @ [SubscribeError t x]])"

lemma sends_nothing:
  "out_queue s' = out_queue s \<Longrightarrow> sent_dgrams s' = sent_dgrams s \<Longrightarrow> queues s' = queues s \<Longrightarrow> sends_to src s s'"
  by (simp add: sends_to_def)

lemma sends_one:
  "out_queue s' = out_queue s \<Longrightarrow> sent_dgrams s' = sent_dgrams s @ [(src, d)] \<Longrightarrow> queues s' = queues s \<Longrightarrow> sends_to src s s'"
  by (simp add: sends_to_def) (rule exI [of _ "[d]"], simp)

lemma sends_seal_and_send:
  assumes "out_queue s1 = out_queue s" and "sent_dgrams s1 = sent_dgrams s" and "queues s1 = queues s \<or> queues s1 = queues s @ [[]]"
  shows "sends_to src s (seal_and_send K i src env s1)"
proof -
  have "out_queue (seal_and_send K i src env s1) = out_queue s1 \<and>
      (\<exists>ds. length ds \<le> 1 \<and> sent_dgrams (seal_and_send K i src env s1) = sent_dgrams s1 @ map (Pair src) ds)"
    by (auto simp: seal_and_send_def Let_def split: prod.splits sum.splits intro: exI [of _ "[]"] exI [of _ "[_]"])
  then show ?thesis using assms by (simp add: sends_to_def)
qed

lemma sends_peers [simp]: "sends_to src s (s'\<lparr>peers := p\<rparr>) = sends_to src s s'"
  by (simp add: sends_to_def)

lemma sends_hs1: "handle_hs1 K now load src body s = (b, s') \<Longrightarrow> sends_to src s s'"
  unfolding handle_hs1_def Let_def
  by (auto intro: sends_nothing sends_one split: if_splits prod.splits sum.splits option.splits accept_result.splits)

lemma sends_hs3: "handle_hs3 K now src body s = (b, s') \<Longrightarrow> sends_to src s s'"
  unfolding handle_hs3_def Let_def
  by (auto intro: sends_nothing intro!: sends_seal_and_send split: option.splits sum.splits prod.splits)

lemma replies_env:
  "out_queue s1 = out_queue s \<Longrightarrow> sent_dgrams s1 = sent_dgrams s \<Longrightarrow> queues s1 = queues s \<Longrightarrow>
   \<not> queues_one i s (handle_env K i src env s1) \<Longrightarrow> sends_to src s (handle_env K i src env s1)"
  unfolding handle_env_def handle_subscribe_def
  by (auto simp: queues_one_def queues_push intro: sends_nothing intro!: sends_seal_and_send
      split: envelope.splits sum.splits option.splits)

lemma replies_data:
  "handle_data K now src d s = (b, s') \<Longrightarrow>
   sends_to src s s' \<or> (\<exists>p. fmlookup (peers s) src = Some p \<and> queues_one (peer_conn p) s s')"
  unfolding handle_data_def Let_def
  by (auto intro: sends_nothing intro!: replies_env split: option.splits sum.splits prod.splits)

lemma replies_cleanup [simp]:
  "sends_to src s (cleanup now s') = sends_to src s s'" "queues_one i s (cleanup now s') = queues_one i s s'"
  by (simp_all add: sends_to_def queues_one_def)

lemma replies_dgram:
  "sends_to src s (handle_dgram K now load src d s) \<or>
   (\<exists>p. fmlookup (peers s) src = Some p \<and> queues_one (peer_conn p) s (handle_dgram K now load src d s))"
proof (cases rule: handle_dgram_cases [of K now load src d s])
  case (hs1 body b s')
  then show ?thesis using sends_hs1 [OF hs1(2)] by simp
next
  case (hs3 body b s')
  then show ?thesis using sends_hs3 [OF hs3(2)] by simp
next
  case (data body b s')
  then show ?thesis using replies_data [OF data(2)] by simp
qed (simp_all add: sends_nothing)

subsection \<open>Events\<close>

lemma events_subscribed_push:
  assumes "events_subscribed s"
    and "\<And>ev. env = Event ev \<Longrightarrow> \<exists>sub \<in> set (subs s). sub_conn sub = i \<and> sub_topic sub = ev_topic ev"
  shows "events_subscribed (push_queue i env s)"
  unfolding events_subscribed_def
proof (intro allI impI)
  fix j ev assume "j < length (queues (push_queue i env s))" and "Event ev \<in> set (queues (push_queue i env s) ! j)"
  then show "\<exists>sub \<in> set (subs (push_queue i env s)). sub_conn sub = j \<and> sub_topic sub = ev_topic ev"
    using assms by (cases "i = j") (auto simp: queues_push events_subscribed_def)
qed

lemma events_subscribed_mono:
  "events_subscribed s \<Longrightarrow> queues s' = queues s \<Longrightarrow> set (subs s) \<subseteq> set (subs s') \<Longrightarrow> events_subscribed s'"
  unfolding events_subscribed_def by (metis subsetD)

lemma events_cong:
  "queues s' = queues s \<Longrightarrow> subs s' = subs s \<Longrightarrow> events_authorised K s' = events_authorised K s"
  by (simp add: events_authorised_def subs_authorised_def events_subscribed_def)

lemma events_env: "events_authorised K s \<Longrightarrow> events_authorised K (handle_env K i a env s)"
  unfolding events_authorised_def handle_env_def handle_subscribe_def
  by (auto simp: subs_authorised_def intro: events_subscribed_push events_subscribed_mono
      split: envelope.splits sum.splits option.splits)

lemma events_data: "handle_data K now src d s = (b, s') \<Longrightarrow> events_authorised K s \<Longrightarrow> events_authorised K s'"
  unfolding handle_data_def Let_def
  by (auto simp: events_cong [where s = s and s' = "set_chan _ _ _"]
      intro!: events_env split: option.splits sum.splits prod.splits)

lemma events_hs1: "handle_hs1 K now load src body s = (b, s') \<Longrightarrow> events_authorised K s \<Longrightarrow> events_authorised K s'"
  by (drule handle_hs1_cases) (simp add: queues_def events_cong [of s' s])

lemma events_hs3: "handle_hs3 K now src body s = (b, s') \<Longrightarrow> events_authorised K s \<Longrightarrow> events_authorised K s'"
  unfolding handle_hs3_def Let_def
  by (auto simp: events_authorised_def subs_authorised_def events_subscribed_def nth_append less_Suc_eq
      split: option.splits sum.splits prod.splits)

lemma events_cleanup: "events_authorised K s \<Longrightarrow> events_authorised K (cleanup now s)"
  by (simp add: events_cong [of "cleanup now s" s])

lemma events_dgram: "events_authorised K s \<Longrightarrow> events_authorised K (handle_dgram K now load src d s)"
  by (cases rule: handle_dgram_cases [of K now load src d s])
    (auto intro: events_cleanup dest: events_hs1 events_hs3 events_data)

lemma events_publish:
  "events_authorised K s \<Longrightarrow> set xs \<subseteq> set (subs s) \<Longrightarrow> events_authorised K (publish src ev lag n xs s)"
proof (induction xs arbitrary: n s)
  case (Cons sub xs)
  then have "events_authorised K (push_queue (sub_conn sub) (Event ev) s)" if "ev_topic ev = sub_topic sub"
    using that by (auto simp: events_authorised_def subs_authorised_def intro!: events_subscribed_push)
  then show ?case using Cons by auto
qed simp

lemma events_seal: "events_authorised K s \<Longrightarrow> events_authorised K (seal_next K i s)"
  unfolding seal_next_def Let_def
  by (auto simp: events_authorised_def subs_authorised_def events_subscribed_def queues_def map_update nth_list_update
      split: list.splits prod.splits sum.splits if_splits)

lemma events_step: "events_authorised K s \<Longrightarrow> events_authorised K (udp_step K s e)"
  using events_dgram events_seal events_publish [OF _ subset_refl]
  by (cases e) (simp_all add: udp_step_def queues_def events_cong [of "send_next s" s]
      events_cong [of "rotate_cookie K _ s" s])

interpretation udp_events: step_invariant "udp_step K" "\<lambda>_. True" "events_authorised K"
  by unfold_locales (rule events_step)

lemma events_start: "events_authorised K (serve_obfs_udp K seed g)"
  by (simp add: events_authorised_def subs_authorised_def events_subscribed_def queues_def serve_obfs_udp_def)

subsection \<open>A full server\<close>

definition crowd :: "(socket_addr \<times> peer_state) list" where
  "crowd = map (\<lambda>n. (V4 192 168 0 1 (of_nat n), \<lparr>peer_conn = 0, last_seen = 0\<rparr>)) [0..<1024]"

definition demo_full ::
  "(unit, nat, bytes \<times> nat \<times> bytes option, bytes \<times> nat, bytes \<times> nat list, bytes \<times> bytes) udp_server" where
  "demo_full = (udp_step demo_cfg demo_start demo_hs1)\<lparr>peers := fmap_of_list crowd\<rparr>"

lemma fmsize_crowd: "fmsize (fmap_of_list crowd) = MAX_PEERS"
proof -
  have "inj_on (\<lambda>n. V4 192 168 0 1 (of_nat n :: u16)) {0..<1024}"
  proof (rule inj_onI)
    fix m n assume m: "m \<in> {0..<1024::nat}" and n: "n \<in> {0..<1024::nat}"
      and "V4 192 168 0 1 (of_nat m :: u16) = V4 192 168 0 1 (of_nat n)"
    then have "unat (of_nat m :: u16) = unat (of_nat n :: u16)" by simp
    then show "m = n" using m n by (simp add: unat_of_nat)
  qed
  then have "distinct (map fst crowd)"
    by (simp add: crowd_def distinct_map o_def)
  from fmsize_of_list [OF this] show ?thesis by (simp add: crowd_def MAX_PEERS_def)
qed

lemma crowd_lookup: "fmlookup (fmap_of_list crowd) a = Some p \<Longrightarrow> last_seen p = 0 \<and> a \<noteq> demo_client"
  using map_of_SomeD [of crowd a p] by (auto simp: fmlookup_of_list crowd_def demo_client_def)

lemma hs1_at_limit:
  assumes "MAX_PEERS \<le> fmsize (peers s)" and "unshape_hs d (profile (ctx K)) = Some (Hs1, body)"
  shows "handle_dgram K now load src d s = s"
  using assms by (simp add: handle_dgram_unshape handle_hs1_def)

lemma hs3_at_limit:
  assumes "unshape_hs d (profile (ctx K)) = Some (Hs3, body)" and "fmlookup (pending s) src = Some ph"
    and "complete_handshake_msg3 (ctx K) (responder ph) body = Inr (ch, static)" and "auth_gate K static = Inr ()"
    and "fmlookup (peers s) src = None"
    and "\<And>a p. fmlookup (peers s) a = Some p \<Longrightarrow> now - last_seen p < PEER_IDLE_TIMEOUT"
  shows "fmsize (peers (handle_dgram K now load src d s)) = Suc (fmsize (peers s))"
proof -
  let ?m = "fmupd src \<lparr>peer_conn = length (conns s), last_seen = now\<rparr> (peers s)"
  have "retain (\<lambda>p. now - last_seen p < PEER_IDLE_TIMEOUT) ?m = ?m"
    by (rule retain_all) (use assms(6) in \<open>auto simp: PEER_IDLE_TIMEOUT_def split: if_splits\<close>)
  then show ?thesis
    using assms(1-5) by (simp add: handle_dgram_unshape handle_hs3_def Let_def cleanup_def fmsize_upd)
qed

subsection \<open>Properties\<close>

text \<open>
  C12. In every interleaving of datagrams, sealer steps, sends, rotations and published events, the
  server holds at most 2048 half-open handshakes and fewer than 3072 half-open handshakes and peers
  together, and every peer's connection exists and sends to that peer's own address.
\<close>

theorem udp_server_invariant:
  "server_inv (foldl (udp_step K) (serve_obfs_udp K seed g) es)"
  by (rule udp.run_inv [OF server_inv_start]) (simp add: list_all_iff)

text \<open>
  C13. Flood resistance. As long as no datagram carries a cookie that verifies for its source, which
  is all a sender with spoofed addresses can do, the server never holds more than 256 half-open
  handshakes, whatever the load gate says and however many datagrams arrive.
\<close>

theorem flood_bounded:
  assumes "unverified_run K (serve_obfs_udp K seed g) s"
  shows "fmsize (pending s) \<le> PENDING_SOFT_LIMIT"
  using unverified_run_pending [OF assms] by (simp add: serve_obfs_udp_def)

theorem flood_bounded_witness:
  "fmlookup (pending (udp_step demo_cfg demo_start demo_hs1)) demo_client \<noteq> None \<and>
   fmsize (pending (udp_step demo_cfg demo_start demo_hs1)) \<le> PENDING_SOFT_LIMIT"
proof -
  have "\<not> cookie_verified demo_cfg demo_start demo_hs1"
    by (simp add: cookie_verified_def demo_hs1_def take_srv_dgram unshape_hs_def demo_cfg_def demo_ctx_def
        passthrough_def decode_msg1_framed_def u16_from_be_bytes_def)
  then have "unverified_run demo_cfg (serve_obfs_udp demo_cfg [1] 0) (udp_step demo_cfg demo_start demo_hs1)"
    using unverified_run.step [OF unverified_run.start] by (simp add: demo_start_def)
  from flood_bounded [OF this] show ?thesis by (simp add: demo_step_hs1)
qed

text \<open>
  C14. Admission. An address gets a new connection only by a third handshake message from that very
  address that completes a half-open handshake the server holds for it, with a static key the gate
  accepts; the connection is a fresh one.
\<close>

theorem peer_admission:
  assumes "fmlookup (peers (udp_step K s e)) a = Some p"
    and "\<forall>q. fmlookup (peers s) a = Some q \<longrightarrow> peer_conn q \<noteq> peer_conn p"
  shows "admitted K s e a \<and> peer_conn p = length (conns s)"
proof (cases e)
  case (Recv now load src d)
  have "fmlookup (peers (handle_dgram K now load src (take SRV_MAX_DGRAM d) s)) a = Some p"
    using assms(1) by (simp add: Recv udp_step_def)
  then show ?thesis unfolding Recv by (rule dgram_admits) (use assms(2) in blast)
qed (use assms in \<open>simp_all add: udp_step_def\<close>)

theorem peer_admission_witness:
  "admitted demo_cfg (udp_step demo_cfg demo_start demo_hs1) demo_hs3 demo_client"
proof -
  let ?s = "udp_step demo_cfg demo_start demo_hs1"
  have p: "peers ?s = fmempty" by (simp add: demo_step_hs1) (simp add: demo_start_def serve_obfs_udp_def)
  have l: "fmlookup (peers (udp_step demo_cfg ?s demo_hs3)) demo_client = Some \<lparr>peer_conn = 0, last_seen = 10\<rparr>"
    by (simp add: demo_step_hs3)
  show ?thesis using peer_admission [OF l] p by simp
qed

text \<open>
  C15. The service sees exactly the requests of admitted peers: one step hands it a request only for a
  datagram from the address of a peer whose channel opens it to that request, and then exactly that
  one; every other step leaves the service alone.
\<close>

theorem service_only_for_peers:
  "handled (udp_step K s e) = handled s @
     (case e of
        Recv now load src d \<Rightarrow>
          (case (unshape_hs (take SRV_MAX_DGRAM d) (profile (ctx K)), fmlookup (peers s) src) of
             (Some (Data, _), Some p) \<Rightarrow>
               (case fst (open_datagram (records (ctx K)) (json (ctx K)) (conn_chan (conns s ! peer_conn p))
                       (take SRV_MAX_DGRAM d)) of
                  Inr (Some (Request r)) \<Rightarrow> [r]
                | _ \<Rightarrow> [])
           | _ \<Rightarrow> [])
      | _ \<Rightarrow> [])"
proof (cases e)
  case (Recv now load src d)
  then show ?thesis by (simp add: udp_step_def dgram_handled)
qed (simp_all add: udp_step_def)

text \<open>
  C17. No amplification: in every run, a datagram causes at most one reply, to the address it came from.
  Either at most one datagram is sent at once, to that address, and nothing is queued; or nothing is
  sent and one envelope, the refusal of a subscription, is queued on a connection whose sealer sends
  to that address. The queue of sealed datagrams stays as it is.
\<close>

theorem one_reply_to_sender:
  "let s = foldl (udp_step K) (serve_obfs_udp K seed g) es; s' = udp_step K s (Recv now load src d)
   in out_queue s' = out_queue s \<and>
      ((\<exists>ds. length ds \<le> 1 \<and> sent_dgrams s' = sent_dgrams s @ map (Pair src) ds \<and>
          (queues s' = queues s \<or> queues s' = queues s @ [[]])) \<or>
       (\<exists>i t x. i < length (dsts s) \<and> dsts s ! i = src \<and> queues s' = (queues s)[i := queues s ! i @ [SubscribeError t x]] \<and>
          sent_dgrams s' = sent_dgrams s))"
proof -
  let ?s = "foldl (udp_step K) (serve_obfs_udp K seed g) es"
  have l: "linked ?s" using udp.run_inv [OF server_inv_start [of K seed g], of es K] by (simp add: server_inv_def list_all_iff)
  show ?thesis
    using replies_dgram [of src ?s K now load "take SRV_MAX_DGRAM d"]
  proof
    assume "sends_to src ?s (handle_dgram K now load src (take SRV_MAX_DGRAM d) ?s)"
    then show ?thesis by (auto simp: Let_def udp_step_def [of K ?s] sends_to_def)
  next
    assume "\<exists>p. fmlookup (peers ?s) src = Some p \<and> queues_one (peer_conn p) ?s (handle_dgram K now load src (take SRV_MAX_DGRAM d) ?s)"
    then show ?thesis using l unfolding Let_def by (simp add: udp_step_def [of K ?s] queues_one_def linked_def) blast
  qed
qed

text \<open>
  In every run, an event waits in a connection's queue only if that connection subscribed to its
  topic, and every subscription passed the service's check of its topic.
\<close>

theorem events_only_to_subscribers:
  "events_authorised K (foldl (udp_step K) (serve_obfs_udp K seed g) es)"
  by (rule udp_events.run_inv [OF events_start]) (simp add: list_all_iff)

text \<open>
  C24. At the peer limit, first handshake messages change nothing at all, whenever they arrive: the
  handler returns before its cleanup, so peers that have been idle for any length of time are not
  evicted by new clients knocking, and these are refused for as long as nothing else arrives.
\<close>

theorem full_server_refuses_forever:
  assumes "MAX_PEERS \<le> fmsize (peers s)"
    and "\<forall>e \<in> set es. \<exists>now load src d body. e = Recv now load src d \<and>
      unshape_hs (take SRV_MAX_DGRAM d) (profile (ctx K)) = Some (Hs1, body)"
  shows "foldl (udp_step K) s es = s"
  using assms(2)
proof (induction es)
  case (Cons e es)
  then have "udp_step K s e = s" using hs1_at_limit [OF assms(1)] by (auto simp: udp_step_def)
  then show ?case using Cons by simp
qed simp

theorem full_server_refuses_forever_witness:
  "foldl (udp_step demo_cfg) demo_full (replicate 3 (Recv 1000000000 False demo_client [1, 0, 1, 0])) = demo_full"
proof (rule full_server_refuses_forever)
  show "MAX_PEERS \<le> fmsize (peers demo_full)" by (simp add: demo_full_def fmsize_crowd)
qed (auto simp: take_srv_dgram unshape_hs_def demo_cfg_def demo_ctx_def passthrough_def)

text \<open>
  C25. The peer limit is not a bound on peers. A third message is not checked against it: a handshake
  that was half-open when the limit was reached is admitted, and the server then has more peers than
  the limit.
\<close>

theorem admission_beyond_limit:
  assumes "fmsize (peers s) = MAX_PEERS" and "unshape_hs (take SRV_MAX_DGRAM d) (profile (ctx K)) = Some (Hs3, body)"
    and "fmlookup (pending s) src = Some ph"
    and "complete_handshake_msg3 (ctx K) (responder ph) body = Inr (ch, static)" and "auth_gate K static = Inr ()"
    and "fmlookup (peers s) src = None"
    and "\<forall>a p. fmlookup (peers s) a = Some p \<longrightarrow> now - last_seen p < PEER_IDLE_TIMEOUT"
  shows "MAX_PEERS < fmsize (peers (udp_step K s (Recv now load src d)))"
  using hs3_at_limit [OF assms(2-6)] assms(1,7) by (simp add: udp_step_def)

theorem admission_beyond_limit_witness:
  "MAX_PEERS < fmsize (peers (udp_step demo_cfg demo_full demo_hs3))"
proof -
  have "fmlookup (peers demo_full) demo_client = None"
    using crowd_lookup [of demo_client] by (cases "fmlookup (peers demo_full) demo_client") (auto simp: demo_full_def)
  moreover have "\<forall>a p. fmlookup (peers demo_full) a = Some p \<longrightarrow> 10 - last_seen p < PEER_IDLE_TIMEOUT"
    using crowd_lookup by (auto simp: demo_full_def PEER_IDLE_TIMEOUT_def)
  moreover have "fmlookup (pending demo_full) demo_client = Some \<lparr>responder = (replicate 32 1, 2, None), created_at = 0\<rparr>"
    by (simp add: demo_full_def demo_step_hs1)
  moreover obtain ch where
    "complete_handshake_msg3 (ctx demo_cfg) (replicate 32 1, 2, None) (2 # demo_key @ replicate 32 0) = Inr (ch, demo_key)"
    by (auto simp: demo_cfg_def demo_complete)
  moreover have "unshape_hs (take SRV_MAX_DGRAM (3 # 2 # demo_key @ replicate 32 0)) (profile (ctx demo_cfg)) =
      Some (Hs3, 2 # demo_key @ replicate 32 0)"
    by (simp add: demo_key_def take_srv_dgram unshape_hs_def demo_cfg_def demo_ctx_def passthrough_def)
  moreover have "auth_gate demo_cfg demo_key = Inr ()" by (simp add: demo_cfg_def)
  ultimately show ?thesis
    unfolding demo_hs3_def
    by (intro admission_beyond_limit [where static = demo_key and ch = ch and body = "2 # demo_key @ replicate 32 0"
        and ph = "\<lparr>responder = (replicate 32 1, 2, None), created_at = 0\<rparr>"])
      (simp_all add: demo_full_def fmsize_crowd)
qed

end
