(* ===== verification/Udp_Serve.thy ===== *)
theory Udp_Serve
  imports Udp_Server_Safety
begin

text \<open>
  The life of a UDP server, from \<^verbatim>\<open>serve_obfs_udp\<close> and \<^verbatim>\<open>UdpServeHandle\<close> of \<^verbatim>\<open>src/udp/server.rs\<close>: binding,
  the end of the receive loop on a socket error, and the shutdown, which calls \<^verbatim>\<open>abort\<close> on the receive
  task and on the task that rotates the cookie secret. An abort only asks the runtime to cancel: the
  task is \<open>Aborting\<close> and may go on until the runtime drops it, which are the events \<open>ReceiveCancelled\<close>
  and \<open>RotateCancelled\<close>. The receive task owns the two hash maps, so they go with it. The send loop, the
  sealer tasks and the subscription tasks are not tied to the handle. A cancellation is placed between
  two datagrams; one that strikes while the loop awaits inside a datagram differs in that the rest of
  the work on this datagram, such as its reply, is lost as well.
\<close>

record udp_serve_handle =
  udp_local_addr :: socket_addr

datatype task_phase = Running | Aborting | Ended

record ('x, 'g, 'h, 'sl, 'op, 'c) udp_serve =
  us_server :: "('x, 'g, 'h, 'sl, 'op, 'c) udp_server"
  us_receiving :: task_phase
  us_rotating :: task_phase

datatype 'x serve_event = Task "'x udp_event" | ReceiveError | Shutdown | ReceiveCancelled | RotateCancelled

definition start_udp ::
  "('x, 'g, 'h, 'sl, 'op, 'c) udp_server_cfg \<Rightarrow> io_error + unit \<Rightarrow> io_error + socket_addr \<Rightarrow> bytes \<Rightarrow> 'g \<Rightarrow>
   obfs_error + (udp_serve_handle \<times> ('x, 'g, 'h, 'sl, 'op, 'c) udp_serve)" where
  "start_udp K bind addr cookie_seed g =
     (case bind of
        Inl e \<Rightarrow> Inl (Io e)
      | Inr _ \<Rightarrow>
          (case addr of
             Inl e \<Rightarrow> Inl (Io e)
           | Inr a \<Rightarrow>
               Inr (\<lparr>udp_local_addr = a\<rparr>,
                    \<lparr>us_server = serve_obfs_udp K cookie_seed g, us_receiving = Running, us_rotating = Running\<rparr>)))"

definition end_receiving ::
  "('x, 'g, 'h, 'sl, 'op, 'c) udp_serve \<Rightarrow> ('x, 'g, 'h, 'sl, 'op, 'c) udp_serve" where
  "end_receiving u =
     u\<lparr>us_receiving := Ended, us_server := (us_server u)\<lparr>pending := fmempty, peers := fmempty\<rparr>\<rparr>"

definition abort_task :: "task_phase \<Rightarrow> task_phase" where
  "abort_task p = (if p = Running then Aborting else p)"

definition shutdown ::
  "('x, 'g, 'h, 'sl, 'op, 'c) udp_serve \<Rightarrow> ('x, 'g, 'h, 'sl, 'op, 'c) udp_serve" where
  "shutdown u = u\<lparr>us_receiving := abort_task (us_receiving u), us_rotating := abort_task (us_rotating u)\<rparr>"

definition task_runs :: "('x, 'g, 'h, 'sl, 'op, 'c) udp_serve \<Rightarrow> 'x udp_event \<Rightarrow> bool" where
  "task_runs u e =
     (case e of Recv _ _ _ _ \<Rightarrow> us_receiving u \<noteq> Ended | RotateCookie _ \<Rightarrow> us_rotating u \<noteq> Ended | _ \<Rightarrow> True)"

definition serve_step ::
  "('x, 'g, 'h, 'sl, 'op, 'c) udp_server_cfg \<Rightarrow> ('x, 'g, 'h, 'sl, 'op, 'c) udp_serve \<Rightarrow> 'x serve_event \<Rightarrow>
   ('x, 'g, 'h, 'sl, 'op, 'c) udp_serve" where
  "serve_step K u e =
     (case e of
        Task ev \<Rightarrow> if task_runs u ev then u\<lparr>us_server := udp_step K (us_server u) ev\<rparr> else u
      | ReceiveError \<Rightarrow> if us_receiving u = Ended then u else end_receiving u
      | Shutdown \<Rightarrow> shutdown u
      | ReceiveCancelled \<Rightarrow> if us_receiving u = Aborting then end_receiving u else u
      | RotateCancelled \<Rightarrow> if us_rotating u = Aborting then u\<lparr>us_rotating := Ended\<rparr> else u)"

subsection \<open>The invariant of the server lifts\<close>

lemma server_inv_cleared: "server_inv s \<Longrightarrow> server_inv (s\<lparr>pending := fmempty, peers := fmempty\<rparr>)"
  by (simp add: server_inv_def sized_def linked_def dsts_def MAX_PEERS_def)

lemma serve_step_inv: "server_inv (us_server u) \<Longrightarrow> server_inv (us_server (serve_step K u e))"
  by (cases e) (auto simp: serve_step_def end_receiving_def shutdown_def server_inv_step server_inv_cleared)

interpretation served: step_invariant "serve_step K" "\<lambda>_. True" "\<lambda>u. server_inv (us_server u)"
  by unfold_locales (rule serve_step_inv)

subsection \<open>After the shutdown\<close>

text \<open>
  A shutdown is never taken back. Once the receive task has ended, the rest of the server only works
  off what it holds: compared with a server \<open>s\<close>, requests, connections and subscriptions are the same,
  no peer is left, and what has been sent more was queued in \<open>s\<close> or goes to one of its connections.
\<close>

definition down ::
  "('x, 'g, 'h, 'sl, 'op, 'c) udp_server \<Rightarrow> ('x, 'g, 'h, 'sl, 'op, 'c) udp_server \<Rightarrow> bool" where
  "down s s' \<longleftrightarrow>
     handled s' = handled s \<and> dsts s' = dsts s \<and> subs s' = subs s \<and> peers s' = fmempty \<and> pending s' = fmempty \<and>
     (\<exists>new. sent_dgrams s' = sent_dgrams s @ new \<and>
        set (new @ out_queue s') \<subseteq> set (out_queue s) \<union> set (dsts s) \<times> UNIV)"

interpretation asked: step_invariant "serve_step K" "\<lambda>_. True" "\<lambda>u. us_receiving u \<noteq> Running \<and> us_rotating u \<noteq> Running"
  by unfold_locales (auto simp: serve_step_def end_receiving_def shutdown_def abort_task_def split: serve_event.splits)

lemma down_cleared: "down s (s\<lparr>pending := fmempty, peers := fmempty\<rparr>)"
  by (simp add: down_def)

lemma seal_next_out_queue: "set (out_queue (seal_next K i s)) \<subseteq> set (out_queue s) \<union> set (dsts s) \<times> UNIV"
  by (auto simp: seal_next_def Let_def dsts_def split: list.splits prod.splits sum.splits)

lemma down_task:
  assumes "down s s'" and "\<And>now load src d. ev \<noteq> Recv now load src d"
  shows "down s (udp_step K s' ev)"
proof -
  from assms(1) obtain new where n: "sent_dgrams s' = sent_dgrams s @ new"
    "set (new @ out_queue s') \<subseteq> set (out_queue s) \<union> set (dsts s) \<times> UNIV" and d: "dsts s' = dsts s" by (auto simp: down_def)
  have "\<exists>new. sent_dgrams (udp_step K s' ev) = sent_dgrams s @ new \<and>
      set (new @ out_queue (udp_step K s' ev)) \<subseteq> set (out_queue s) \<union> set (dsts s) \<times> UNIV"
  proof (cases ev)
    case (SealNext i)
    then show ?thesis using n d seal_next_out_queue [of K i s'] by (intro exI [of _ new]) (auto simp: udp_step_def)
  next
    case SendNext
    then show ?thesis using n by (cases "out_queue s'") (auto simp: udp_step_def send_next_def sock_send_def)
  qed (use n assms(2) in \<open>auto simp: udp_step_def rotate_cookie_def\<close>)
  then show ?thesis using assms by (cases ev) (auto simp: down_def udp_step_def)
qed

lemma down_step:
  "us_receiving u = Ended \<and> down s (us_server u) \<Longrightarrow>
   us_receiving (serve_step K u e) = Ended \<and> down s (us_server (serve_step K u e))"
  by (auto simp: serve_step_def task_runs_def shutdown_def abort_task_def intro!: down_task split: serve_event.splits)

interpretation halted: step_invariant "serve_step K" "\<lambda>_. True" "\<lambda>u. us_receiving u = Ended \<and> down s (us_server u)"
  by unfold_locales (rule down_step)

lemma handlers_secret:
  "handle_hs1 K now load src body s = (b, s') \<Longrightarrow> cookie_secret s' = cookie_secret s"
  "handle_hs3 K now src body s = (b, s') \<Longrightarrow> cookie_secret s' = cookie_secret s"
  "handle_data K now src body s = (b, s') \<Longrightarrow> cookie_secret s' = cookie_secret s"
  unfolding handle_hs1_def handle_hs3_def handle_data_def Let_def
  by (auto split: if_splits prod.splits sum.splits option.splits accept_result.splits)

lemma cleanup_secret [simp]: "cookie_secret (cleanup now s) = cookie_secret s"
  by (simp add: cleanup_def)

lemma handle_dgram_secret [simp]: "cookie_secret (handle_dgram K now load src d s) = cookie_secret s"
proof (cases rule: handle_dgram_cases [of K now load src d s])
  case (hs1 body b s')
  then show ?thesis using handlers_secret(1) [OF hs1(2)] by (cases b) simp_all
next
  case (hs3 body b s')
  then show ?thesis using handlers_secret(2) [OF hs3(2)] by (cases b) simp_all
next
  case (data body b s')
  then show ?thesis using handlers_secret(3) [OF data(2)] by (cases b) simp_all
qed simp_all

interpretation unrotated: step_invariant "serve_step K" "\<lambda>_. True" "\<lambda>u. us_rotating u = Ended \<and> cookie_secret (us_server u) = c"
  by unfold_locales
    (auto simp: serve_step_def task_runs_def shutdown_def abort_task_def end_receiving_def udp_step_def
      split: serve_event.splits udp_event.splits)

lemma shutdown_asked:
  "us_receiving (foldl (serve_step K) u (Shutdown # es)) \<noteq> Running \<and> us_rotating (foldl (serve_step K) u (Shutdown # es)) \<noteq> Running"
  using asked.run_inv [of "serve_step K u Shutdown" es K]
  by (simp add: list_all_iff serve_step_def [of K u Shutdown] shutdown_def abort_task_def)

interpretation emptied: step_invariant "serve_step K" "\<lambda>_. True"
  "\<lambda>u. us_receiving u = Ended \<longrightarrow> peers (us_server u) = fmempty \<and> pending (us_server u) = fmempty"
  by unfold_locales
    (auto simp: serve_step_def task_runs_def shutdown_def abort_task_def end_receiving_def udp_step_def
      split: serve_event.splits udp_event.splits)

lemma start_running: "start_udp K bind addr seed g = Inr (h, u) \<Longrightarrow> us_receiving u = Running"
  by (auto simp: start_udp_def split: sum.splits)

lemma receive_cancelled:
  "us_receiving u \<noteq> Running \<Longrightarrow>
   us_receiving u = Ended \<longrightarrow> peers (us_server u) = fmempty \<and> pending (us_server u) = fmempty \<Longrightarrow>
   us_receiving (serve_step K u ReceiveCancelled) = Ended \<and> down (us_server u) (us_server (serve_step K u ReceiveCancelled))"
  by (cases "us_receiving u") (simp_all add: serve_step_def end_receiving_def down_cleared, simp add: down_def)

lemma rotate_cancelled:
  "us_rotating u \<noteq> Running \<Longrightarrow>
   us_rotating (serve_step K u RotateCancelled) = Ended \<and>
   cookie_secret (us_server (serve_step K u RotateCancelled)) = cookie_secret (us_server u)"
  by (cases "us_rotating u") (simp_all add: serve_step_def)

lemma halted_run:
  "us_receiving (serve_step K u e) = Ended \<and> down s (us_server (serve_step K u e)) \<Longrightarrow> down s (us_server (foldl (serve_step K) u (e # es)))"
  using halted.run_inv [of "serve_step K u e" s es K] by (simp add: list_all_iff)

lemma unrotated_run:
  "us_rotating (serve_step K u e) = Ended \<and> cookie_secret (us_server (serve_step K u e)) = c \<Longrightarrow>
   cookie_secret (us_server (foldl (serve_step K) u (e # es))) = c"
  using unrotated.run_inv [of "serve_step K u e" c es K] by (simp add: list_all_iff)

lemma publish_filter:
  "publish a ev [] n ss s =
     foldl (\<lambda>s sub. push_queue (sub_conn sub) (Event ev) s) s (filter (\<lambda>sub. sub_source sub = a \<and> sub_topic sub = ev_topic ev) ss)"
  by (induction ss arbitrary: n s) auto

lemma forwarded:
  assumes "filter (\<lambda>sub. sub_source sub = a \<and> sub_topic sub = ev_topic ev) (subs s) = [sub]" and "sub_conn sub < length (conns s)"
    and "conn_queue (conns s ! sub_conn sub) = []" and "out_queue s = []"
    and "seal_envelope (records (ctx K)) (json (ctx K)) (conn_chan (conns s ! sub_conn sub)) (Event ev) (conn_rng (conns s ! sub_conn sub)) =
      (Inr d, ch, g)"
  shows "sent_dgrams (foldl (udp_step K) s [Publish a ev [], SealNext (sub_conn sub), SendNext]) =
    sent_dgrams s @ [(conn_dst (conns s ! sub_conn sub), d)]"
  using assms by (simp add: udp_step_def publish_filter push_queue_def seal_next_def send_next_def)

subsection \<open>Properties\<close>

text \<open>
  C35. A shutdown stops the service once its two cancellations have taken effect. The call itself changes
  nothing of the server, whose tasks may go on. It is not lost, whatever happens in between: when the
  receive task is then cancelled, no peer and no half-open handshake is left, and in all that follows no
  request reaches the service, no connection is opened, no subscription is added, and every datagram sent
  was already queued or goes to a connection of that moment. When the rotation is cancelled, the
  cookie secret stays as it is from then on.
\<close>

theorem shutdown_stops_service:
  assumes "start_udp K bind addr seed g = Inr (h, u0)" and "u = foldl (serve_step K) u0 es"
  shows "us_server (serve_step K u Shutdown) = us_server u \<and>
    (let u1 = foldl (serve_step K) u (Shutdown # es1); s1 = us_server u1
     in (let s2 = us_server (foldl (serve_step K) u1 (ReceiveCancelled # es2))
         in peers s2 = fmempty \<and> pending s2 = fmempty \<and> handled s2 = handled s1 \<and> dsts s2 = dsts s1 \<and> subs s2 = subs s1 \<and>
            (\<exists>new. sent_dgrams s2 = sent_dgrams s1 @ new \<and> set new \<subseteq> set (out_queue s1) \<union> set (dsts s1) \<times> UNIV)) \<and>
        cookie_secret (us_server (foldl (serve_step K) u1 (RotateCancelled # es2))) = cookie_secret s1)"
proof -
  let ?u1 = "foldl (serve_step K) u (Shutdown # es1)"
  have "?u1 = foldl (serve_step K) u0 (es @ Shutdown # es1)" using assms(2) by simp
  then have e: "us_receiving ?u1 = Ended \<longrightarrow> peers (us_server ?u1) = fmempty \<and> pending (us_server ?u1) = fmempty"
    using emptied.run_inv [of u0 "es @ Shutdown # es1" K] start_running [OF assms(1)] by (simp add: list_all_iff)
  note h = receive_cancelled [OF conjunct1 [OF shutdown_asked] e, of K, THEN halted_run, of es2]
  note r = rotate_cancelled [OF conjunct2 [OF shutdown_asked [of K u es1]], of K, THEN unrotated_run, of es2]
  show ?thesis using h r unfolding Let_def down_def by (auto simp: serve_step_def [of K u Shutdown] shutdown_def)
qed

theorem shutdown_stops_service_witness:
  "\<exists>h u0. start_udp demo_cfg (Inr ()) (Inr demo_client) [1] 0 = Inr (h, u0) \<and>
     (let u1 = foldl (serve_step demo_cfg) (foldl (serve_step demo_cfg) u0 [Task demo_hs1]) (Shutdown # [Task demo_hs3]);
          s2 = us_server (foldl (serve_step demo_cfg) u1 (ReceiveCancelled # [Task demo_hs1]))
      in peers s2 = fmempty \<and> dsts s2 = dsts (us_server u1))"
proof -
  obtain h u0 where s: "start_udp demo_cfg (Inr ()) (Inr demo_client) [1] 0 = Inr (h, u0)" by (simp add: start_udp_def)
  show ?thesis
    using shutdown_stops_service [OF s refl, of "[Task demo_hs1]" "[Task demo_hs3]" "[Task demo_hs1]"] s unfolding Let_def by blast
qed


definition subscribed_server ::
  "(unit, nat, bytes \<times> nat \<times> bytes option, bytes \<times> nat, bytes \<times> nat list, bytes \<times> bytes) udp_serve" where
  "subscribed_server =
     \<lparr>us_server = demo_start\<lparr>
        conns := [\<lparr>conn_chan = demo_chan, conn_dst = demo_client, conn_queue = [], conn_rng = 0\<rparr>],
        subs := [\<lparr>sub_source = 0, sub_topic = ''t'', sub_conn = 0\<rparr>]\<rparr>,
      us_receiving = Running, us_rotating = Running\<rparr>"


end
