(* ===== verification/Pending_Calls.thy ===== *)
theory Pending_Calls
  imports Envelope
begin

text \<open>
  What the two clients share: the table of pending requests, the broadcast of events, and the stream
  that a subscriber reads them from.

  The table is the \<^verbatim>\<open>PendingMap\<close> of \<^verbatim>\<open>src/client.rs\<close> and \<^verbatim>\<open>src/udp/client.rs\<close> with the oneshot
  channels whose senders it holds. Channels are numbered in the order of their creation; each waits,
  has delivered a response, or has lost its sender, which the receiver sees as an error. A sender is
  dropped when its entry is overwritten, removed or drained. \<open>shot_key\<close> records under which id the
  sender was inserted.

  The broadcast channel keeps the last 256 events a subscriber has not read; older ones are lost to
  it, which the stream skips over.
\<close>

text \<open>
  Both pump tasks loop until an error; then they mark the transport as down, drain the table and
  return, which drops the receiver of the outbound channel.
\<close>

datatype pump_phase = Looping | Broken | Marked | Drained | Exited

datatype connection_state = Connected | Down

datatype 'x shot_state = Waiting | Delivered "'x response" | Dropped

record 'x shot =
  shot_key :: string
  shot_state :: "'x shot_state"

record 'x call_table =
  ct_map :: "(string, nat) fmap"
  ct_shots :: "'x shot list"

datatype 'x table_op = TInsert string | TRemove string | TResolve "'x response" | TDrain

definition settle :: "nat \<Rightarrow> 'x shot_state \<Rightarrow> 'x call_table \<Rightarrow> 'x call_table" where
  "settle j v t = t\<lparr>ct_shots := (ct_shots t)[j := (ct_shots t ! j)\<lparr>shot_state := v\<rparr>]\<rparr>"

definition take_out :: "string \<Rightarrow> 'x shot_state \<Rightarrow> 'x call_table \<Rightarrow> 'x call_table" where
  "take_out key v t =
     (case fmlookup (ct_map t) key of
        None \<Rightarrow> t
      | Some j \<Rightarrow> settle j v (t\<lparr>ct_map := fmdrop key (ct_map t)\<rparr>))"

definition insert_new :: "string \<Rightarrow> 'x call_table \<Rightarrow> 'x call_table" where
  "insert_new key t =
     (let t' = take_out key Dropped t
      in t'\<lparr>ct_map := fmupd key (length (ct_shots t')) (ct_map t'),
            ct_shots := ct_shots t' @ [\<lparr>shot_key = key, shot_state = Waiting\<rparr>]\<rparr>)"

definition drain :: "'x call_table \<Rightarrow> 'x call_table" where
  "drain t =
     t\<lparr>ct_map := fmempty,
       ct_shots := map (\<lambda>j. if j |\<in>| fmran (ct_map t) then (ct_shots t ! j)\<lparr>shot_state := Dropped\<rparr> else ct_shots t ! j)
         [0..<length (ct_shots t)]\<rparr>"

definition table_step :: "'x call_table \<Rightarrow> 'x table_op \<Rightarrow> 'x call_table" where
  "table_step t op =
     (case op of
        TInsert key \<Rightarrow> insert_new key t
      | TRemove key \<Rightarrow> take_out key Dropped t
      | TResolve resp \<Rightarrow> take_out (resp_id resp) (Delivered resp) t
      | TDrain \<Rightarrow> drain t)"

definition new_table :: "'x call_table" where
  "new_table = \<lparr>ct_map = fmempty, ct_shots = []\<rparr>"

definition outcome :: "'x call_table \<Rightarrow> nat \<Rightarrow> 'x shot_state" where
  "outcome t j = shot_state (ct_shots t ! j)"

definition key_of :: "'x call_table \<Rightarrow> nat \<Rightarrow> string" where
  "key_of t j = shot_key (ct_shots t ! j)"

text \<open>
  The well-formed tables: an entry leads to the waiting channel inserted under it, a waiting channel
  is in the table, and a response was delivered only to a channel of its id.
\<close>

definition table_wf :: "'x call_table \<Rightarrow> bool" where
  "table_wf t \<longleftrightarrow>
     (\<forall>key j. fmlookup (ct_map t) key = Some j \<longleftrightarrow> j < length (ct_shots t) \<and> key_of t j = key \<and> outcome t j = Waiting) \<and>
     (\<forall>j < length (ct_shots t). \<forall>r. outcome t j = Delivered r \<longrightarrow> resp_id r = key_of t j)"

subsection \<open>Broadcast\<close>

definition EVENT_CAPACITY :: nat where "EVENT_CAPACITY = 256"

text \<open>
  A subscription: refused, sent, or with a receiver of the broadcast: the events its stream has taken
  from the receiver so far, and the events the receiver holds.
\<close>

datatype 'x subscriber = Refused | Sent string | Attached string "'x event list" "'x event list"

definition retain_last :: "nat \<Rightarrow> 'a list \<Rightarrow> 'a list" where
  "retain_last n xs = drop (length xs - n) xs"

definition broadcast :: "'x event \<Rightarrow> 'x subscriber list \<Rightarrow> 'x subscriber list" where
  "broadcast ev =
     map (\<lambda>sub. case sub of Attached topic past evs \<Rightarrow> Attached topic past (retain_last EVENT_CAPACITY (evs @ [ev])) | _ \<Rightarrow> sub)"

text \<open>
  Polling the raw stream takes the next event from the receiver. Without one it waits, or, when no
  sender is left, it yields the error with which it ends.
\<close>

datatype 'x stream_item = Item "'x event" | Disconnection | Pending_Item

definition next_item :: "bool \<Rightarrow> 'x event list \<Rightarrow> 'x event list \<Rightarrow> 'x stream_item \<times> 'x event list \<times> 'x event list" where
  "next_item senders past evs =
     (case evs of
        ev # rest \<Rightarrow> (Item ev, past @ [ev], rest)
      | [] \<Rightarrow> (if senders then Pending_Item else Disconnection, past, []))"

text \<open>
  What \<^verbatim>\<open>subscribe\<close> returns is the raw stream through \<^verbatim>\<open>dedup_by_seq\<close> of \<^verbatim>\<open>vaiexia-core\<close>, which filters by topic
  and drops repetitions. It is an argument: the decision to yield an event of the raw stream, given the
  topic and the events that the raw stream yielded before it. A poll takes events from the raw stream
  until one is to be yielded; an error passes.
\<close>

type_synonym 'x dedup = "string \<Rightarrow> 'x event list \<Rightarrow> 'x event \<Rightarrow> bool"

fun event_stream ::
  "'x dedup \<Rightarrow> string \<Rightarrow> bool \<Rightarrow> 'x event list \<Rightarrow> 'x event list \<Rightarrow> 'x stream_item \<times> 'x event list \<times> 'x event list" where
  "event_stream dedup_by_seq topic senders past [] = next_item senders past []"
| "event_stream dedup_by_seq topic senders past (ev # rest) =
     (if dedup_by_seq topic past ev then next_item senders past (ev # rest)
      else event_stream dedup_by_seq topic senders (past @ [ev]) rest)"

text \<open>
  What the clients rely on: only events of the topic are yielded, and an event of the topic is yielded if
  its sequence number is greater than those of all events of the topic before it. Events that come
  late or again are left open.
\<close>

definition dedup_contract :: "('x event \<Rightarrow> nat) \<Rightarrow> 'x dedup \<Rightarrow> bool" where
  "dedup_contract seq_of D \<longleftrightarrow>
     (\<forall>topic past ev. D topic past ev \<longrightarrow> ev_topic ev = topic) \<and>
     (\<forall>topic past ev. ev_topic ev = topic \<longrightarrow> (\<forall>e \<in> set past. ev_topic e = topic \<longrightarrow> seq_of e < seq_of ev) \<longrightarrow> D topic past ev)"

definition newest_only :: "('x event \<Rightarrow> nat) \<Rightarrow> 'x dedup" where
  "newest_only seq_of topic past ev \<longleftrightarrow>
     ev_topic ev = topic \<and> list_all (\<lambda>e. ev_topic e = topic \<longrightarrow> seq_of e < seq_of ev) past"

lemma dedup_contract_newest: "dedup_contract seq_of (newest_only seq_of)"
  by (simp add: dedup_contract_def newest_only_def list_all_iff)

lemma event_stream_yields:
  "dedup_contract seq_of D \<Longrightarrow> ev_topic ev = topic \<Longrightarrow> (\<And>e. e \<in> set past \<Longrightarrow> ev_topic e = topic \<Longrightarrow> seq_of e < seq_of ev) \<Longrightarrow>
   event_stream D topic senders past (ev # rest) = (Item ev, past @ [ev], rest)"
proof -
  assume "dedup_contract seq_of D" "ev_topic ev = topic" "\<And>e. e \<in> set past \<Longrightarrow> ev_topic e = topic \<Longrightarrow> seq_of e < seq_of ev"
  then have "D topic past ev" unfolding dedup_contract_def by blast
  then show ?thesis by (simp add: next_item_def)
qed

lemma event_stream_other:
  "dedup_contract seq_of D \<Longrightarrow> ev_topic ev \<noteq> topic \<Longrightarrow>
   event_stream D topic senders past (ev # rest) = event_stream D topic senders (past @ [ev]) rest"
  by (auto simp: dedup_contract_def)

subsection \<open>The table keeps its shape\<close>

lemma settle_simps [simp]:
  "ct_map (settle j v t) = ct_map t" "length (ct_shots (settle j v t)) = length (ct_shots t)"
  "i < length (ct_shots t) \<Longrightarrow> outcome (settle j v t) i = (if i = j then v else outcome t i)"
  by (auto simp: settle_def outcome_def)

lemma key_of_settle [simp]: "key_of (settle j v t) i = key_of t i"
proof (cases "i = j")
  case True
  then show ?thesis
    by (cases "j < length (ct_shots t)") (simp_all add: settle_def key_of_def list_update_beyond)
qed (simp add: settle_def key_of_def)

lemma map_upd_simps [simp]:
  "key_of (t\<lparr>ct_map := m\<rparr>) i = key_of t i" "outcome (t\<lparr>ct_map := m\<rparr>) i = outcome t i"
  by (simp_all add: key_of_def outcome_def)

lemma length_take_out [simp]: "length (ct_shots (take_out key v t)) = length (ct_shots t)"
  by (simp add: take_out_def split: option.splits)

lemma key_of_take_out [simp]: "key_of (take_out key v t) i = key_of t i"
  by (simp add: take_out_def split: option.splits)

lemma lookup_take_out: "fmlookup (ct_map (take_out key v t)) k = (if k = key then None else fmlookup (ct_map t) k)"
  by (auto simp: take_out_def split: option.splits)

lemma outcome_take_out:
  "j < length (ct_shots t) \<Longrightarrow> outcome (take_out key v t) j = (if fmlookup (ct_map t) key = Some j then v else outcome t j)"
  by (auto simp: take_out_def split: option.splits)

lemma insert_new_simps:
  "length (ct_shots (insert_new key t)) = Suc (length (ct_shots t))"
  "ct_map (insert_new key t) = fmupd key (length (ct_shots t)) (ct_map (take_out key Dropped t))"
  "j < length (ct_shots t) \<Longrightarrow> key_of (insert_new key t) j = key_of t j"
  "j < length (ct_shots t) \<Longrightarrow> outcome (insert_new key t) j = outcome (take_out key Dropped t) j"
  "key_of (insert_new key t) (length (ct_shots t)) = key" "outcome (insert_new key t) (length (ct_shots t)) = Waiting"
  using key_of_take_out [of key Dropped t j] length_take_out [of key Dropped t]
  by (simp_all add: insert_new_def Let_def key_of_def outcome_def nth_append)

lemma drain_simps [simp]:
  "length (ct_shots (drain t)) = length (ct_shots t)" "ct_map (drain t) = fmempty"
  "j < length (ct_shots t) \<Longrightarrow> key_of (drain t) j = key_of t j"
  by (simp_all add: drain_def key_of_def)

lemma outcome_drain:
  assumes "table_wf t" and "j < length (ct_shots t)"
  shows "outcome (drain t) j = (if outcome t j = Waiting then Dropped else outcome t j)"
proof -
  have "j |\<in>| fmran (ct_map t) \<longleftrightarrow> outcome t j = Waiting"
    using assms unfolding table_wf_def by (auto simp: fmlookup_ran_iff)
  then show ?thesis using assms(2) by (auto simp: drain_def outcome_def)
qed

lemma take_out_wf:
  assumes wf: "table_wf t" and v: "v = Dropped \<or> (\<exists>r. v = Delivered r \<and> resp_id r = key)"
  shows "table_wf (take_out key v t)"
proof -
  have "v \<noteq> Waiting" using v by auto
  moreover have "fmlookup (ct_map t) key = Some j \<Longrightarrow> j < length (ct_shots t) \<and> key_of t j = key" for j
    using wf unfolding table_wf_def by blast
  ultimately show ?thesis
    using wf v unfolding table_wf_def by (auto simp: lookup_take_out outcome_take_out split: if_splits)
qed

lemma insert_new_wf: "table_wf t \<Longrightarrow> table_wf (insert_new key t)"
proof -
  assume wf: "table_wf t"
  let ?t = "take_out key Dropped t"
  let ?n = "length (ct_shots t)"
  have w: "table_wf ?t" using take_out_wf [OF wf] by blast
  have none: "fmlookup (ct_map ?t) key = None" by (simp add: lookup_take_out)
  have nw: "outcome ?t j \<noteq> Waiting" if "j < ?n" and "key_of t j = key" for j
    using w none that unfolding table_wf_def by (metis key_of_take_out length_take_out option.distinct(1))
  have "fmlookup (ct_map (insert_new key t)) k = Some j \<longleftrightarrow>
      j < Suc ?n \<and> key_of (insert_new key t) j = k \<and> outcome (insert_new key t) j = Waiting" for k j
    using w none nw by (cases "j = ?n"; cases "k = key")
      (auto simp: table_wf_def insert_new_simps less_Suc_eq)
  moreover have "outcome (insert_new key t) j = Delivered r \<Longrightarrow> j < Suc ?n \<Longrightarrow> resp_id r = key_of (insert_new key t) j" for j r
    using w by (cases "j = ?n") (auto simp: table_wf_def insert_new_simps less_Suc_eq)
  ultimately show ?thesis by (auto simp: table_wf_def insert_new_simps(1))
qed

lemma drain_wf: "table_wf t \<Longrightarrow> table_wf (drain t)"
  by (auto simp: table_wf_def [of "drain t"] outcome_drain split: if_splits) (auto simp: table_wf_def)

lemma table_step_wf: "table_wf t \<Longrightarrow> table_wf (table_step t op)"
  by (cases op) (auto simp: table_step_def insert_new_wf drain_wf intro: take_out_wf)

interpretation calls: step_invariant table_step "\<lambda>_. True" table_wf
  by unfold_locales (rule table_step_wf)

lemma new_table_wf [simp]: "table_wf new_table"
  by (simp add: table_wf_def new_table_def)

text \<open>A channel's outcome is final, its key never changes, and the table only grows.\<close>

lemma table_step_length: "length (ct_shots t) \<le> length (ct_shots (table_step t op))"
  by (cases op) (simp_all add: table_step_def insert_new_simps)

lemma table_step_key: "j < length (ct_shots t) \<Longrightarrow> key_of (table_step t op) j = key_of t j"
  by (cases op) (simp_all add: table_step_def insert_new_simps)

lemma table_step_final:
  assumes "table_wf t" and "j < length (ct_shots t)" and "outcome t j \<noteq> Waiting"
  shows "outcome (table_step t op) j = outcome t j"
proof -
  have "fmlookup (ct_map t) k \<noteq> Some j" for k using assms unfolding table_wf_def by blast
  then show ?thesis
    using assms by (cases op) (simp_all add: table_step_def insert_new_simps outcome_take_out outcome_drain)
qed

text \<open>Which operations can end the wait of a channel: those on its id, and the drain.\<close>

lemma table_step_waiting:
  assumes "table_wf t" and "j < length (ct_shots t)" and "outcome t j = Waiting"
    and "\<And>key. op = TInsert key \<Longrightarrow> key \<noteq> key_of t j" and "op \<noteq> TRemove (key_of t j)"
    and "\<And>r. op = TResolve r \<Longrightarrow> resp_id r \<noteq> key_of t j" and "op \<noteq> TDrain"
  shows "outcome (table_step t op) j = Waiting"
proof -
  have "fmlookup (ct_map t) k = Some j \<longleftrightarrow> k = key_of t j" for k using assms(1-3) unfolding table_wf_def by auto
  then show ?thesis
    using assms by (cases op) (auto simp: table_step_def insert_new_simps outcome_take_out)
qed

lemma broadcast_length [simp]: "length (broadcast ev subs) = length subs"
  by (simp add: broadcast_def)

end
