(* ===== verification/Udp_Client.thy ===== *)
theory Udp_Client
  imports Udp_Handshake Pending_Calls
begin

text \<open>
  The UDP client, \<^verbatim>\<open>src/udp/client.rs\<close>, as a state machine over the transport handle, its pump task
  and the calls in progress.

  A call of \<^verbatim>\<open>request\<close> makes up to 11 tries. A try inserts a new channel under the request's id, sends
  the request, awaits the channel with a timeout, and after the timeout removes the entry; a turn of
  the call is one of these steps, with a flag saying whether the timer has expired. The timeout looks
  at the channel first, so it only ends a wait on a channel that has nothing to say. \<open>uc_sent\<close> counts
  how often the call has put its request on the outbound channel. \<open>ut_sent\<close> lists the datagrams handed
  to the socket for the server, whose send errors the code discards. The socket is asked for a
  datagram only when the outbound channel is empty.
\<close>

definition MAX_REQUEST_RETRIES :: nat where "MAX_REQUEST_RETRIES = 10"

definition MAX_UDP :: nat where "MAX_UDP = 65507"

datatype 'x udp_call_phase =
    Trying nat
  | Sending nat
  | Awaiting_Reply nat
  | Expired nat
  | Returned "'x core_error + 'x response"

record 'x udp_call =
  uc_req :: "'x request"
  uc_shot :: nat
  uc_phase :: "'x udp_call_phase"
  uc_sent :: nat

record ('x, 'g, 'sl, 'op) udp_transport =
  ut_server :: socket_addr
  ut_chan :: "('sl, 'op, 'g) data_channel"
  ut_rng :: 'g
  ut_queue :: "'x envelope list"
  ut_pump :: pump_phase
  ut_state :: connection_state
  ut_table :: "'x call_table"
  ut_calls :: "'x udp_call list"
  ut_subs :: "'x subscriber list"
  ut_capability :: "string option"
  ut_alive :: bool
  ut_sent :: "bytes list"

datatype 'x udp_client_event =
    UCall "'x request"
  | UTurn nat bool
  | USubSend string
  | USubAttach nat
  | USubNext nat
  | UPumpSend
  | UPumpRecv "io_error + bytes"
  | UPumpMark
  | UPumpDrain
  | UPumpExit
  | UDropHandle

subsection \<open>Connecting\<close>

definition new_udp_transport ::
  "socket_addr \<Rightarrow> ('sl, 'op, 'g) data_channel \<Rightarrow> 'g \<Rightarrow> string option \<Rightarrow> ('x, 'g, 'sl, 'op) udp_transport" where
  "new_udp_transport server channel g capability =
     \<lparr>ut_server = server, ut_chan = channel, ut_rng = g, ut_queue = [], ut_pump = Looping, ut_state = Connected,
      ut_table = new_table, ut_calls = [], ut_subs = [], ut_capability = capability, ut_alive = True, ut_sent = []\<rparr>"

definition connect_udp ::
  "('x, 'g, 'h, 'sl, 'op) udp_ctx \<Rightarrow> io_error + socket_addr list \<Rightarrow> io_error + udp_sock \<Rightarrow> nat \<Rightarrow> 'g \<Rightarrow> 'g \<Rightarrow>
   bytes \<Rightarrow> bytes \<Rightarrow> string option \<Rightarrow> obfs_error + ('x, 'g, 'sl, 'op) udp_transport" where
  "connect_udp U lookup bind ent g g' server_pub client_private capability =
     (case lookup of
        Inl e \<Rightarrow> Inl (Io e)
      | Inr [] \<Rightarrow> Inl (Io (IoError NotFound ''addr not resolved''))
      | Inr (server # _) \<Rightarrow>
          (case bind of
             Inl e \<Rightarrow> Inl (Io e)
           | Inr sock \<Rightarrow>
               (case client_udp_handshake U ent server server_pub client_private sock g of
                  (Inl e, _) \<Rightarrow> Inl e
                | (Inr channel, _) \<Rightarrow> Inr (new_udp_transport server channel g' capability))))"

subsection \<open>Calls\<close>

definition upd_call :: "nat \<Rightarrow> ('x udp_call \<Rightarrow> 'x udp_call) \<Rightarrow> ('x, 'g, 'sl, 'op) udp_transport \<Rightarrow> ('x, 'g, 'sl, 'op) udp_transport" where
  "upd_call k f u = u\<lparr>ut_calls := (ut_calls u)[k := f (ut_calls u ! k)]\<rparr>"

definition ut_on_table :: "'x table_op \<Rightarrow> ('x, 'g, 'sl, 'op) udp_transport \<Rightarrow> ('x, 'g, 'sl, 'op) udp_transport" where
  "ut_on_table op u = u\<lparr>ut_table := table_step (ut_table u) op\<rparr>"

definition ut_send :: "'x envelope \<Rightarrow> ('x, 'g, 'sl, 'op) udp_transport \<Rightarrow> ('x, 'g, 'sl, 'op) udp_transport option" where
  "ut_send env u = (if ut_pump u = Exited then None else Some (u\<lparr>ut_queue := ut_queue u @ [env]\<rparr>))"

definition request_start :: "'x request \<Rightarrow> ('x, 'g, 'sl, 'op) udp_transport \<Rightarrow> ('x, 'g, 'sl, 'op) udp_transport" where
  "request_start req u =
     (if ut_alive u
      then u\<lparr>ut_calls := ut_calls u @ [\<lparr>uc_req = req, uc_shot = 0, uc_phase = Trying 0, uc_sent = 0\<rparr>]\<rparr>
      else u)"

definition request_turn :: "nat \<Rightarrow> bool \<Rightarrow> ('x, 'g, 'sl, 'op) udp_transport \<Rightarrow> ('x, 'g, 'sl, 'op) udp_transport" where
  "request_turn k expired u =
     (if k < length (ut_calls u)
      then
        (let cl = ut_calls u ! k; key = req_id (uc_req cl)
         in case uc_phase cl of
              Trying n \<Rightarrow>
                upd_call k (\<lambda>cl. cl\<lparr>uc_shot := length (ct_shots (ut_table u)), uc_phase := Sending n\<rparr>)
                  (ut_on_table (TInsert key) u)
            | Sending n \<Rightarrow>
                (case ut_send (Request (uc_req cl)) u of
                   None \<Rightarrow> upd_call k (\<lambda>cl. cl\<lparr>uc_phase := Returned (Inl Disconnected)\<rparr>) (ut_on_table (TRemove key) u)
                 | Some u' \<Rightarrow> upd_call k (\<lambda>cl. cl\<lparr>uc_phase := Awaiting_Reply n, uc_sent := Suc (uc_sent cl)\<rparr>) u')
            | Awaiting_Reply n \<Rightarrow>
                (case outcome (ut_table u) (uc_shot cl) of
                   Delivered resp \<Rightarrow> upd_call k (\<lambda>cl. cl\<lparr>uc_phase := Returned (Inr resp)\<rparr>) u
                 | Dropped \<Rightarrow> upd_call k (\<lambda>cl. cl\<lparr>uc_phase := Returned (Inl Disconnected)\<rparr>) u
                 | Waiting \<Rightarrow> if expired then upd_call k (\<lambda>cl. cl\<lparr>uc_phase := Expired n\<rparr>) u else u)
            | Expired n \<Rightarrow>
                upd_call k (\<lambda>cl. cl\<lparr>uc_phase := if n = MAX_REQUEST_RETRIES then Returned (Inl CoreTimeout) else Trying (Suc n)\<rparr>)
                  (ut_on_table (TRemove key) u)
            | Returned _ \<Rightarrow> u)
      else u)"

definition udp_subscribe_send :: "string \<Rightarrow> ('x, 'g, 'sl, 'op) udp_transport \<Rightarrow> ('x, 'g, 'sl, 'op) udp_transport" where
  "udp_subscribe_send topic u =
     (if ut_alive u
      then (case ut_send (Subscribe topic None (ut_capability u)) u of
              None \<Rightarrow> u\<lparr>ut_subs := ut_subs u @ [Refused]\<rparr>
            | Some u' \<Rightarrow> u'\<lparr>ut_subs := ut_subs u' @ [Sent topic]\<rparr>)
      else u)"

definition udp_subscribe_attach :: "nat \<Rightarrow> ('x, 'g, 'sl, 'op) udp_transport \<Rightarrow> ('x, 'g, 'sl, 'op) udp_transport" where
  "udp_subscribe_attach k u =
     (if k < length (ut_subs u)
      then (case ut_subs u ! k of
              Sent topic \<Rightarrow> u\<lparr>ut_subs := (ut_subs u)[k := Attached topic [] []]\<rparr>
            | _ \<Rightarrow> u)
      else u)"

definition udp_subscribe_recv :: "nat \<Rightarrow> ('x, 'g, 'sl, 'op) udp_transport \<Rightarrow> 'x stream_item \<times> ('x, 'g, 'sl, 'op) udp_transport" where
  "udp_subscribe_recv k u =
     (if k < length (ut_subs u)
      then (case ut_subs u ! k of
              Attached topic past evs \<Rightarrow>
                (case next_item (ut_alive u \<or> ut_pump u \<noteq> Exited) past evs of
                   (item, past', evs') \<Rightarrow> (item, u\<lparr>ut_subs := (ut_subs u)[k := Attached topic past' evs']\<rparr>))
            | _ \<Rightarrow> (Pending_Item, u))
      else (Pending_Item, u))"

text \<open>
  A poll of the stream that \<^verbatim>\<open>subscribe\<close> returned, and the items of several polls. In the state machine a
  poll is one step per event that it takes from the receiver.
\<close>

definition udp_subscribe_next :: "'x dedup \<Rightarrow> nat \<Rightarrow> ('x, 'g, 'sl, 'op) udp_transport \<Rightarrow> 'x stream_item \<times> ('x, 'g, 'sl, 'op) udp_transport" where
  "udp_subscribe_next dedup_by_seq k u =
     (if k < length (ut_subs u)
      then (case ut_subs u ! k of
              Attached topic past evs \<Rightarrow>
                (case event_stream dedup_by_seq topic (ut_alive u \<or> ut_pump u \<noteq> Exited) past evs of
                   (item, past', evs') \<Rightarrow> (item, u\<lparr>ut_subs := (ut_subs u)[k := Attached topic past' evs']\<rparr>))
            | _ \<Rightarrow> (Pending_Item, u))
      else (Pending_Item, u))"

fun udp_subscribe_polls :: "'x dedup \<Rightarrow> nat \<Rightarrow> nat \<Rightarrow> ('x, 'g, 'sl, 'op) udp_transport \<Rightarrow> 'x stream_item list" where
  "udp_subscribe_polls dedup_by_seq k 0 u = []"
| "udp_subscribe_polls dedup_by_seq k (Suc n) u =
     (case udp_subscribe_next dedup_by_seq k u of (item, u') \<Rightarrow> item # udp_subscribe_polls dedup_by_seq k n u')"

definition udp_state :: "('x, 'g, 'sl, 'op) udp_transport \<Rightarrow> connection_state" where
  "udp_state u = ut_state u"

subsection \<open>The pump\<close>

definition ut_seal_and_send ::
  "('x, 'g, 'h, 'sl, 'op) udp_ctx \<Rightarrow> 'x envelope \<Rightarrow> ('x, 'g, 'sl, 'op) udp_transport \<Rightarrow> ('x, 'g, 'sl, 'op) udp_transport" where
  "ut_seal_and_send U env u =
     (case seal_envelope (records U) (json U) (ut_chan u) env (ut_rng u) of
        (r, ch, g) \<Rightarrow>
          (let u' = u\<lparr>ut_chan := ch, ut_rng := g\<rparr>
           in case r of Inr wire \<Rightarrow> u'\<lparr>ut_sent := ut_sent u' @ [wire]\<rparr> | Inl _ \<Rightarrow> u'))"

definition udp_pump_recv ::
  "('x, 'g, 'h, 'sl, 'op) udp_ctx \<Rightarrow> io_error + bytes \<Rightarrow> ('x, 'g, 'sl, 'op) udp_transport \<Rightarrow> ('x, 'g, 'sl, 'op) udp_transport" where
  "udp_pump_recv U result u =
     (case result of
        Inl _ \<Rightarrow> u\<lparr>ut_pump := Broken\<rparr>
      | Inr d \<Rightarrow>
          (case open_datagram (records U) (json U) (ut_chan u) (take MAX_UDP d) of
             (r, ch) \<Rightarrow>
               (let u' = u\<lparr>ut_chan := ch\<rparr>
                in case r of
                     Inr (Some (Response resp)) \<Rightarrow> ut_on_table (TResolve resp) u'
                   | Inr (Some (Event ev)) \<Rightarrow> u'\<lparr>ut_subs := broadcast ev (ut_subs u')\<rparr>
                   | Inr (Some Ping) \<Rightarrow> ut_seal_and_send U Pong u'
                   | Inr (Some Pong) \<Rightarrow> u'
                   | Inr _ \<Rightarrow> u'
                   | Inl _ \<Rightarrow> u'\<lparr>ut_pump := Broken\<rparr>)))"

definition udp_pump ::
  "('x, 'g, 'h, 'sl, 'op) udp_ctx \<Rightarrow> 'x udp_client_event \<Rightarrow> ('x, 'g, 'sl, 'op) udp_transport \<Rightarrow> ('x, 'g, 'sl, 'op) udp_transport" where
  "udp_pump U e u =
     (case (e, ut_pump u) of
        (UPumpSend, Looping) \<Rightarrow>
          (case ut_queue u of [] \<Rightarrow> u | env # q \<Rightarrow> ut_seal_and_send U env (u\<lparr>ut_queue := q\<rparr>))
      | (UPumpRecv result, Looping) \<Rightarrow> if ut_queue u = [] then udp_pump_recv U result u else u
      | (UPumpMark, Broken) \<Rightarrow> u\<lparr>ut_state := Down, ut_pump := Marked\<rparr>
      | (UPumpDrain, Marked) \<Rightarrow> (ut_on_table TDrain u)\<lparr>ut_pump := Drained\<rparr>
      | (UPumpExit, Drained) \<Rightarrow> u\<lparr>ut_pump := Exited\<rparr>
      | _ \<Rightarrow> u)"

definition udp_drop_handle :: "('x, 'g, 'sl, 'op) udp_transport \<Rightarrow> ('x, 'g, 'sl, 'op) udp_transport" where
  "udp_drop_handle u =
     (if list_all (\<lambda>cl. case uc_phase cl of Returned _ \<Rightarrow> True | _ \<Rightarrow> False) (ut_calls u) then u\<lparr>ut_alive := False\<rparr> else u)"

definition udp_client_step ::
  "('x, 'g, 'h, 'sl, 'op) udp_ctx \<Rightarrow> ('x, 'g, 'sl, 'op) udp_transport \<Rightarrow> 'x udp_client_event \<Rightarrow> ('x, 'g, 'sl, 'op) udp_transport" where
  "udp_client_step U u e =
     (case e of
        UCall req \<Rightarrow> request_start req u
      | UTurn k expired \<Rightarrow> request_turn k expired u
      | USubSend topic \<Rightarrow> udp_subscribe_send topic u
      | USubAttach k \<Rightarrow> udp_subscribe_attach k u
      | USubNext k \<Rightarrow> snd (udp_subscribe_recv k u)
      | UDropHandle \<Rightarrow> udp_drop_handle u
      | _ \<Rightarrow> udp_pump U e u)"

subsection \<open>Invariant\<close>

text \<open>
  A call's channel was inserted under its id; a call is within its 11 tries and has sent as often as
  they say; a response it returned answers its request; it fails only with \<open>Disconnected\<close>, or with
  \<open>CoreTimeout\<close> after 11 sends.
\<close>

definition has_shot :: "'x call_table \<Rightarrow> 'x udp_call \<Rightarrow> bool" where
  "has_shot t cl \<longleftrightarrow> uc_shot cl < length (ct_shots t) \<and> key_of t (uc_shot cl) = req_id (uc_req cl)"

definition udp_call_ok :: "'x call_table \<Rightarrow> 'x udp_call \<Rightarrow> bool" where
  "udp_call_ok t cl =
     (case uc_phase cl of
        Trying n \<Rightarrow> n \<le> MAX_REQUEST_RETRIES \<and> uc_sent cl = n
      | Sending n \<Rightarrow> n \<le> MAX_REQUEST_RETRIES \<and> uc_sent cl = n \<and> has_shot t cl
      | Awaiting_Reply n \<Rightarrow> n \<le> MAX_REQUEST_RETRIES \<and> uc_sent cl = Suc n \<and> has_shot t cl
      | Expired n \<Rightarrow> n \<le> MAX_REQUEST_RETRIES \<and> uc_sent cl = Suc n \<and> has_shot t cl
      | Returned (Inr r) \<Rightarrow> uc_sent cl \<le> Suc MAX_REQUEST_RETRIES \<and> resp_id r = req_id (uc_req cl)
      | Returned (Inl e) \<Rightarrow>
          e = Disconnected \<and> uc_sent cl \<le> Suc MAX_REQUEST_RETRIES \<or> e = CoreTimeout \<and> uc_sent cl = Suc MAX_REQUEST_RETRIES)"

definition udp_client_inv :: "('x, 'g, 'sl, 'op) udp_transport \<Rightarrow> bool" where
  "udp_client_inv u \<longleftrightarrow>
     table_wf (ut_table u) \<and> list_all (udp_call_ok (ut_table u)) (ut_calls u) \<and>
     (ut_state u = Down \<longleftrightarrow> ut_pump u \<in> {Marked, Drained, Exited})"

lemma ut_on_table_simps [simp]:
  "ut_table (ut_on_table op u) = table_step (ut_table u) op" "ut_calls (ut_on_table op u) = ut_calls u"
  "ut_pump (ut_on_table op u) = ut_pump u" "ut_state (ut_on_table op u) = ut_state u"
  by (simp_all add: ut_on_table_def)

lemma upd_call_simps [simp]:
  "ut_table (upd_call k f u) = ut_table u" "ut_pump (upd_call k f u) = ut_pump u" "ut_state (upd_call k f u) = ut_state u"
  "ut_calls (upd_call k f u) = (ut_calls u)[k := f (ut_calls u ! k)]"
  by (simp_all add: upd_call_def)

lemma udp_call_ok_step: "udp_call_ok t cl \<Longrightarrow> udp_call_ok (table_step t op) cl"
  using table_step_length [of t op] table_step_key [of "uc_shot cl" t op]
  by (auto simp: udp_call_ok_def has_shot_def split: udp_call_phase.splits sum.splits)

lemma udp_inv_table: "udp_client_inv u \<Longrightarrow> udp_client_inv (ut_on_table op u)"
  by (auto simp: udp_client_inv_def table_step_wf list_all_iff udp_call_ok_step)

lemma udp_inv_upd:
  assumes "udp_client_inv u" and "k < length (ut_calls u)" and "udp_call_ok (ut_table u) (f (ut_calls u ! k))"
  shows "udp_client_inv (upd_call k f u)"
  using assms by (auto simp: udp_client_inv_def list_all_length nth_list_update)

lemma udp_inv_cong:
  assumes "ut_table u' = ut_table u" and "ut_calls u' = ut_calls u" and "ut_state u' = ut_state u"
    and "ut_pump u' = ut_pump u \<or> ut_pump u = Looping \<and> ut_pump u' = Broken \<or> ut_pump u = Drained \<and> ut_pump u' = Exited"
  shows "udp_client_inv u \<Longrightarrow> udp_client_inv u'"
  using assms by (auto simp: udp_client_inv_def)

lemma udp_inv_turn:
  assumes inv: "udp_client_inv u"
  shows "udp_client_inv (request_turn k expired u)"
proof (cases "k < length (ut_calls u)")
  case True
  let ?cl = "ut_calls u ! k"
  have ok: "udp_call_ok (ut_table u) ?cl" using inv True by (auto simp: udp_client_inv_def list_all_length)
  have wf: "table_wf (ut_table u)" using inv by (simp add: udp_client_inv_def)
  show ?thesis
  proof (cases "uc_phase ?cl")
    case (Trying n)
    show ?thesis
      using True Trying ok insert_new_simps(1,5) [of "req_id (uc_req ?cl)" "ut_table u"]
      by (auto simp: request_turn_def Let_def udp_call_ok_def has_shot_def table_step_def
          intro!: udp_inv_upd [OF udp_inv_table [OF inv]])
  next
    case (Sending n)
    have "udp_client_inv (u\<lparr>ut_queue := q\<rparr>)" for q by (rule udp_inv_cong [OF _ _ _ _ inv]) simp_all
    then show ?thesis
      using True Sending ok
      by (auto simp: request_turn_def Let_def ut_send_def udp_call_ok_def has_shot_def intro!: udp_inv_upd udp_inv_table inv)
  next
    case (Awaiting_Reply n)
    have "resp_id r = req_id (uc_req ?cl)" if "outcome (ut_table u) (uc_shot ?cl) = Delivered r" for r
      using that ok wf Awaiting_Reply by (auto simp: udp_call_ok_def has_shot_def table_wf_def)
    then show ?thesis
      using True Awaiting_Reply ok inv
      by (auto simp: request_turn_def Let_def udp_call_ok_def has_shot_def split: shot_state.splits intro!: udp_inv_upd)
  next
    case (Expired n)
    then show ?thesis
      using True ok
      by (auto simp: request_turn_def Let_def udp_call_ok_def intro!: udp_inv_upd [OF udp_inv_table [OF inv]])
  next
    case (Returned v)
    then show ?thesis using True inv by (simp add: request_turn_def)
  qed
qed (use inv in \<open>simp add: request_turn_def\<close>)

lemma ut_seal_frame [simp]:
  "ut_table (ut_seal_and_send U env u) = ut_table u" "ut_calls (ut_seal_and_send U env u) = ut_calls u"
  "ut_state (ut_seal_and_send U env u) = ut_state u" "ut_pump (ut_seal_and_send U env u) = ut_pump u"
  by (simp_all add: ut_seal_and_send_def Let_def split: prod.splits sum.splits)

lemma udp_inv_recv:
  assumes inv: "udp_client_inv u" and "ut_pump u = Looping"
  shows "udp_client_inv (udp_pump_recv U result u)"
proof -
  have "udp_client_inv (ut_on_table op (u\<lparr>ut_chan := ch\<rparr>))" for op ch
    by (rule udp_inv_table, rule udp_inv_cong [OF _ _ _ _ inv]) simp_all
  then show ?thesis
    using assms by (auto simp: udp_pump_recv_def Let_def split: sum.splits prod.splits option.splits envelope.splits
        elim!: udp_inv_cong [rotated 4])
qed

lemma udp_inv_pump:
  assumes inv: "udp_client_inv u"
  shows "udp_client_inv (udp_pump U e u)"
proof -
  have "udp_client_inv (u\<lparr>ut_state := Down, ut_pump := Marked\<rparr>)" if "ut_pump u = Broken"
    using inv that by (auto simp: udp_client_inv_def)
  moreover have "udp_client_inv ((ut_on_table TDrain u)\<lparr>ut_pump := Drained\<rparr>)" if "ut_pump u = Marked"
    using udp_inv_table [OF inv, of TDrain] that by (auto simp: udp_client_inv_def)
  moreover have "udp_client_inv (u\<lparr>ut_pump := Exited\<rparr>)" if "ut_pump u = Drained"
    using inv that by (auto elim!: udp_inv_cong [rotated 4])
  moreover have "udp_client_inv (ut_seal_and_send U env (u\<lparr>ut_queue := q\<rparr>))" for env q
    using inv by (auto elim!: udp_inv_cong [rotated 4])
  ultimately show ?thesis
    using inv by (auto simp: udp_pump_def udp_inv_recv split: udp_client_event.splits pump_phase.splits list.splits)
qed

lemma udp_inv_start_call: "udp_client_inv u \<Longrightarrow> udp_client_inv (request_start req u)"
  by (auto simp: request_start_def udp_client_inv_def udp_call_ok_def)

lemma udp_inv_subscribe:
  assumes inv: "udp_client_inv u"
  shows "udp_client_inv (udp_subscribe_send topic u)" "udp_client_inv (udp_subscribe_attach k u)"
    "udp_client_inv (snd (udp_subscribe_recv k u))"
  using inv by (auto simp: udp_subscribe_send_def ut_send_def udp_subscribe_attach_def udp_subscribe_recv_def
      split: subscriber.splits prod.splits elim!: udp_inv_cong [rotated 4])

lemma udp_client_inv_step: "udp_client_inv u \<Longrightarrow> udp_client_inv (udp_client_step U u e)"
  by (cases e) (auto simp: udp_client_step_def udp_inv_start_call udp_inv_turn udp_inv_subscribe udp_inv_pump
      udp_drop_handle_def elim!: udp_inv_cong [rotated 4])

lemma udp_subscribe_next_steps:
  "\<exists>n. snd (udp_subscribe_next D k u) = foldl (udp_client_step U) u (replicate n (USubNext k))"
proof (cases "k < length (ut_subs u) \<and> (\<exists>topic past evs. ut_subs u ! k = Attached topic past evs)")
  case False
  then have "snd (udp_subscribe_next D k u) = u" by (auto simp: udp_subscribe_next_def split: subscriber.split)
  then show ?thesis by (metis foldl_Nil replicate_0)
next
  case True
  then obtain topic past evs where "ut_subs u ! k = Attached topic past evs" and "k < length (ut_subs u)" by blast
  then show ?thesis
  proof (induction evs arbitrary: past u)
    case Nil
    then have "snd (udp_subscribe_next D k u) = foldl (udp_client_step U) u (replicate 1 (USubNext k))"
      by (simp add: udp_subscribe_next_def udp_client_step_def udp_subscribe_recv_def)
    then show ?case by blast
  next
    case (Cons ev evs)
    let ?u = "udp_client_step U u (USubNext k)"
    have s: "?u = u\<lparr>ut_subs := (ut_subs u)[k := Attached topic (past @ [ev]) evs]\<rparr>"
      using Cons.prems by (simp add: udp_client_step_def udp_subscribe_recv_def next_item_def)
    show ?case
    proof (cases "D topic past ev")
      case True
      then have "snd (udp_subscribe_next D k u) = foldl (udp_client_step U) u (replicate 1 (USubNext k))"
        using Cons.prems s by (simp add: udp_subscribe_next_def next_item_def)
      then show ?thesis by blast
    next
      case False
      then have "udp_subscribe_next D k u = udp_subscribe_next D k ?u"
        using Cons.prems by (simp add: udp_subscribe_next_def s)
      moreover obtain n where "snd (udp_subscribe_next D k ?u) = foldl (udp_client_step U) ?u (replicate n (USubNext k))"
        using Cons.IH [of ?u "past @ [ev]"] Cons.prems by (auto simp: s)
      ultimately have "snd (udp_subscribe_next D k u) = foldl (udp_client_step U) u (replicate (Suc n) (USubNext k))" by simp
      then show ?thesis by blast
    qed
  qed
qed

interpretation udp_client: step_invariant "udp_client_step U" "\<lambda>_. True" udp_client_inv
  by unfold_locales (rule udp_client_inv_step)

lemma udp_client_inv_new: "udp_client_inv (new_udp_transport server ch g cap)"
  by (simp add: udp_client_inv_def new_udp_transport_def)

subsection \<open>Calls return\<close>

text \<open>How many turns a call still needs at most when its timer always expires.\<close>

definition turns_left :: "'x udp_call \<Rightarrow> nat" where
  "turns_left cl =
     (case uc_phase cl of
        Trying n \<Rightarrow> 4 * (MAX_REQUEST_RETRIES - n) + 4
      | Sending n \<Rightarrow> 4 * (MAX_REQUEST_RETRIES - n) + 3
      | Awaiting_Reply n \<Rightarrow> 4 * (MAX_REQUEST_RETRIES - n) + 2
      | Expired n \<Rightarrow> 4 * (MAX_REQUEST_RETRIES - n) + 1
      | Returned _ \<Rightarrow> 0)"

lemma pump_keeps_calls [simp]: "ut_calls (udp_pump U e u) = ut_calls u"
  by (auto simp: udp_pump_def udp_pump_recv_def Let_def
      split: udp_client_event.splits pump_phase.splits list.splits sum.splits prod.splits option.splits envelope.splits)

lemma turn_calls [simp]: "length (ut_calls (request_turn j b u)) = length (ut_calls u)"
  by (auto simp: request_turn_def ut_send_def Let_def split: udp_call_phase.splits shot_state.splits)

lemma turn_other: "j \<noteq> k \<Longrightarrow> ut_calls (request_turn j b u) ! k = ut_calls u ! k"
  by (auto simp: request_turn_def ut_send_def Let_def split: udp_call_phase.splits shot_state.splits)

lemma other_step_call:
  assumes "k < length (ut_calls u)" and "\<And>b. e \<noteq> UTurn k b"
  shows "k < length (ut_calls (udp_client_step U u e)) \<and> ut_calls (udp_client_step U u e) ! k = ut_calls u ! k"
proof (cases e)
  case (UTurn j b)
  then have "j \<noteq> k" using assms(2) by blast
  then show ?thesis using UTurn assms(1) by (simp add: udp_client_step_def turn_other)
qed (use assms(1) in \<open>auto simp: udp_client_step_def request_start_def udp_subscribe_send_def ut_send_def
    udp_subscribe_attach_def udp_subscribe_recv_def udp_drop_handle_def nth_append split: subscriber.splits prod.splits\<close>)

lemma turn_progress:
  assumes inv: "udp_client_inv u" and k: "k < length (ut_calls u)"
  shows "k < length (ut_calls (request_turn k b u))"
    and "turns_left (ut_calls (request_turn k b u) ! k) \<le> turns_left (ut_calls u ! k)"
    and "b \<Longrightarrow> turns_left (ut_calls (request_turn k b u) ! k) \<le> turns_left (ut_calls u ! k) - 1"
proof -
  have "udp_call_ok (ut_table u) (ut_calls u ! k)" using inv k by (auto simp: udp_client_inv_def list_all_length)
  then show "k < length (ut_calls (request_turn k b u))"
    and "turns_left (ut_calls (request_turn k b u) ! k) \<le> turns_left (ut_calls u ! k)"
    and "b \<Longrightarrow> turns_left (ut_calls (request_turn k b u) ! k) \<le> turns_left (ut_calls u ! k) - 1"
    using k by (auto simp: request_turn_def ut_send_def turns_left_def udp_call_ok_def Let_def
        split: udp_call_phase.splits shot_state.splits)
qed

lemma turns_run:
  "udp_client_inv u \<Longrightarrow> k < length (ut_calls u) \<Longrightarrow>
     turns_left (ut_calls (foldl (udp_client_step U) u es) ! k) \<le> turns_left (ut_calls u ! k) - count_list es (UTurn k True)"
proof (induction es arbitrary: u)
  case (Cons e es)
  let ?u = "udp_client_step U u e"
  have inv: "udp_client_inv ?u" by (rule udp_client_inv_step [OF Cons.prems(1)])
  show ?case
  proof (cases "\<exists>b. e = UTurn k b")
    case True
    then obtain b where e: "e = UTurn k b" by blast
    have "?u = request_turn k b u" using e by (simp add: udp_client_step_def)
    with turn_progress [OF Cons.prems, of b] Cons.IH [OF inv] e show ?thesis by (cases b) auto
  next
    case False
    then have "k < length (ut_calls ?u) \<and> ut_calls ?u ! k = ut_calls u ! k" using other_step_call [OF Cons.prems(2)] by blast
    with Cons.IH [OF inv] False show ?thesis by auto
  qed
qed simp

subsection \<open>Properties\<close>

text \<open>
  C33. In every interleaving of calls, pump steps and datagrams on a new transport, a call that has
  returned a response returned one with its request's id; it has put its request on the outbound
  channel at most 11 times, and it reports a timeout only after all 11; the table of pending requests
  is well formed and the state is down exactly from the pump's marking on.
\<close>

theorem udp_client_invariant: "udp_client_inv (foldl (udp_client_step U) (new_udp_transport server ch g cap) es)"
  by (rule udp_client.run_inv [OF udp_client_inv_new]) (simp add: list_all_iff)

text \<open>
  C10. Every call returns: in every run, however its turns are interleaved with those of other calls,
  the pump and the network, a call whose timer has expired on 44 turns has returned.
\<close>

theorem udp_call_returns:
  assumes "u = foldl (udp_client_step U) (new_udp_transport server ch g cap) es" and "k < length (ut_calls u)"
    and "44 \<le> count_list es' (UTurn k True)"
  shows "\<exists>v. uc_phase (ut_calls (foldl (udp_client_step U) u es') ! k) = Returned v"
proof -
  have "udp_client_inv u" unfolding assms(1) by (rule udp_client.run_inv [OF udp_client_inv_new]) (simp add: list_all_iff)
  moreover have "turns_left (ut_calls u ! k) \<le> 44"
    by (auto simp: turns_left_def MAX_REQUEST_RETRIES_def split: udp_call_phase.splits)
  ultimately have "turns_left (ut_calls (foldl (udp_client_step U) u es') ! k) = 0"
    using turns_run [OF _ assms(2), of U es'] assms(3) by simp
  then show ?thesis by (auto simp: turns_left_def split: udp_call_phase.splits)
qed

theorem udp_call_returns_witness:
  "\<exists>v. uc_phase (ut_calls (foldl (udp_client_step demo_ctx)
     (foldl (udp_client_step demo_ctx) (new_udp_transport demo_server demo_chan 0 None) [UCall \<lparr>req_id = ''a'', req_body = ()\<rparr>])
     (replicate 44 (UTurn 0 True))) ! 0) = Returned v"
proof (rule udp_call_returns [OF refl])
  show "0 < length (ut_calls (foldl (udp_client_step demo_ctx) (new_udp_transport demo_server demo_chan 0 None)
      [UCall \<lparr>req_id = ''a'', req_body = ()\<rparr>]))"
    by (simp add: udp_client_step_def request_start_def new_udp_transport_def)
  show "44 \<le> count_list (replicate 44 (UTurn 0 True)) (UTurn 0 True)" by (simp add: eval_nat_numeral)
qed

end
