(* ===== verification/Udp_Session.thy ===== *)
theory Udp_Session
  imports Udp_Serve Udp_Client
begin

text \<open>
  UDP client and server together: what the two channels of a session owe each other, a try of a
  remote call over a network that may lose the request or the reply, and the handshake between the
  two sides.

  \<open>feeds\<close> relates a channel to the one at the other end: same mimicry, the opener has the sealer's
  key and has accepted only counters the sealer has used, and the sealer can seal \<open>n\<close> more records
  below the limit \<open>lim\<close> of its counter. \<open>sealable\<close> says of an envelope that it is coded faithfully,
  that a sealer below its limit seals it, and that the datagram fits the buffers.
\<close>

definition feeds ::
  "('sl \<Rightarrow> bytes \<times> nat) \<Rightarrow> ('op \<Rightarrow> bytes \<times> nat set) \<Rightarrow> nat \<Rightarrow> nat \<Rightarrow>
   ('sl, 'op, 'g) data_channel \<Rightarrow> ('sl, 'op, 'g) data_channel \<Rightarrow> bool" where
  "feeds sst ost lim n a b \<longleftrightarrow>
     mimic a = mimic b \<and>
     (\<exists>k c seen. sst (sealer a) = (k, c) \<and> ost (opener b) = (k, seen) \<and> seen \<subseteq> {..<c} \<and> length k = 32 \<and> c + n \<le> lim)"

definition sealable ::
  "('x, 'g, 'h, 'sl, 'op) udp_ctx \<Rightarrow> ('sl \<Rightarrow> bytes \<times> nat) \<Rightarrow> nat \<Rightarrow> 'x envelope \<Rightarrow> bool" where
  "sealable U sst lim env \<longleftrightarrow>
     serde_ok (json U) env \<and>
     (\<forall>sl k c p g. sst sl = (k, c) \<longrightarrow> length k = 32 \<longrightarrow> c < lim \<longrightarrow> to_vec (json U) env = Inr p \<longrightarrow>
        (\<exists>rc sl'. rec_seal (records U) sl p [] = (Inr rc, sl') \<and>
           length (fst (shape_out (profile U) (encode_inner Data rc) g)) \<le> MAX_UDP))"

subsection \<open>One datagram between matching channels\<close>

lemma feeds_weaken: "feeds sst ost lim n a b \<Longrightarrow> m \<le> n \<Longrightarrow> feeds sst ost lim m a b"
  by (fastforce simp: feeds_def)

lemma feeds_frame:
  assumes "feeds sst ost lim n b a" and "sealer b' = sealer b" "mimic b' = mimic b" "opener a' = opener a" "mimic a' = mimic a"
  shows "feeds sst ost lim n b' a'"
  using assms by (simp add: feeds_def)

lemma transfer:
  assumes rc: "record_contract (records U) auth sst ost w" and m: "mimicry_ok (profile U)" and p: "mimic a = profile U"
    and f: "feeds sst ost lim (Suc n) a b" and s: "sealable U sst lim env"
  obtains d a' g' b' where "seal_envelope (records U) (json U) a env g = (Inr d, a', g')" and "length d \<le> MAX_UDP"
    and "dgram_record (profile U) d \<noteq> None" and "opener a' = opener a" and "mimic a' = mimic a" and "feeds sst ost lim n a' b"
    and "open_datagram (records U) (json U) b d = (Inr (Some env), b')" and "feeds sst ost lim n a' b'"
    and "sealer b' = sealer b" and "mimic b' = mimic b"
proof -
  obtain k c seen where f': "mimic a = mimic b" "sst (sealer a) = (k, c)" "ost (opener b) = (k, seen)" "seen \<subseteq> {..<c}"
    "length k = 32" "c + Suc n \<le> lim" using f by (auto simp: feeds_def)
  obtain j where j: "to_vec (json U) env = Inr j" "from_slice (json U) j = Inr env"
    using s by (auto simp: sealable_def elim: serde_okE)
  have "c < lim" using f'(6) by simp
  then obtain r sl' where r: "rec_seal (records U) (sealer a) j [] = (Inr r, sl')"
    and l: "length (fst (shape_out (profile U) (encode_inner Data r) g)) \<le> MAX_UDP"
    using s f'(2,5) j(1) unfolding sealable_def by blast
  obtain d g' where d: "shape_out (profile U) (encode_inner Data r) g = (d, g')" by (cases "shape_out (profile U) (encode_inner Data r) g")
  let ?a = "a\<lparr>sealer := sl'\<rparr>"
  have se: "seal_envelope (records U) (json U) a env g = (Inr d, ?a, g')"
    by (simp add: seal_envelope_def j r p d)
  have dr: "dgram_record (mimic b) d = Some r"
    using seal_envelope_Inr [OF se] m p r j(1) f'(1) by auto
  note ks = record_contract_seal [OF rc r f'(2)]
  have "in_window w seen c" using f'(4) by (force simp: in_window_def)
  then obtain r' where o: "rec_open (records U) (opener b) r [] = (Inr j, r')" "ost r' = (k, insert c seen)"
    using record_contract_accept [OF rc f'(3) ks(1)] by blast
  have od: "open_datagram (records U) (json U) b d = (Inr (Some env), b\<lparr>opener := r'\<rparr>)"
    by (simp add: open_datagram_record [OF dr] o j)
  show thesis
    by (rule that [OF se _ _ _ _ _ od]) (use l d dr f' ks o p in \<open>auto simp: feeds_def\<close>)
qed

subsection \<open>A session and a try\<close>

text \<open>
  \<open>session\<close>: an idle client and a server that has it as a peer, with channels that feed each other.
  A try of call \<open>k\<close> inserts its channel, queues the request, and the pump sends it. Of a lost try,
  either the request does not arrive, or it arrives (at some time, under some load) and the reply
  does not; then the timer expires. Of a good try both arrive.
\<close>

definition session ::
  "('x, 'g, 'h, 'sl, 'op, 'c) udp_server_cfg \<Rightarrow> ('sl \<Rightarrow> bytes \<times> nat) \<Rightarrow> ('op \<Rightarrow> bytes \<times> nat set) \<Rightarrow> nat \<Rightarrow> nat \<Rightarrow>
   socket_addr \<Rightarrow> ('x, 'g, 'sl, 'op) udp_transport \<Rightarrow> ('x, 'g, 'h, 'sl, 'op, 'c) udp_server \<Rightarrow> bool" where
  "session K sst ost lim n src u s \<longleftrightarrow>
     ut_pump u = Looping \<and> ut_queue u = [] \<and> mimic (ut_chan u) = profile (ctx K) \<and>
     (\<exists>p. fmlookup (peers s) src = Some p \<and> peer_conn p < length (conns s) \<and>
        feeds sst ost lim n (ut_chan u) (conn_chan (conns s ! peer_conn p)) \<and>
        feeds sst ost lim n (conn_chan (conns s ! peer_conn p)) (ut_chan u))"

definition calling :: "nat \<Rightarrow> 'x request \<Rightarrow> nat \<Rightarrow> ('x, 'g, 'sl, 'op) udp_transport \<Rightarrow> bool" where
  "calling k req n u \<longleftrightarrow>
     k < length (ut_calls u) \<and> uc_req (ut_calls u ! k) = req \<and> uc_phase (ut_calls u ! k) = Trying n"

datatype loss = RequestLost | ReplyLost nat bool

definition make_try ::
  "('x, 'g, 'h, 'sl, 'op, 'c) udp_server_cfg \<Rightarrow> nat \<Rightarrow> ('x, 'g, 'sl, 'op) udp_transport \<Rightarrow> ('x, 'g, 'sl, 'op) udp_transport" where
  "make_try K k u = foldl (udp_client_step (ctx K)) u [UTurn k False, UTurn k False, UPumpSend]"

definition reach_server ::
  "('x, 'g, 'h, 'sl, 'op, 'c) udp_server_cfg \<Rightarrow> socket_addr \<Rightarrow> nat \<Rightarrow> bool \<Rightarrow> ('x, 'g, 'sl, 'op) udp_transport \<Rightarrow>
   ('x, 'g, 'h, 'sl, 'op, 'c) udp_server \<Rightarrow> ('x, 'g, 'h, 'sl, 'op, 'c) udp_server" where
  "reach_server K src now load u s = udp_step K s (Recv now load src (last (ut_sent u)))"

definition lost_try ::
  "('x, 'g, 'h, 'sl, 'op, 'c) udp_server_cfg \<Rightarrow> socket_addr \<Rightarrow> nat \<Rightarrow>
   ('x, 'g, 'sl, 'op) udp_transport \<times> ('x, 'g, 'h, 'sl, 'op, 'c) udp_server \<Rightarrow> loss \<Rightarrow>
   ('x, 'g, 'sl, 'op) udp_transport \<times> ('x, 'g, 'h, 'sl, 'op, 'c) udp_server" where
  "lost_try K src k us l =
     (let u = make_try K k (fst us)
      in (foldl (udp_client_step (ctx K)) u [UTurn k True, UTurn k False],
          case l of RequestLost \<Rightarrow> snd us | ReplyLost now load \<Rightarrow> reach_server K src now load u (snd us)))"

definition good_try ::
  "('x, 'g, 'h, 'sl, 'op, 'c) udp_server_cfg \<Rightarrow> socket_addr \<Rightarrow> nat \<Rightarrow> nat \<Rightarrow> bool \<Rightarrow>
   ('x, 'g, 'sl, 'op) udp_transport \<times> ('x, 'g, 'h, 'sl, 'op, 'c) udp_server \<Rightarrow>
   ('x, 'g, 'sl, 'op) udp_transport \<times> ('x, 'g, 'h, 'sl, 'op, 'c) udp_server" where
  "good_try K src k now load us =
     (let u = make_try K k (fst us);
          s = reach_server K src now load u (snd us)
      in (foldl (udp_client_step (ctx K)) u [UPumpRecv (Inr (snd (last (sent_dgrams s)))), UTurn k False], s))"

lemma make_try_eq:
  assumes "calling k req n u" and "ut_pump u = Looping" and "ut_queue u = []"
    and "seal_envelope (records (ctx K)) (json (ctx K)) (ut_chan u) (Request req) (ut_rng u) = (Inr d, a, g)"
  shows "make_try K k u =
    u\<lparr>ut_chan := a, ut_rng := g, ut_queue := [], ut_table := insert_new (req_id req) (ut_table u),
      ut_calls := (ut_calls u)[k := (ut_calls u ! k)\<lparr>uc_shot := length (ct_shots (ut_table u)), uc_phase := Awaiting_Reply n,
        uc_sent := Suc (uc_sent (ut_calls u ! k))\<rparr>],
      ut_sent := ut_sent u @ [d]\<rparr>"
  using assms
  by (simp add: make_try_def calling_def udp_client_step_def request_turn_def Let_def upd_call_def ut_on_table_def
      ut_send_def udp_pump_def ut_seal_and_send_def table_step_def)

lemma expire_eq:
  assumes "k < length (ut_calls u)" and "uc_phase (ut_calls u ! k) = Awaiting_Reply n"
    and "outcome (ut_table u) (uc_shot (ut_calls u ! k)) = Waiting" and "n < MAX_REQUEST_RETRIES"
  shows "foldl (udp_client_step U) u [UTurn k True, UTurn k False] =
    u\<lparr>ut_table := take_out (req_id (uc_req (ut_calls u ! k))) Dropped (ut_table u),
      ut_calls := (ut_calls u)[k := (ut_calls u ! k)\<lparr>uc_phase := Trying (Suc n)\<rparr>]\<rparr>"
  using assms
  by (simp add: udp_client_step_def request_turn_def Let_def upd_call_def ut_on_table_def table_step_def)

lemma reply_eq:
  assumes "k < length (ut_calls u)" and "uc_phase (ut_calls u ! k) = Awaiting_Reply n" and "ut_pump u = Looping" and "ut_queue u = []"
    and "length v \<le> MAX_UDP" and "open_datagram (records U) (json U) (ut_chan u) v = (Inr (Some (Response resp)), a)"
    and "uc_shot (ut_calls u ! k) < length (ct_shots (ut_table u))"
    and "fmlookup (ct_map (ut_table u)) (resp_id resp) = Some (uc_shot (ut_calls u ! k))"
  shows "uc_phase (ut_calls (foldl (udp_client_step U) u [UPumpRecv (Inr v), UTurn k False]) ! k) = Returned (Inr resp)"
  using assms
  by (simp add: udp_client_step_def udp_pump_def udp_pump_recv_def request_turn_def Let_def ut_on_table_def table_step_def
      outcome_take_out upd_call_def)

lemma handle_request_eq:
  assumes p: "fmlookup (peers s) src = Some p" and i: "peer_conn p < length (conns s)" and d: "dgram_record (profile (ctx K)) d \<noteq> None"
    and l: "length d \<le> MAX_UDP"
    and o: "open_datagram (records (ctx K)) (json (ctx K)) (conn_chan (conns s ! peer_conn p)) d = (Inr (Some (Request req)), b)"
    and v: "seal_envelope (records (ctx K)) (json (ctx K)) b (Response (svc_handle (service K) (handled s) req)) (srv_rng s) = (Inr v, b', g)"
  shows "let s' = udp_step K s (Recv now load src d)
    in handled s' = handled s @ [req] \<and> sent_dgrams s' = sent_dgrams s @ [(src, v)] \<and>
       fmlookup (peers s') src = Some (p\<lparr>last_seen := now\<rparr>) \<and> length (conns s') = length (conns s) \<and>
       conn_chan (conns s' ! peer_conn p) = b'"
proof -
  obtain inner body where "shape_in (profile (ctx K)) d = Some inner" "decode_inner inner = Some (Data, body)"
    using d by (auto simp: dgram_record_def split: option.splits prod.splits dgram_type.splits)
  moreover have "take SRV_MAX_DGRAM d = d" using l by (simp add: MAX_UDP_def SRV_MAX_DGRAM_def)
  ultimately show ?thesis
    using p i o v
    by (simp add: udp_step_def handle_dgram_def handle_data_def Let_def handle_env_def seal_and_send_def set_chan_def sock_send_def
        cleanup_def fmlookup_retain PEER_IDLE_TIMEOUT_def)
qed

subsection \<open>Both ends of a try\<close>

text \<open>
  What a call relies on: the contracts of the record layer and of the mimicry, that the request and
  every answer to it can be sealed, and that an answer carries the id of the request.
\<close>

definition callable ::
  "('x, 'g, 'h, 'sl, 'op, 'c) udp_server_cfg \<Rightarrow> (bytes \<Rightarrow> (bytes \<times> nat \<times> bytes) option) \<Rightarrow> ('sl \<Rightarrow> bytes \<times> nat) \<Rightarrow>
   ('op \<Rightarrow> bytes \<times> nat set) \<Rightarrow> nat \<Rightarrow> nat \<Rightarrow> 'x request \<Rightarrow> bool" where
  "callable K auth sst ost w lim req \<longleftrightarrow>
     record_contract (records (ctx K)) auth sst ost w \<and> mimicry_ok (profile (ctx K)) \<and>
     sealable (ctx K) sst lim (Request req) \<and>
     (\<forall>log. sealable (ctx K) sst lim (Response (svc_handle (service K) log req)) \<and>
        resp_id (svc_handle (service K) log req) = req_id req)"

lemma try_made:
  assumes c: "callable K auth sst ost w lim req" and s: "session K sst ost lim (Suc n) src u s" and k: "calling k req m u"
  shows "session K sst ost lim n src (make_try K k u) s"
    and "ut_calls (make_try K k u) = (ut_calls u)[k := (ut_calls u ! k)\<lparr>uc_shot := length (ct_shots (ut_table u)),
      uc_phase := Awaiting_Reply m, uc_sent := Suc (uc_sent (ut_calls u ! k))\<rparr>]"
    and "ut_table (make_try K k u) = insert_new (req_id req) (ut_table u)"
    and "\<exists>v a. sent_dgrams (reach_server K src now load (make_try K k u) s) = sent_dgrams s @ [(src, v)] \<and> length v \<le> MAX_UDP \<and>
      open_datagram (records (ctx K)) (json (ctx K)) (ut_chan (make_try K k u)) v =
        (Inr (Some (Response (svc_handle (service K) (handled s) req))), a)"
    and "handled (reach_server K src now load (make_try K k u) s) = handled s @ [req]"
    and "session K sst ost lim n src (make_try K k u) (reach_server K src now load (make_try K k u) s)"
proof -
  let ?U = "ctx K"
  let ?resp = "svc_handle (service K) (handled s) req"
  have rc: "record_contract (records ?U) auth sst ost w" and m: "mimicry_ok (profile ?U)"
    and rq: "sealable ?U sst lim (Request req)" and rs: "sealable ?U sst lim (Response ?resp)"
    using c by (simp_all add: callable_def)
  have lq: "ut_pump u = Looping" "ut_queue u = []" and mu: "mimic (ut_chan u) = profile ?U" using s by (simp_all add: session_def)
  obtain p where p: "fmlookup (peers s) src = Some p" "peer_conn p < length (conns s)"
    and there: "feeds sst ost lim (Suc n) (ut_chan u) (conn_chan (conns s ! peer_conn p))"
    and home: "feeds sst ost lim (Suc n) (conn_chan (conns s ! peer_conn p)) (ut_chan u)"
    using s by (auto simp: session_def)
  obtain d a g b where se: "seal_envelope (records ?U) (json ?U) (ut_chan u) (Request req) (ut_rng u) = (Inr d, a, g)"
    and d: "length d \<le> MAX_UDP" "dgram_record (profile ?U) d \<noteq> None" and a: "opener a = opener (ut_chan u)" "mimic a = mimic (ut_chan u)"
    and f: "feeds sst ost lim n a (conn_chan (conns s ! peer_conn p))"
    and od: "open_datagram (records ?U) (json ?U) (conn_chan (conns s ! peer_conn p)) d = (Inr (Some (Request req)), b)"
    and fb: "feeds sst ost lim n a b" and b: "sealer b = sealer (conn_chan (conns s ! peer_conn p))" "mimic b = mimic (conn_chan (conns s ! peer_conn p))"
    using transfer [OF rc m mu there rq] by metis
  note eq = make_try_eq [OF k lq se]
  have mb: "mimic b = profile ?U" using b(2) there mu by (simp add: feeds_def)
  have hb: "feeds sst ost lim (Suc n) b a" using feeds_frame [OF home b a] .
  obtain v b' g' a' where sv: "seal_envelope (records ?U) (json ?U) b (Response ?resp) (srv_rng s) = (Inr v, b', g')"
    and v: "length v \<le> MAX_UDP" and b': "opener b' = opener b" "mimic b' = mimic b" and f': "feeds sst ost lim n b' a"
    and ov: "open_datagram (records ?U) (json ?U) a v = (Inr (Some (Response ?resp)), a')"
    using transfer [OF rc m mb hb rs] by metis
  have h: "feeds sst ost lim n (conn_chan (conns s ! peer_conn p)) a" using feeds_weaken [OF feeds_frame [OF home refl refl a]] by simp
  have fb': "feeds sst ost lim n a b'" by (rule feeds_frame [OF fb refl refl b'])
  note srv = handle_request_eq [OF p d(2,1) od sv, of now load, unfolded Let_def]
  show "session K sst ost lim n src (make_try K k u) s" using p f h a mu lq(1) by (auto simp: session_def eq)
  show "ut_calls (make_try K k u) = (ut_calls u)[k := (ut_calls u ! k)\<lparr>uc_shot := length (ct_shots (ut_table u)),
      uc_phase := Awaiting_Reply m, uc_sent := Suc (uc_sent (ut_calls u ! k))\<rparr>]"
    and "ut_table (make_try K k u) = insert_new (req_id req) (ut_table u)" by (simp_all add: eq)
  show "\<exists>v a. sent_dgrams (reach_server K src now load (make_try K k u) s) = sent_dgrams s @ [(src, v)] \<and> length v \<le> MAX_UDP \<and>
      open_datagram (records ?U) (json ?U) (ut_chan (make_try K k u)) v = (Inr (Some (Response ?resp)), a)"
    and "handled (reach_server K src now load (make_try K k u) s) = handled s @ [req]"
    using srv v ov by (simp_all add: reach_server_def eq)
  show "session K sst ost lim n src (make_try K k u) (reach_server K src now load (make_try K k u) s)"
    using srv p(2) f' fb' a mu lq(1) by (auto simp: session_def reach_server_def eq)
qed

lemma lost_try_step:
  assumes c: "callable K auth sst ost w lim req" and s: "session K sst ost lim (Suc n) src (fst us) (snd us)"
    and k: "calling k req m (fst us)" and m: "m < MAX_REQUEST_RETRIES"
  shows "session K sst ost lim n src (fst (lost_try K src k us l)) (snd (lost_try K src k us l))"
    and "calling k req (Suc m) (fst (lost_try K src k us l))"
    and "handled (snd (lost_try K src k us l)) = handled (snd us) @ (if l = RequestLost then [] else [req])"
proof -
  let ?u = "make_try K k (fst us)"
  note t = try_made [OF c s k]
  have k': "k < length (ut_calls ?u)" "uc_phase (ut_calls ?u ! k) = Awaiting_Reply m" "uc_req (ut_calls ?u ! k) = req"
    "outcome (ut_table ?u) (uc_shot (ut_calls ?u ! k)) = Waiting"
    using k t(2,3) by (simp_all add: calling_def insert_new_simps)
  have e: "fst (lost_try K src k us l) = ?u\<lparr>ut_table := take_out (req_id req) Dropped (ut_table ?u),
      ut_calls := (ut_calls ?u)[k := (ut_calls ?u ! k)\<lparr>uc_phase := Trying (Suc m)\<rparr>]\<rparr>"
    using expire_eq [OF k'(1,2,4) m, of "ctx K"] k'(3) by (simp add: lost_try_def Let_def)
  show "session K sst ost lim n src (fst (lost_try K src k us l)) (snd (lost_try K src k us l))"
  proof (cases l)
    case RequestLost
    have "snd (lost_try K src k us l) = snd us" using RequestLost by (simp add: lost_try_def Let_def)
    then show ?thesis using t(1) by (simp add: e session_def)
  next
    case (ReplyLost now load)
    have "snd (lost_try K src k us l) = reach_server K src now load ?u (snd us)" using ReplyLost by (simp add: lost_try_def Let_def)
    then show ?thesis using t(6) [of now load] by (simp add: e session_def)
  qed
  show "calling k req (Suc m) (fst (lost_try K src k us l))" using k' by (simp add: e calling_def)
  show "handled (snd (lost_try K src k us l)) = handled (snd us) @ (if l = RequestLost then [] else [req])"
    using t(5) by (cases l) (simp_all add: lost_try_def Let_def)
qed

lemma good_try_step:
  assumes c: "callable K auth sst ost w lim req" and s: "session K sst ost lim (Suc n) src (fst us) (snd us)"
    and k: "calling k req m (fst us)"
  shows "uc_phase (ut_calls (fst (good_try K src k now load us)) ! k) =
      Returned (Inr (svc_handle (service K) (handled (snd us)) req))"
    and "handled (snd (good_try K src k now load us)) = handled (snd us) @ [req]"
proof -
  let ?u = "make_try K k (fst us)"
  note t = try_made [OF c s k]
  obtain v a where v: "sent_dgrams (reach_server K src now load ?u (snd us)) = sent_dgrams (snd us) @ [(src, v)]" "length v \<le> MAX_UDP"
    and o: "open_datagram (records (ctx K)) (json (ctx K)) (ut_chan ?u) v =
      (Inr (Some (Response (svc_handle (service K) (handled (snd us)) req))), a)" using t(4) by blast
  have k': "k < length (ut_calls ?u)" "uc_phase (ut_calls ?u ! k) = Awaiting_Reply m"
    "uc_shot (ut_calls ?u ! k) < length (ct_shots (ut_table ?u))"
    "fmlookup (ct_map (ut_table ?u)) (resp_id (svc_handle (service K) (handled (snd us)) req)) = Some (uc_shot (ut_calls ?u ! k))"
    using k t(2,3) c by (simp_all add: calling_def insert_new_simps callable_def)
  have lq: "ut_pump ?u = Looping" "ut_queue ?u = []" using t(1) by (simp_all add: session_def)
  show "uc_phase (ut_calls (fst (good_try K src k now load us)) ! k) =
      Returned (Inr (svc_handle (service K) (handled (snd us)) req))"
    using reply_eq [OF k'(1,2) lq v(2) o k'(3,4)] v(1) by (simp add: good_try_def Let_def)
  show "handled (snd (good_try K src k now load us)) = handled (snd us) @ [req]"
    using t(5) by (simp add: good_try_def Let_def)
qed

lemma lost_tries:
  assumes c: "callable K auth sst ost w lim req"
  shows "session K sst ost lim (length ls + n) src (fst us) (snd us) \<Longrightarrow> calling k req m (fst us) \<Longrightarrow>
    m + length ls \<le> MAX_REQUEST_RETRIES \<Longrightarrow>
    session K sst ost lim n src (fst (foldl (lost_try K src k) us ls)) (snd (foldl (lost_try K src k) us ls)) \<and>
    calling k req (m + length ls) (fst (foldl (lost_try K src k) us ls)) \<and>
    handled (snd (foldl (lost_try K src k) us ls)) = handled (snd us) @ replicate (length (filter (\<lambda>l. l \<noteq> RequestLost) ls)) req"
proof (induction ls arbitrary: us m)
  case (Cons l ls)
  have s: "session K sst ost lim (Suc (length ls + n)) src (fst us) (snd us)" and m: "m < MAX_REQUEST_RETRIES" using Cons.prems by simp_all
  note st = lost_try_step [OF c s Cons.prems(2) m, of l]
  have "Suc m + length ls \<le> MAX_REQUEST_RETRIES" using Cons.prems(3) by simp
  from Cons.IH [OF st(1,2) this] show ?case using st(3) by simp
qed simp

lemma call_with_losses:
  assumes "callable K auth sst ost w lim req" and "session K sst ost lim (Suc (length ls)) src u s" and "ut_alive u"
    and "length ls \<le> MAX_REQUEST_RETRIES"
  shows "let k = length (ut_calls u); m = length (filter (\<lambda>l. l \<noteq> RequestLost) ls);
      us = foldl (lost_try K src k) (udp_client_step (ctx K) u (UCall req), s) ls;
      us' = good_try K src k now load us
    in uc_phase (ut_calls (fst us') ! k) = Returned (Inr (svc_handle (service K) (handled s @ replicate m req) req)) \<and>
       handled (snd us') = handled s @ replicate (Suc m) req"
proof -
  let ?u = "udp_client_step (ctx K) u (UCall req)"
  have u: "calling (length (ut_calls u)) req 0 ?u" "session K sst ost lim (length ls + 1) src ?u s"
    using assms(2,3) by (simp_all add: udp_client_step_def request_start_def calling_def session_def)
  have l: "0 + length ls \<le> MAX_REQUEST_RETRIES" using assms(4) by simp
  from lost_tries [OF assms(1), of ls 1 src "(?u, s)", simplified, OF _ u(1)] u(2) l
  have t: "session K sst ost lim (Suc 0) src (fst (foldl (lost_try K src (length (ut_calls u))) (?u, s) ls))
        (snd (foldl (lost_try K src (length (ut_calls u))) (?u, s) ls))"
      "calling (length (ut_calls u)) req (length ls) (fst (foldl (lost_try K src (length (ut_calls u))) (?u, s) ls))"
      "handled (snd (foldl (lost_try K src (length (ut_calls u))) (?u, s) ls)) =
        handled s @ replicate (length (filter (\<lambda>l. l \<noteq> RequestLost) ls)) req" by simp_all
  from good_try_step [OF assms(1) t(1,2), of now load] show ?thesis by (simp add: Let_def t(3) replicate_append_same)
qed

subsection \<open>Events\<close>

lemma event_received:
  assumes "ut_pump u = Looping" and "ut_queue u = []" and "length d \<le> MAX_UDP"
    and "open_datagram (records U) (json U) (ut_chan u) d = (Inr (Some (Event ev)), ch)"
    and "j < length (ut_subs u)" and "ut_subs u ! j = Attached topic past []"
  shows "fst (udp_subscribe_next D j (udp_client_step U u (UPumpRecv (Inr d)))) = fst (event_stream D topic True past [ev])"
  using assms
  by (simp add: udp_client_step_def udp_pump_def udp_pump_recv_def Let_def udp_subscribe_next_def broadcast_def retain_last_def
      EVENT_CAPACITY_def split: prod.split del: event_stream.simps)

subsection \<open>A concrete session\<close>

definition demo_ask :: "unit request" where
  "demo_ask = \<lparr>req_id = ''a'', req_body = ()\<rparr>"

definition demo_client_state :: "(unit, nat, bytes \<times> nat, bytes \<times> nat list) udp_transport" where
  "demo_client_state = new_udp_transport demo_server demo_chan 0 None"

definition demo_peer_state ::
  "(unit, nat, bytes \<times> nat \<times> bytes option, bytes \<times> nat, bytes \<times> nat list, bytes \<times> bytes) udp_server" where
  "demo_peer_state = demo_start\<lparr>peers := fmupd demo_client \<lparr>peer_conn = 0, last_seen = 0\<rparr> fmempty,
     conns := [\<lparr>conn_chan = demo_chan, conn_dst = demo_client, conn_queue = [], conn_rng = 0\<rparr>]\<rparr>"

lemma demo_sealable:
  assumes "plain_to_vec env = Inr p" and "serde_ok plain_serde env" and "length p \<le> 1000"
  shows "sealable demo_ctx id 256 env"
  using assms by (auto simp: sealable_def demo_ctx_def plain_serde_def clear_records_def clear_seal_def passthrough_def encode_inner_def MAX_UDP_def)

lemma demo_callable: "callable demo_cfg clear_auth id (\<lambda>(k, seen). (k, set seen)) 64 256 demo_ask"
  using demo_ctx_records demo_sealable [of "Request demo_ask" "[2, 97]"] demo_sealable [of "Response \<lparr>resp_id = ''a'', resp_body = ()\<rparr>" "[3, 97]"]
  by (simp add: callable_def demo_cfg_def demo_service_def demo_ask_def demo_ctx_def passthrough_ok str_bytes_def)

lemma demo_feeds: "n \<le> 256 \<Longrightarrow> feeds id (\<lambda>(k, seen). (k, set seen)) 256 n demo_chan demo_chan"
  by (simp add: feeds_def demo_chan_def data_channel_new_def clear_records_def demo_key_def)

lemma demo_session: "n \<le> 256 \<Longrightarrow> session demo_cfg id (\<lambda>(k, seen). (k, set seen)) 256 n demo_client demo_client_state demo_peer_state"
  using demo_feeds [of n]
  by (simp add: session_def demo_client_state_def demo_peer_state_def new_udp_transport_def demo_cfg_def demo_ctx_def
      demo_chan_def data_channel_new_def)

subsection \<open>Properties\<close>

text \<open>
  A remote call over UDP survives loss. In a session, whichever of at most 10 tries lose their
  request or their reply, the call returns the service's response on the next try that loses neither;
  and the service has handled the request once for that try and once for every reply that was lost,
  so at least once and not exactly once.
\<close>

theorem udp_call_survives_loss:
  assumes "callable K auth sst ost w lim req" and "session K sst ost lim (Suc (length ls)) src u s" and "ut_alive u"
    and "length ls \<le> MAX_REQUEST_RETRIES"
  shows "let k = length (ut_calls u); m = length (filter (\<lambda>l. l \<noteq> RequestLost) ls);
      us = foldl (lost_try K src k) (udp_client_step (ctx K) u (UCall req), s) ls;
      us' = good_try K src k now load us
    in uc_phase (ut_calls (fst us') ! k) = Returned (Inr (svc_handle (service K) (handled s @ replicate m req) req)) \<and>
       handled (snd us') = handled s @ replicate (Suc m) req"
  using assms by (rule call_with_losses)

theorem udp_call_survives_loss_witness:
  "let k = length (ut_calls demo_client_state); m = length (filter (\<lambda>l. l \<noteq> RequestLost) [RequestLost, ReplyLost 5 True]);
      us = foldl (lost_try demo_cfg demo_client k) (udp_client_step (ctx demo_cfg) demo_client_state (UCall demo_ask), demo_peer_state)
        [RequestLost, ReplyLost 5 True];
      us' = good_try demo_cfg demo_client k 9 False us
    in uc_phase (ut_calls (fst us') ! k) =
         Returned (Inr (svc_handle (service demo_cfg) (handled demo_peer_state @ replicate m demo_ask) demo_ask)) \<and>
       handled (snd us') = handled demo_peer_state @ replicate (Suc m) demo_ask"
  by (rule udp_call_survives_loss [OF demo_callable demo_session])
    (simp_all add: demo_client_state_def new_udp_transport_def MAX_REQUEST_RETRIES_def)

text \<open>
  C37. An event reaches its subscriber. In a session whose client has one subscription to the topic of
  an event and nothing else under way, an event published on the source is forwarded, sealed and sent
  to the client's address. If the datagram arrives, the stream that \<^verbatim>\<open>subscribe\<close> returned for this topic
  yields the event next, its sequence number being greater than those before it, whatever the stream
  has yielded so far; and the streams of other topics yield nothing.
\<close>

theorem udp_event_delivered:
  assumes rc: "record_contract (records (ctx K)) auth sst ost w" and m: "mimicry_ok (profile (ctx K))" and se: "sealable (ctx K) sst lim (Event ev)"
    and dd: "dedup_contract seq_of D"
    and ses: "session K sst ost lim (Suc n) src u s" and inv: "linked s" and p: "fmlookup (peers s) src = Some p"
    and sub: "filter (\<lambda>sub. sub_source sub = a \<and> sub_topic sub = ev_topic ev) (subs s) = [sub]" "sub_conn sub = peer_conn p"
    and idle: "conn_queue (conns s ! peer_conn p) = []" "out_queue s = []"
    and j: "j < length (ut_subs u)" "ut_subs u ! j = Attached (ev_topic ev) past []"
    and seq: "\<And>e. e \<in> set past \<Longrightarrow> ev_topic e = ev_topic ev \<Longrightarrow> seq_of e < seq_of ev"
  shows "\<exists>d. sent_dgrams (foldl (udp_step K) s [Publish a ev [], SealNext (peer_conn p), SendNext]) = sent_dgrams s @ [(src, d)] \<and>
    fst (udp_subscribe_next D j (udp_client_step (ctx K) u (UPumpRecv (Inr d)))) = Item ev \<and>
    (\<forall>i topic past'. i < length (ut_subs u) \<longrightarrow> ut_subs u ! i = Attached topic past' [] \<longrightarrow> topic \<noteq> ev_topic ev \<longrightarrow>
       fst (udp_subscribe_next D i (udp_client_step (ctx K) u (UPumpRecv (Inr d)))) = Pending_Item)"
proof -
  let ?c = "conns s ! peer_conn p"
  have l: "peer_conn p < length (conns s)" and mu: "mimic (ut_chan u) = profile (ctx K)" and u: "ut_pump u = Looping" "ut_queue u = []"
    and f: "feeds sst ost lim (Suc n) (conn_chan ?c) (ut_chan u)" using ses p by (auto simp: session_def)
  have "dsts s ! peer_conn p = src" using inv p unfolding linked_def by blast
  then have dst: "conn_dst ?c = src" using l by (simp add: dsts_def)
  have mc: "mimic (conn_chan ?c) = profile (ctx K)" using f mu by (simp add: feeds_def)
  obtain d ch g a' where d: "seal_envelope (records (ctx K)) (json (ctx K)) (conn_chan ?c) (Event ev) (conn_rng ?c) = (Inr d, ch, g)"
    "length d \<le> MAX_UDP" "open_datagram (records (ctx K)) (json (ctx K)) (ut_chan u) d = (Inr (Some (Event ev)), a')"
    using transfer [OF rc m mc f se] by metis
  have "sent_dgrams (foldl (udp_step K) s [Publish a ev [], SealNext (peer_conn p), SendNext]) = sent_dgrams s @ [(src, d)]"
    using forwarded [OF sub(1), of K d ch g] sub(2) l idle d(1) dst by simp
  moreover have "fst (udp_subscribe_next D j (udp_client_step (ctx K) u (UPumpRecv (Inr d)))) = Item ev"
    using event_received [OF u d(2,3) j, of D] event_stream_yields [OF dd refl seq, of past True "[]"] by simp
  moreover have "fst (udp_subscribe_next D i (udp_client_step (ctx K) u (UPumpRecv (Inr d)))) = Pending_Item"
    if "i < length (ut_subs u)" "ut_subs u ! i = Attached topic past' []" "topic \<noteq> ev_topic ev" for i topic past'
    using event_received [OF u d(2,3) that(1,2), of D] event_stream_other [OF dd that(3) [symmetric], of True past' "[]"]
    by (simp add: next_item_def)
  ultimately show ?thesis by blast
qed

theorem udp_event_delivered_witness:
  "\<exists>d. sent_dgrams (foldl (udp_step demo_cfg) (demo_peer_state\<lparr>subs := [\<lparr>sub_source = 0, sub_topic = ''t'', sub_conn = 0\<rparr>]\<rparr>)
        [Publish 0 \<lparr>ev_topic = ''t'', ev_body = ()\<rparr> [], SealNext (peer_conn \<lparr>peer_conn = 0, last_seen = 0\<rparr>), SendNext]) =
      sent_dgrams (demo_peer_state\<lparr>subs := [\<lparr>sub_source = 0, sub_topic = ''t'', sub_conn = 0\<rparr>]\<rparr>) @ [(demo_client, d)] \<and>
    fst (udp_subscribe_next (newest_only (\<lambda>_. 0)) 0
      (udp_client_step (ctx demo_cfg) (demo_client_state\<lparr>ut_subs := [Attached ''t'' [\<lparr>ev_topic = ''x'', ev_body = ()\<rparr>] []]\<rparr>) (UPumpRecv (Inr d)))) =
      Item \<lparr>ev_topic = ''t'', ev_body = ()\<rparr>"
proof -
  let ?s = "demo_peer_state\<lparr>subs := [\<lparr>sub_source = 0, sub_topic = ''t'', sub_conn = 0\<rparr>]\<rparr>"
  let ?u = "demo_client_state\<lparr>ut_subs := [Attached ''t'' [\<lparr>ev_topic = ''x'', ev_body = ()\<rparr>] []]\<rparr>"
  have r: "record_contract (records (ctx demo_cfg)) clear_auth id (\<lambda>(k, seen). (k, set seen)) 64" "mimicry_ok (profile (ctx demo_cfg))"
    using demo_callable by (simp_all add: callable_def)
  have e: "sealable (ctx demo_cfg) id 256 (Event \<lparr>ev_topic = ''t'', ev_body = ()\<rparr>)"
    using demo_sealable [of "Event \<lparr>ev_topic = ''t'', ev_body = ()\<rparr>" "[5, 116]"] by (simp add: demo_cfg_def str_bytes_def)
  have s: "session demo_cfg id (\<lambda>(k, seen). (k, set seen)) 256 (Suc 0) demo_client ?u ?s"
    using demo_session [of "Suc 0"] by (simp add: session_def)
  have i: "linked ?s" by (simp add: linked_def dsts_def demo_peer_state_def demo_start_def serve_obfs_udp_def)
  show ?thesis
    using udp_event_delivered [OF r e dedup_contract_newest [of "\<lambda>_. 0"] s i, of "\<lparr>peer_conn = 0, last_seen = 0\<rparr>" 0
        "\<lparr>sub_source = 0, sub_topic = ''t'', sub_conn = 0\<rparr>" 0 "[\<lparr>ev_topic = ''x'', ev_body = ()\<rparr>]"]
    by (simp add: demo_peer_state_def demo_start_def serve_obfs_udp_def)
qed

end
