(* ===== verification/Udp_Establish.thy ===== *)
theory Udp_Establish
  imports Udp_Session
begin

text \<open>
  The UDP handshake between the client of \<^verbatim>\<open>udp/client.rs\<close> and the server of \<^verbatim>\<open>udp/server.rs\<close>, with and
  without a cookie challenge, up to a session as \<open>Udp_Session\<close> has it; and what a repeated third
  message does.

  \<open>handshaking\<close> collects what the two sides rely on: the contracts of Noise, cookies, records,
  mimicry, generator and keyed hash, and that handshake datagrams fit the buffers.
\<close>

definition hs_fits :: "('x, 'g, 'h, 'sl, 'op) udp_ctx \<Rightarrow> bool" where
  "hs_fits U \<longleftrightarrow> (\<forall>ty msg g. length msg \<le> 146 \<longrightarrow> length (fst (shape_hs ty msg (profile U) g)) \<le> MAX_UDP)"

definition mac_ok :: "mac_fn \<Rightarrow> bool" where
  "mac_ok m \<longleftrightarrow> (\<forall>key label. length key = 32 \<longrightarrow> length (m key label) = 32)"

definition handshaking ::
  "('x, 'g, 'h, 'sl, 'op, 'c) udp_server_cfg \<Rightarrow> (bytes \<Rightarrow> bytes) \<Rightarrow> (bytes \<Rightarrow> (bytes \<times> nat \<times> bytes) option) \<Rightarrow>
   ('sl \<Rightarrow> bytes \<times> nat) \<Rightarrow> ('op \<Rightarrow> bytes \<times> nat set) \<Rightarrow> nat \<Rightarrow> nat \<Rightarrow> bool" where
  "handshaking K pub auth sst ost w lim \<longleftrightarrow>
     noise_contract (noise (ctx K)) pub \<and> cookie_contract (cookies K) \<and>
     record_contract (records (ctx K)) auth sst ost w \<and> mimicry_ok (profile (ctx K)) \<and> fill_ok (ctx K) \<and>
     mac_ok (mac (ctx K)) \<and> hs_fits (ctx K) \<and> sealable (ctx K) sst lim Pong"

definition hs_wire :: "('x, 'g, 'h, 'sl, 'op) udp_ctx \<Rightarrow> dgram_type \<Rightarrow> bytes \<Rightarrow> bytes \<Rightarrow> bool" where
  "hs_wire U ty msg d \<longleftrightarrow> unshape_hs d (profile U) = Some (ty, msg) \<and> length d \<le> MAX_UDP"

lemma shape_hs_wire:
  assumes "hs_fits U" and "mimicry_ok (profile U)" and "length msg \<le> 146" and "shape_hs ty msg (profile U) g = (d, g')"
  shows "hs_wire U ty msg d"
  using assms unshape_shape_hs [OF assms(2,4)] unfolding hs_wire_def hs_fits_def by (metis fst_conv)

subsection \<open>The server's steps\<close>

lemma fits_buffers [simp]:
  "length d \<le> MAX_UDP \<Longrightarrow> take SRV_MAX_DGRAM d = d" "length d \<le> MAX_UDP \<Longrightarrow> take HS_MAX_DGRAM d = d"
  by (simp_all add: MAX_UDP_def SRV_MAX_DGRAM_def HS_MAX_DGRAM_def)

lemma step_hs:
  assumes "hs_wire (ctx K) ty msg d"
  shows "udp_step K s (Recv now load src d) =
    (case (case ty of Hs1 \<Rightarrow> handle_hs1 K now load src msg s | Hs3 \<Rightarrow> handle_hs3 K now src msg s
             | Data \<Rightarrow> handle_data K now src d s | _ \<Rightarrow> (True, s)) of
       (True, s') \<Rightarrow> cleanup now s' | (False, s') \<Rightarrow> s')"
proof -
  have "take SRV_MAX_DGRAM d = d" using assms by (simp add: hs_wire_def)
  then show ?thesis
    unfolding udp_step_def using assms by (cases ty) (auto simp: hs_wire_def unshape_hs_def handle_dgram_def split: option.splits)
qed

text \<open>Room for one more handshake.\<close>

definition has_room :: "('x, 'g, 'h, 'sl, 'op, 'c) udp_server \<Rightarrow> bool" where
  "has_room s \<longleftrightarrow> fmsize (peers s) < MAX_PEERS \<and> fmsize (pending s) < MAX_PENDING"

lemma step_challenge:
  assumes "hs_wire (ctx K) Hs1 body d" and "decode_msg1_framed body = Some (msg1, None)" and "has_room s"
    and "load \<or> PENDING_SOFT_LIMIT \<le> fmsize (pending s)"
    and "shape_hs Cookie (ck_make (cookies K) (cookie_secret s) (src_bytes src)) (profile (ctx K)) (srv_rng s) = (wc, g)"
  shows "udp_step K s (Recv now load src d) = cleanup now (sock_send src wc (s\<lparr>srv_rng := g, entropy := Suc (entropy s)\<rparr>))"
proof -
  have "process_hs1 (noise (ctx K)) (cookies K) (entropy s) body src (server_priv K) (cookie_secret s) always_under_load
      (profile (ctx K)) (srv_rng s) = (Inr (Some (CookieReply wc)), g)"
    using process_hs1_challenge [OF assms(2), of always_under_load "cookies K" "cookie_secret s" src "noise (ctx K)"
        "entropy s" "server_priv K" "profile (ctx K)"] assms(5)
    by (simp add: always_under_load_def)
  then show ?thesis using assms(1,3,4) by (simp add: step_hs has_room_def handle_hs1_def Let_def)
qed

lemma step_respond:
  assumes "hs_wire (ctx K) Hs1 body d" and "decode_msg1_framed body = Some (msg1, c)" and "has_room s"
    and "(load \<or> PENDING_SOFT_LIMIT \<le> fmsize (pending s)) \<longrightarrow>
      (\<exists>ck. c = Some ck \<and> ck_verify (cookies K) (cookie_secret s) (src_bytes src) ck)"
    and "hs_responder (noise (ctx K)) (entropy s) (server_priv K) = Inr r0" and "hs_read (noise (ctx K)) r0 msg1 = (Inr x, r1)"
    and "hs_write (noise (ctx K)) r1 [] = (Inr msg2, r2)" and "shape_hs Hs2 msg2 (profile (ctx K)) (srv_rng s) = (w2, g)"
  shows "udp_step K s (Recv now load src d) = cleanup now (sock_send src w2
    (s\<lparr>srv_rng := g, entropy := Suc (entropy s), pending := fmupd src \<lparr>responder = r2, created_at = now\<rparr> (pending s)\<rparr>))"
  using assms
  by (auto simp: step_hs has_room_def handle_hs1_def Let_def process_hs1_def always_open_def always_under_load_def)

lemma step_complete:
  assumes "hs_wire (ctx K) Hs3 msg3 d" and "fmlookup (pending s) src = Some ph"
    and "complete_handshake_msg3 (ctx K) (responder ph) msg3 = Inr (ch, static)" and "auth_gate K static = Inr ()"
    and "seal_envelope (records (ctx K)) (json (ctx K)) ch Pong (srv_rng s) = (Inr w4, ch', g)"
  shows "let s' = udp_step K s (Recv now load src d)
    in sent_dgrams s' = sent_dgrams s @ [(src, w4)] \<and> handled s' = handled s \<and> fmlookup (peers s') src = Some \<lparr>peer_conn = length (conns s), last_seen = now\<rparr> \<and>
       length (conns s') = Suc (length (conns s)) \<and> conn_chan (conns s' ! length (conns s)) = ch'"
  using assms
  by (simp add: step_hs handle_hs3_def Let_def seal_and_send_def set_chan_def sock_send_def cleanup_def fmlookup_retain PEER_IDLE_TIMEOUT_def)

lemma cleanup_room: "has_room s \<Longrightarrow> has_room (cleanup now s)"
  using fmsize_retain_le [of _ "peers s"] fmsize_retain_le [of _ "pending s"]
  by (auto simp: has_room_def cleanup_def intro: le_less_trans)

subsection \<open>The client's steps\<close>

lemma msg1_loop_msg2:
  assumes "shape_hs Hs1 (encode_msg1_framed msg1 c) (profile U) g = (d, g')" and "send_script sk = []"
    and "inbox sk = Dgram server w2 # es" and "hs_wire U Hs2 msg2 w2"
  shows "msg1_loop (Suc n) server (profile U) msg1 c sk g =
    (Inr (Some msg2), sk\<lparr>sent := sent sk @ [(server, d)], inbox := es\<rparr>, g')"
  using assms by (simp add: send_to_def hs_wire_def)

lemma msg1_loop_cookie:
  assumes "shape_hs Hs1 (encode_msg1_framed msg1 c) (profile U) g = (d, g')" and "send_script sk = []"
    and "inbox sk = Dgram server wc # es" and "hs_wire U Cookie ck wc" and "length ck = 16"
  shows "msg1_loop (Suc n) server (profile U) msg1 c sk g =
    msg1_loop n server (profile U) msg1 (Some ck) (sk\<lparr>sent := sent sk @ [(server, d)], inbox := es\<rparr>) g'"
  using assms by (simp add: send_to_def hs_wire_def decode_cookie_def)

lemma finish_ready:
  assumes "hs_read (noise U) i1 msg2 = (Inr x, i2)" and "hs_write (noise U) i2 seed = (Inr msg3, i3)"
    and "shape_hs Hs3 msg3 (profile U) g = (w3, g')" and "send_script sk = []" and "inbox sk = Dgram server w4 # es"
    and "length w4 \<le> MAX_UDP" and "derive_record_keys (mac U) seed = (kc, ks)"
    and "open_datagram (records U) (json U) (data_channel_new (sealer_new (records U) kc) (opener_new (records U) ks) (profile U)) w4 =
      (Inr (Some env), ch)"
  shows "finish_attempt U server seed i1 msg2 sk g = (Some (Inr ch), sk\<lparr>sent := sent sk @ [(server, w3)], inbox := es\<rparr>, g')"
  using assms by (simp add: finish_attempt_def await_ready_def send_to_def wait_ready.simps)

subsection \<open>A run of both sides\<close>

text \<open>
  The messages of one Noise run with a given payload, from the initiator's state after the first
  message and the responder's state before it.
\<close>

definition xk_messages ::
  "'h noise_api \<Rightarrow> 'h \<Rightarrow> 'h \<Rightarrow> bytes \<Rightarrow> bytes \<Rightarrow> bytes \<Rightarrow> bytes \<Rightarrow> bytes \<Rightarrow> 'h \<Rightarrow> bool" where
  "xk_messages N i1 r0 payload static msg1 msg2 msg3 r2 \<longleftrightarrow>
     (\<exists>r1 i2 i3 r3. hs_read N r0 msg1 = (Inr [], r1) \<and> hs_write N r1 [] = (Inr msg2, r2) \<and>
        hs_read N i1 msg2 = (Inr [], i2) \<and> hs_write N i2 payload = (Inr msg3, i3) \<and>
        hs_read N r2 msg3 = (Inr payload, r3) \<and> hs_remote_static N r3 = Some static \<and>
        length msg1 \<le> 128 \<and> length msg2 \<le> 128 \<and> length msg3 \<le> 128)"

lemma noise_runs:
  assumes "noise_contract N pub" and "length client = 32" and "length server = 32" and "length payload = 32"
  obtains i0 msg1 i1 where "hs_initiator N e client (pub server) = Inr i0" and "hs_write N i0 [] = (Inr msg1, i1)" and "length msg1 \<le> 128"
    and "\<And>e'. \<exists>r0 msg2 msg3 r2. hs_responder N e' server = Inr r0 \<and> xk_messages N i1 r0 payload (pub client) msg1 msg2 msg3 r2"
proof -
  have c: "\<exists>i0 r0. hs_initiator N e client (pub server) = Inr i0 \<and> hs_responder N e' server = Inr r0 \<and> xk_run N i0 r0 payload (pub client)" for e'
    using assms unfolding noise_contract_def by fastforce
  then obtain i0 where i0: "hs_initiator N e client (pub server) = Inr i0" by blast
  obtain msg1 i1 where m: "hs_write N i0 [] = (Inr msg1, i1)" "length msg1 \<le> 128"
    using c [of 0] i0 by (auto simp: xk_run_def)
  show thesis
  proof (rule that [OF i0 m])
    fix e'
    obtain r0 where "hs_responder N e' server = Inr r0" and "xk_run N i0 r0 payload (pub client)" using c [of e'] i0 by auto
    then show "\<exists>r0 msg2 msg3 r2. hs_responder N e' server = Inr r0 \<and> xk_messages N i1 r0 payload (pub client) msg1 msg2 msg3 r2"
      using m unfolding xk_run_def xk_messages_def by (metis Pair_inject sum.inject(2))
  qed
qed

lemma client_start:
  assumes H: "handshaking K pub auth sst ost w lim" and len: "length client = 32" "length (server_priv K) = 32"
  obtains seed g1 i0 msg1 i1 where "fill_bytes (ctx K) 32 g = (seed, g1)" and "length seed = 32"
    and "hs_initiator (noise (ctx K)) ent client (pub (server_priv K)) = Inr i0" and "hs_write (noise (ctx K)) i0 [] = (Inr msg1, i1)"
    and "length msg1 \<le> 128"
    and "\<And>e'. \<exists>r0 msg2 msg3 r2. hs_responder (noise (ctx K)) e' (server_priv K) = Inr r0 \<and>
      xk_messages (noise (ctx K)) i1 r0 seed (pub client) msg1 msg2 msg3 r2"
proof -
  have H': "noise_contract (noise (ctx K)) pub" "fill_ok (ctx K)" using H by (simp_all add: handshaking_def)
  obtain seed g1 where seed: "fill_bytes (ctx K) 32 g = (seed, g1)" "length seed = 32" using H'(2) by (metis fill_ok_def fst_conv surj_pair)
  show thesis by (rule noise_runs [OF H'(1) len seed(2), of ent]) (rule that [OF seed], blast+)
qed

lemma fresh_channels:
  assumes "record_contract (records U) auth sst ost w" and "mac_ok (mac U)" and "length seed = 32"
    and "derive_record_keys (mac U) seed = (kc, ks)" and "n \<le> lim"
  shows "feeds sst ost lim n (data_channel_new (sealer_new (records U) kc) (opener_new (records U) ks) (profile U))
      (data_channel_new (sealer_new (records U) ks) (opener_new (records U) kc) (profile U))"
    and "feeds sst ost lim n (data_channel_new (sealer_new (records U) ks) (opener_new (records U) kc) (profile U))
      (data_channel_new (sealer_new (records U) kc) (opener_new (records U) ks) (profile U))"
  using assms by (auto simp: feeds_def data_channel_new_def record_contract_new [OF assms(1)] derive_record_keys_def derive_key_def mac_ok_def)

text \<open>
  \<open>hears\<close>: the client, from the loop of the first message on, hears \<open>downs\<close> from the server, sends \<open>ups\<close>
  and ends with channel \<open>ch\<close>. \<open>answers\<close>: the server, receiving \<open>ups\<close> at any times, sends \<open>downs\<close> and has
  a peer whose channel and \<open>ch\<close> feed each other.
\<close>

definition hears ::
  "('x, 'g, 'h, 'sl, 'op) udp_ctx \<Rightarrow> socket_addr \<Rightarrow> bytes \<Rightarrow> 'h \<Rightarrow> bytes \<Rightarrow> bytes option \<Rightarrow> 'g \<Rightarrow> bytes list \<Rightarrow> bytes list \<Rightarrow>
   ('sl, 'op, 'g) data_channel \<Rightarrow> bool" where
  "hears U server seed i1 msg1 c g downs ups ch \<longleftrightarrow>
     (\<exists>msg2 g1 g2. \<forall>sk es m. send_script sk = [] \<longrightarrow> inbox sk = map (Dgram server) downs @ es \<longrightarrow>
        (\<exists>sk1. msg1_loop (m + length downs) server (profile U) msg1 c sk g = (Inr (Some msg2), sk1, g1) \<and>
           finish_attempt U server seed i1 msg2 sk1 g1 =
             (Some (Inr ch), sk\<lparr>sent := sent sk @ map (Pair server) ups, inbox := es\<rparr>, g2)))"

definition answers ::
  "('x, 'g, 'h, 'sl, 'op, 'c) udp_server_cfg \<Rightarrow> ('sl \<Rightarrow> bytes \<times> nat) \<Rightarrow> ('op \<Rightarrow> bytes \<times> nat set) \<Rightarrow> nat \<Rightarrow> nat \<Rightarrow> bool \<Rightarrow> socket_addr \<Rightarrow>
   ('x, 'g, 'h, 'sl, 'op, 'c) udp_server \<Rightarrow> bytes list \<Rightarrow> bytes list \<Rightarrow> ('sl, 'op, 'g) data_channel \<Rightarrow> bool" where
  "answers K sst ost lim n load src s ups downs ch \<longleftrightarrow>
     (\<forall>ts. length ts = length ups \<longrightarrow>
        (let s' = foldl (udp_step K) s (map2 (\<lambda>t d. Recv t load src d) ts ups)
         in sent_dgrams s' = sent_dgrams s @ map (Pair src) downs \<and> handled s' = handled s \<and>
            (\<exists>p. fmlookup (peers s') src = Some p \<and> peer_conn p < length (conns s') \<and>
               feeds sst ost lim n ch (conn_chan (conns s' ! peer_conn p)) \<and>
               feeds sst ost lim n (conn_chan (conns s' ! peer_conn p)) ch)))"

lemma answers_Cons:
  assumes "\<And>t. answers K sst ost lim n load src (udp_step K s (Recv t load src d)) ups downs ch"
    and "\<And>t. sent_dgrams (udp_step K s (Recv t load src d)) = sent_dgrams s @ [(src, w)]"
    and "\<And>t. handled (udp_step K s (Recv t load src d)) = handled s"
  shows "answers K sst ost lim n load src s (d # ups) (w # downs) ch"
  unfolding answers_def
proof (intro allI impI)
  fix ts :: "nat list"
  assume "length ts = length (d # ups)"
  then obtain t ts' where "ts = t # ts'" and "length ts' = length ups" by (cases ts) auto
  with assms(1) [of t] assms(2,3) [of t]
  show "let s' = foldl (udp_step K) s (map2 (\<lambda>t d. Recv t load src d) ts (d # ups))
    in sent_dgrams s' = sent_dgrams s @ map (Pair src) (w # downs) \<and> handled s' = handled s \<and>
       (\<exists>p. fmlookup (peers s') src = Some p \<and> peer_conn p < length (conns s') \<and>
          feeds sst ost lim n ch (conn_chan (conns s' ! peer_conn p)) \<and> feeds sst ost lim n (conn_chan (conns s' ! peer_conn p)) ch)"
    by (simp add: answers_def Let_def)
qed

lemma answers_last:
  assumes "hs_wire (ctx K) Hs3 msg3 d" and "fmlookup (pending s) src = Some ph"
    and "complete_handshake_msg3 (ctx K) (responder ph) msg3 = Inr (c, static)" and "auth_gate K static = Inr ()"
    and "seal_envelope (records (ctx K)) (json (ctx K)) c Pong (srv_rng s) = (Inr w4, c', g)"
    and "feeds sst ost lim n ch c'" and "feeds sst ost lim n c' ch"
  shows "answers K sst ost lim n load src s [d] [w4] ch"
  unfolding answers_def
proof (intro allI impI)
  fix ts :: "nat list"
  assume "length ts = length [d]"
  then obtain t where "ts = [t]" by (cases ts) auto
  with step_complete [OF assms(1-5), of t load] assms(6,7)
  show "let s' = foldl (udp_step K) s (map2 (\<lambda>t d. Recv t load src d) ts [d])
    in sent_dgrams s' = sent_dgrams s @ map (Pair src) [w4] \<and> handled s' = handled s \<and>
       (\<exists>p. fmlookup (peers s') src = Some p \<and> peer_conn p < length (conns s') \<and>
          feeds sst ost lim n ch (conn_chan (conns s' ! peer_conn p)) \<and> feeds sst ost lim n (conn_chan (conns s' ! peer_conn p)) ch)"
    by (simp add: Let_def)
qed

lemma hears_msg2:
  assumes "shape_hs Hs1 (encode_msg1_framed msg1 c) (profile U) g = (d, g1)" and "hs_wire U Hs2 msg2 w2"
    and "hs_read (noise U) i1 msg2 = (Inr x, i2)" and "hs_write (noise U) i2 seed = (Inr msg3, i3)"
    and "shape_hs Hs3 msg3 (profile U) g1 = (w3, g2)" and "length w4 \<le> MAX_UDP" and "derive_record_keys (mac U) seed = (kc, ks)"
    and "open_datagram (records U) (json U) (data_channel_new (sealer_new (records U) kc) (opener_new (records U) ks) (profile U)) w4 =
      (Inr (Some env), ch)"
  shows "hears U server seed i1 msg1 c g [w2, w4] [d, w3] ch"
  unfolding hears_def
proof (intro exI allI impI conjI)
  fix sk :: udp_sock and es m
  assume sk: "send_script sk = []" "inbox sk = map (Dgram server) [w2, w4] @ es"
  show "msg1_loop (m + length [w2, w4]) server (profile U) msg1 c sk g =
      (Inr (Some msg2), sk\<lparr>sent := sent sk @ [(server, d)], inbox := Dgram server w4 # es\<rparr>, g1)"
    using msg1_loop_msg2 [OF assms(1) sk(1) _ assms(2)] sk(2) by simp
  show "finish_attempt U server seed i1 msg2 (sk\<lparr>sent := sent sk @ [(server, d)], inbox := Dgram server w4 # es\<rparr>) g1 =
      (Some (Inr ch), sk\<lparr>sent := sent sk @ map (Pair server) [d, w3], inbox := es\<rparr>, g2)"
    using finish_ready [OF assms(3,4,5) _ _ assms(6,7,8)] sk(1) by simp
qed

lemma hears_cookie:
  assumes "shape_hs Hs1 (encode_msg1_framed msg1 None) (profile U) g = (d, g1)" and "hs_wire U Cookie ck wc" and "length ck = 16"
    and "hears U server seed i1 msg1 (Some ck) g1 downs ups ch"
  shows "hears U server seed i1 msg1 None g (wc # downs) (d # ups) ch"
proof -
  obtain msg2 g2 g3 where h: "\<And>sk es m. send_script sk = [] \<Longrightarrow> inbox sk = map (Dgram server) downs @ es \<Longrightarrow>
      \<exists>sk1. msg1_loop (m + length downs) server (profile U) msg1 (Some ck) sk g1 = (Inr (Some msg2), sk1, g2) \<and>
        finish_attempt U server seed i1 msg2 sk1 g2 = (Some (Inr ch), sk\<lparr>sent := sent sk @ map (Pair server) ups, inbox := es\<rparr>, g3)"
    using assms(4) unfolding hears_def by blast
  show ?thesis
    unfolding hears_def
  proof (rule exI [of _ msg2], rule exI [of _ g2], rule exI [of _ g3], intro allI impI)
    fix sk :: udp_sock and es m
    assume sk: "send_script sk = []" "inbox sk = map (Dgram server) (wc # downs) @ es"
    let ?sk = "sk\<lparr>sent := sent sk @ [(server, d)], inbox := map (Dgram server) downs @ es\<rparr>"
    have "msg1_loop (m + length (wc # downs)) server (profile U) msg1 None sk g =
        msg1_loop (m + length downs) server (profile U) msg1 (Some ck) ?sk g1"
      using msg1_loop_cookie [OF assms(1) sk(1) _ assms(2,3), where n = "m + length downs"] sk(2) by simp
    then show "\<exists>sk1. msg1_loop (m + length (wc # downs)) server (profile U) msg1 None sk g = (Inr (Some msg2), sk1, g2) \<and>
        finish_attempt U server seed i1 msg2 sk1 g2 =
          (Some (Inr ch), sk\<lparr>sent := sent sk @ map (Pair server) (d # ups), inbox := es\<rparr>, g3)"
      using h [of ?sk es m] sk(1) by simp
  qed
qed

lemma complete_run:
  assumes H: "handshaking K pub auth sst ost w lim" and lim: "Suc n \<le> lim" and gate: "auth_gate K static = Inr ()"
    and seed: "length seed = 32" and r0: "hs_responder (noise (ctx K)) e (server_priv K) = Inr r0"
    and xk: "xk_messages (noise (ctx K)) i1 r0 seed static msg1 msg2 msg3 r2"
    and d: "shape_hs Hs1 (encode_msg1_framed msg1 c) (profile (ctx K)) g = (d, g1)" and dw: "hs_wire (ctx K) Hs1 (encode_msg1_framed msg1 c) d"
    and dec: "decode_msg1_framed (encode_msg1_framed msg1 c) = Some (msg1, c)"
  obtains w2 w3 w4 ch where "hears (ctx K) server seed i1 msg1 c g [w2, w4] [d, w3] ch" and "mimic ch = profile (ctx K)"
    and "\<And>s. has_room s \<Longrightarrow> entropy s = e \<Longrightarrow> srv_rng s = gr \<Longrightarrow>
      (load \<or> PENDING_SOFT_LIMIT \<le> fmsize (pending s)) \<longrightarrow> (\<exists>k. c = Some k \<and> ck_verify (cookies K) (cookie_secret s) (src_bytes src) k) \<Longrightarrow>
      answers K sst ost lim n load src s [d, w3] [w2, w4] ch"
proof -
  let ?U = "ctx K"
  have H': "record_contract (records ?U) auth sst ost w" "mimicry_ok (profile ?U)" "mac_ok (mac ?U)" "hs_fits ?U" "sealable ?U sst lim Pong"
    using H by (simp_all add: handshaking_def)
  obtain r1 i2 i3 r3 where x: "hs_read (noise ?U) r0 msg1 = (Inr [], r1)" "hs_write (noise ?U) r1 [] = (Inr msg2, r2)"
    "hs_read (noise ?U) i1 msg2 = (Inr [], i2)" "hs_write (noise ?U) i2 seed = (Inr msg3, i3)"
    "hs_read (noise ?U) r2 msg3 = (Inr seed, r3)" "hs_remote_static (noise ?U) r3 = Some static"
    and l: "length msg2 \<le> 146" "length msg3 \<le> 146" using xk by (auto simp: xk_messages_def)
  obtain w2 gs where w2: "shape_hs Hs2 msg2 (profile ?U) gr = (w2, gs)" by fastforce
  obtain w3 g2 where w3: "shape_hs Hs3 msg3 (profile ?U) g1 = (w3, g2)" by fastforce
  note wires = shape_hs_wire [OF H'(4,2) l(1) w2] shape_hs_wire [OF H'(4,2) l(2) w3]
  obtain kc ks where keys: "derive_record_keys (mac ?U) seed = (kc, ks)" by fastforce
  let ?cc = "data_channel_new (sealer_new (records ?U) kc) (opener_new (records ?U) ks) (profile ?U)"
  let ?sc = "data_channel_new (sealer_new (records ?U) ks) (opener_new (records ?U) kc) (profile ?U)"
  note f = fresh_channels [OF H'(1,3) seed keys lim]
  have "mimic ?sc = profile ?U" by (simp add: data_channel_new_def)
  from transfer [OF H'(1,2) this f(2) H'(5)] obtain w4 sc g4 ch where
    se: "seal_envelope (records ?U) (json ?U) ?sc Pong gs = (Inr w4, sc, g4)" and w4: "length w4 \<le> MAX_UDP"
    and sc: "opener sc = opener ?sc" "mimic sc = mimic ?sc" and od: "open_datagram (records ?U) (json ?U) ?cc w4 = (Inr (Some Pong), ch)"
    and home: "feeds sst ost lim n sc ch" and ch: "sealer ch = sealer ?cc" "mimic ch = mimic ?cc" by metis
  have there: "feeds sst ost lim n ch sc" using feeds_weaken [OF feeds_frame [OF f(1) ch sc]] by simp
  have cm: "complete_handshake_msg3 ?U r2 msg3 = Inr (?sc, static)" by (simp add: complete_handshake_msg3_def x seed keys)
  show thesis
  proof (rule that [OF hears_msg2 [OF d wires(1) x(3,4) w3 w4 keys od]])
    show "mimic ch = profile ?U" using ch by (simp add: data_channel_new_def)
    show "answers K sst ost lim n load src s [d, w3] [w2, w4] ch"
      if s: "has_room s" "entropy s = e" "srv_rng s = gr"
        and ck: "(load \<or> PENDING_SOFT_LIMIT \<le> fmsize (pending s)) \<longrightarrow> (\<exists>k. c = Some k \<and> ck_verify (cookies K) (cookie_secret s) (src_bytes src) k)"
      for s
    proof (rule answers_Cons)
      fix t
      let ?s = "udp_step K s (Recv t load src d)"
      note st = step_respond [OF dw dec s(1) ck r0 [folded s(2)] x(1,2) w2 [folded s(3)], of t]
      show "sent_dgrams ?s = sent_dgrams s @ [(src, w2)]" and "handled ?s = handled s" by (simp_all add: st cleanup_def)
      have p: "fmlookup (pending ?s) src = Some \<lparr>responder = r2, created_at = t\<rparr>" "srv_rng ?s = gs"
        by (simp_all add: st cleanup_def fmlookup_retain PENDING_TIMEOUT_def sock_send_def)
      show "answers K sst ost lim n load src ?s [w3] [w4] ch"
        by (rule answers_last [OF wires(2) p(1) _ gate _ there home, where c = ?sc and g = g4]) (simp_all add: cm se p(2))
    qed
  qed
qed

lemma hears_attempt:
  assumes h: "hears U server seed i1 msg1 None g1 downs ups ch" and l: "length downs \<le> MAX_HS_TRIES"
    and seed: "fill_bytes U 32 g = (seed, g1)" and i: "hs_initiator (noise U) ent cp sp = Inr i0" "hs_write (noise U) i0 [] = (Inr msg1, i1)"
    and sk: "send_script sk = []" "inbox sk = map (Dgram server) downs @ rest"
  shows "\<exists>g2. client_attempt U ent server sp cp sk g =
    (Some (Inr ch), sk\<lparr>sent := sent sk @ map (Pair server) ups, inbox := rest\<rparr>, g2)"
proof -
  obtain m where m: "MAX_HS_TRIES = m + length downs" using l by (metis le_add_diff_inverse2)
  obtain msg2 sk1 g2 g3 where "msg1_loop MAX_HS_TRIES server (profile U) msg1 None sk g1 = (Inr (Some msg2), sk1, g2)"
    and "finish_attempt U server seed i1 msg2 sk1 g2 =
      (Some (Inr ch), sk\<lparr>sent := sent sk @ map (Pair server) ups, inbox := rest\<rparr>, g3)"
    using h sk unfolding hears_def m by blast
  then show ?thesis by (simp add: client_attempt_def seed i)
qed

lemma first_attempt:
  assumes "client_attempt U ent server sp cp sk g = (Some (Inr ch), sk', g2)"
  shows "client_udp_handshake U ent server sp cp sk g = (Inr ch, sk', g2)"
    and "connect_udp U (Inr (server # addrs)) (Inr sk) ent g g' sp cp cap = Inr (new_udp_transport server ch g' cap)"
  using assms by (simp_all add: connect_udp_def client_udp_handshake_def MAX_HANDSHAKE_ATTEMPTS_def eval_nat_numeral)

lemma msg1_framed_wire:
  assumes "length msg1 \<le> 128" and "c = None \<or> (\<exists>k. c = Some k \<and> length k = 16)"
  shows "length (encode_msg1_framed msg1 c) \<le> 146" and "decode_msg1_framed (encode_msg1_framed msg1 c) = Some (msg1, c)"
  using assms msg1.decode_encode [of "(msg1, c)"] by (auto simp: msg1_wf_def encode_msg1_framed_def u16_to_be_bytes_def)

text \<open>Without a cookie challenge two datagrams each way, with one three.\<close>

definition run_of ::
  "('x, 'g, 'h, 'sl, 'op, 'c) udp_server_cfg \<Rightarrow> ('sl \<Rightarrow> bytes \<times> nat) \<Rightarrow> ('op \<Rightarrow> bytes \<times> nat set) \<Rightarrow> nat \<Rightarrow> nat \<Rightarrow> bool \<Rightarrow> socket_addr \<Rightarrow> socket_addr \<Rightarrow>
   bytes \<Rightarrow> 'h \<Rightarrow> bytes \<Rightarrow> 'g \<Rightarrow> ('x, 'g, 'h, 'sl, 'op, 'c) udp_server \<Rightarrow> nat \<Rightarrow> bool" where
  "run_of K sst ost lim n load server src seed i1 msg1 g s m \<longleftrightarrow>
     (\<exists>ups downs ch. length ups = m \<and> length downs = m \<and> hears (ctx K) server seed i1 msg1 None g downs ups ch \<and>
        mimic ch = profile (ctx K) \<and> answers K sst ost lim n load src s ups downs ch)"

lemma run_ofI:
  assumes "hears (ctx K) server seed i1 msg1 None g downs ups ch" and "mimic ch = profile (ctx K)"
    and "answers K sst ost lim n load src s ups downs ch" and "length ups = m" and "length downs = m"
  shows "run_of K sst ost lim n load server src seed i1 msg1 g s m"
  using assms unfolding run_of_def by blast

lemma direct_run:
  assumes H: "handshaking K pub auth sst ost w lim" and lim: "Suc n \<le> lim" and gate: "auth_gate K static = Inr ()"
    and room: "has_room s" and seed: "length seed = 32" and l1: "length msg1 \<le> 128"
    and runs: "\<And>e'. \<exists>r0 msg2 msg3 r2. hs_responder (noise (ctx K)) e' (server_priv K) = Inr r0 \<and>
      xk_messages (noise (ctx K)) i1 r0 seed static msg1 msg2 msg3 r2"
    and calm: "\<not> (load \<or> PENDING_SOFT_LIMIT \<le> fmsize (pending s))"
  shows "run_of K sst ost lim n load server src seed i1 msg1 g s 2"
proof -
  let ?U = "ctx K"
  have H': "hs_fits ?U" "mimicry_ok (profile ?U)" using H by (simp_all add: handshaking_def)
  note fr = msg1_framed_wire [OF l1]
  obtain d g1 where d: "shape_hs Hs1 (encode_msg1_framed msg1 None) (profile ?U) g = (d, g1)" by fastforce
  have dw: "hs_wire ?U Hs1 (encode_msg1_framed msg1 None) d" using shape_hs_wire [OF H' _ d] fr(1) by simp
  obtain r0 msg2 msg3 r2 where r: "hs_responder (noise ?U) (entropy s) (server_priv K) = Inr r0"
    "xk_messages (noise ?U) i1 r0 seed static msg1 msg2 msg3 r2" using runs by blast
  show ?thesis
  proof (rule complete_run [OF H lim gate seed r d dw fr(2), of server "srv_rng s" load src])
    fix w2 w3 w4 ch
    assume h: "hears ?U server seed i1 msg1 None g [w2, w4] [d, w3] ch" and m: "mimic ch = profile ?U"
      and a: "\<And>s'. has_room s' \<Longrightarrow> entropy s' = entropy s \<Longrightarrow> srv_rng s' = srv_rng s \<Longrightarrow>
        (load \<or> PENDING_SOFT_LIMIT \<le> fmsize (pending s')) \<longrightarrow> (\<exists>k. None = Some k \<and> ck_verify (cookies K) (cookie_secret s') (src_bytes src) k) \<Longrightarrow>
        answers K sst ost lim n load src s' [d, w3] [w2, w4] ch"
    show ?thesis by (rule run_ofI [OF h m a [OF room refl refl]]) (use calm in simp_all)
  qed simp
qed

lemma challenged_run:
  assumes H: "handshaking K pub auth sst ost w lim" and lim: "Suc n \<le> lim" and gate: "auth_gate K static = Inr ()"
    and room: "has_room s" and seed: "length seed = 32" and l1: "length msg1 \<le> 128"
    and runs: "\<And>e'. \<exists>r0 msg2 msg3 r2. hs_responder (noise (ctx K)) e' (server_priv K) = Inr r0 \<and>
      xk_messages (noise (ctx K)) i1 r0 seed static msg1 msg2 msg3 r2"
    and busy: "load \<or> PENDING_SOFT_LIMIT \<le> fmsize (pending s)"
  shows "run_of K sst ost lim n load server src seed i1 msg1 g s 3"
proof -
  let ?U = "ctx K"
  let ?ck = "ck_make (cookies K) (cookie_secret s) (src_bytes src)"
  have H': "hs_fits ?U" "mimicry_ok (profile ?U)" and ck: "length ?ck = 16" "ck_verify (cookies K) (cookie_secret s) (src_bytes src) ?ck"
    using H by (simp_all add: handshaking_def cookie_contract_def)
  note fr = msg1_framed_wire [OF l1]
  obtain d g1 where d: "shape_hs Hs1 (encode_msg1_framed msg1 None) (profile ?U) g = (d, g1)" by fastforce
  have dw: "hs_wire ?U Hs1 (encode_msg1_framed msg1 None) d" using shape_hs_wire [OF H' _ d] fr(1) by simp
  obtain wc gs where wc: "shape_hs Cookie ?ck (profile ?U) (srv_rng s) = (wc, gs)" by fastforce
  have wcw: "hs_wire ?U Cookie ?ck wc" using shape_hs_wire [OF H' _ wc] ck by simp
  obtain d' g2 where d': "shape_hs Hs1 (encode_msg1_framed msg1 (Some ?ck)) (profile ?U) g1 = (d', g2)" by fastforce
  have dw': "hs_wire ?U Hs1 (encode_msg1_framed msg1 (Some ?ck)) d'" using shape_hs_wire [OF H' _ d'] fr(1) ck by simp
  obtain r0 msg2 msg3 r2 where r: "hs_responder (noise ?U) (Suc (entropy s)) (server_priv K) = Inr r0"
    "xk_messages (noise ?U) i1 r0 seed static msg1 msg2 msg3 r2" using runs by blast
  note st = step_challenge [OF dw fr(2) [of None] room busy wc]
  show ?thesis
  proof (rule complete_run [OF H lim gate seed r d' dw' fr(2), of server gs load src])
    fix w2 w3 w4 ch
    assume h: "hears ?U server seed i1 msg1 (Some ?ck) g1 [w2, w4] [d', w3] ch" and m: "mimic ch = profile ?U"
      and a: "\<And>s'. has_room s' \<Longrightarrow> entropy s' = Suc (entropy s) \<Longrightarrow> srv_rng s' = gs \<Longrightarrow>
        (load \<or> PENDING_SOFT_LIMIT \<le> fmsize (pending s')) \<longrightarrow> (\<exists>k. Some ?ck = Some k \<and> ck_verify (cookies K) (cookie_secret s') (src_bytes src) k) \<Longrightarrow>
        answers K sst ost lim n load src s' [d', w3] [w2, w4] ch"
    have "answers K sst ost lim n load src s [d, d', w3] [wc, w2, w4] ch"
    proof (rule answers_Cons)
      fix t
      have "has_room (sock_send src wc (s\<lparr>srv_rng := gs, entropy := Suc (entropy s)\<rparr>))" using room by (simp add: has_room_def)
      from cleanup_room [OF this] show "answers K sst ost lim n load src (udp_step K s (Recv t load src d)) [d', w3] [w2, w4] ch"
        by (intro a) (use ck(2) in \<open>simp_all add: st, simp_all add: cleanup_def sock_send_def\<close>)
      show "sent_dgrams (udp_step K s (Recv t load src d)) = sent_dgrams s @ [(src, wc)]"
        and "handled (udp_step K s (Recv t load src d)) = handled s" by (simp_all add: st cleanup_def)
    qed
    then show ?thesis by (rule run_ofI [OF hears_cookie [OF d wcw ck(1) h] m]) simp_all
  qed (use ck(1) in simp)
qed

lemma establish:
  assumes H: "handshaking K pub auth sst ost w lim" and lim: "Suc n \<le> lim" and gate: "auth_gate K (pub client) = Inr ()"
    and room: "has_room s" and len: "length client = 32" "length (server_priv K) = 32"
  shows "\<exists>ups downs ch. length ups = (if load \<or> PENDING_SOFT_LIMIT \<le> fmsize (pending s) then 3 else 2) \<and>
    (\<forall>sk rest addrs. send_script sk = [] \<longrightarrow> inbox sk = map (Dgram server) downs @ rest \<longrightarrow>
       (\<exists>g2. client_udp_handshake (ctx K) ent server (pub (server_priv K)) client sk g =
          (Inr ch, sk\<lparr>sent := sent sk @ map (Pair server) ups, inbox := rest\<rparr>, g2)) \<and>
       connect_udp (ctx K) (Inr (server # addrs)) (Inr sk) ent g g' (pub (server_priv K)) client cap = Inr (new_udp_transport server ch g' cap)) \<and>
    (\<forall>ts. length ts = length ups \<longrightarrow>
       (let s' = foldl (udp_step K) s (map2 (\<lambda>t d. Recv t load src d) ts ups)
        in sent_dgrams s' = sent_dgrams s @ map (Pair src) downs \<and> handled s' = handled s \<and> session K sst ost lim n src (new_udp_transport server ch g' cap) s'))"
proof -
  let ?U = "ctx K"
  obtain seed g1 i0 msg1 i1 where seed: "fill_bytes ?U 32 g = (seed, g1)" "length seed = 32"
    and i: "hs_initiator (noise ?U) ent client (pub (server_priv K)) = Inr i0" "hs_write (noise ?U) i0 [] = (Inr msg1, i1)"
    and l1: "length msg1 \<le> 128"
    and runs: "\<And>e'. \<exists>r0 msg2 msg3 r2. hs_responder (noise ?U) e' (server_priv K) = Inr r0 \<and>
      xk_messages (noise ?U) i1 r0 seed (pub client) msg1 msg2 msg3 r2"
    by (rule client_start [OF H len, of g ent]) blast
  have "run_of K sst ost lim n load server src seed i1 msg1 g1 s (if load \<or> PENDING_SOFT_LIMIT \<le> fmsize (pending s) then 3 else 2)"
    using direct_run [OF H lim gate room seed(2) l1 runs, of load server src g1]
      challenged_run [OF H lim gate room seed(2) l1 runs, of load server src g1] by presburger
  then obtain ups downs ch where l: "length ups = (if load \<or> PENDING_SOFT_LIMIT \<le> fmsize (pending s) then 3 else 2)" "length downs = length ups"
    and h: "hears ?U server seed i1 msg1 None g1 downs ups ch" and m: "mimic ch = profile ?U"
    and a: "answers K sst ost lim n load src s ups downs ch" unfolding run_of_def by metis
  have l': "length downs \<le> MAX_HS_TRIES" using l by (auto simp: MAX_HS_TRIES_def)
  show ?thesis
  proof (rule exI [of _ ups], rule exI [of _ downs], rule exI [of _ ch], intro conjI allI impI)
    show "length ups = (if load \<or> PENDING_SOFT_LIMIT \<le> fmsize (pending s) then 3 else 2)" by (rule l(1))
    fix sk :: udp_sock and rest and addrs :: "socket_addr list"
    assume sk: "send_script sk = []" "inbox sk = map (Dgram server) downs @ rest"
    from hears_attempt [OF h l' seed(1) i this] obtain g2 where g2: "client_attempt ?U ent server (pub (server_priv K)) client sk g =
      (Some (Inr ch), sk\<lparr>sent := sent sk @ map (Pair server) ups, inbox := rest\<rparr>, g2)" ..
    show "\<exists>g2. client_udp_handshake ?U ent server (pub (server_priv K)) client sk g =
        (Inr ch, sk\<lparr>sent := sent sk @ map (Pair server) ups, inbox := rest\<rparr>, g2)"
      using first_attempt(1) [OF g2] by simp
    show "connect_udp ?U (Inr (server # addrs)) (Inr sk) ent g g' (pub (server_priv K)) client cap = Inr (new_udp_transport server ch g' cap)"
      by (rule first_attempt(2) [OF g2])
  next
    fix ts :: "nat list"
    assume "length ts = length ups"
    then show "let s' = foldl (udp_step K) s (map2 (\<lambda>t d. Recv t load src d) ts ups)
        in sent_dgrams s' = sent_dgrams s @ map (Pair src) downs \<and> handled s' = handled s \<and> session K sst ost lim n src (new_udp_transport server ch g' cap) s'"
      using a m by (auto simp: answers_def session_def new_udp_transport_def Let_def)
  qed
qed

subsection \<open>Properties\<close>

text \<open>
  C3. A client and a server with room establish a session. There are the client's datagrams \<open>ups\<close> and
  the server's \<open>downs\<close>, three each if the server demands a cookie (by its load gate or because many
  handshakes are half-open) and two otherwise, such that the client, hearing the server's, sends its
  own and connects; and the server, receiving the client's at any times, sends its own and has the
  client as a peer, with channels that feed each other. 
\<close>

theorem udp_session_established:
  assumes H: "handshaking K pub auth sst ost w lim" and lim: "Suc n \<le> lim" and gate: "auth_gate K (pub client) = Inr ()"
    and room: "has_room s" and len: "length client = 32" "length (server_priv K) = 32"
  shows "\<exists>ups downs u. length ups = (if load \<or> PENDING_SOFT_LIMIT \<le> fmsize (pending s) then 3 else 2) \<and>
    (\<forall>sk rest addrs. send_script sk = [] \<longrightarrow> inbox sk = map (Dgram server) downs @ rest \<longrightarrow>
       (\<exists>g2. client_udp_handshake (ctx K) ent server (pub (server_priv K)) client sk g =
          (Inr (ut_chan u), sk\<lparr>sent := sent sk @ map (Pair server) ups, inbox := rest\<rparr>, g2)) \<and>
       connect_udp (ctx K) (Inr (server # addrs)) (Inr sk) ent g g' (pub (server_priv K)) client cap = Inr u) \<and>
    (\<forall>ts. length ts = length ups \<longrightarrow>
       (let s' = foldl (udp_step K) s (map2 (\<lambda>t d. Recv t load src d) ts ups)
        in sent_dgrams s' = sent_dgrams s @ map (Pair src) downs \<and> session K sst ost lim n src u s'))"
proof -
  obtain ups downs ch where e: "length ups = (if load \<or> PENDING_SOFT_LIMIT \<le> fmsize (pending s) then 3 else 2)"
    and c: "\<forall>sk rest addrs. send_script sk = [] \<longrightarrow> inbox sk = map (Dgram server) downs @ rest \<longrightarrow>
       (\<exists>g2. client_udp_handshake (ctx K) ent server (pub (server_priv K)) client sk g =
          (Inr ch, sk\<lparr>sent := sent sk @ map (Pair server) ups, inbox := rest\<rparr>, g2)) \<and>
       connect_udp (ctx K) (Inr (server # addrs)) (Inr sk) ent g g' (pub (server_priv K)) client cap =
         Inr (new_udp_transport server ch g' cap)"
    and v: "\<forall>ts. length ts = length ups \<longrightarrow>
       (let s' = foldl (udp_step K) s (map2 (\<lambda>t d. Recv t load src d) ts ups)
        in sent_dgrams s' = sent_dgrams s @ map (Pair src) downs \<and> handled s' = handled s \<and>
           session K sst ost lim n src (new_udp_transport server ch g' cap) s')"
    using establish [OF assms] by blast
  show ?thesis
    by (rule exI [of _ ups], rule exI [of _ downs], rule exI [of _ "new_udp_transport server ch g' cap"])
      (use e c v in \<open>auto simp: new_udp_transport_def Let_def\<close>)
qed

lemma demo_handshaking: "handshaking demo_cfg id clear_auth id (\<lambda>(k, seen). (k, set seen)) 64 256"
  using demo_ctx_records demo_sealable [of Pong "[1]"] demo_noise_contract demo_cookie_contract passthrough_ok
  by (simp add: handshaking_def demo_cfg_def demo_ctx_def fill_ok_def mac_ok_def demo_mac_def hs_fits_def shape_hs_def
      encode_inner_def passthrough_def MAX_UDP_def)

theorem udp_session_established_witness:
  "\<exists>ups downs u. length ups = (if True \<or> PENDING_SOFT_LIMIT \<le> fmsize (pending demo_start) then 3 else 2) \<and>
    (\<forall>sk rest addrs. send_script sk = [] \<longrightarrow> inbox sk = map (Dgram demo_server) downs @ rest \<longrightarrow>
       (\<exists>g2. client_udp_handshake (ctx demo_cfg) 0 demo_server (id (server_priv demo_cfg)) demo_key sk 0 =
          (Inr (ut_chan u), sk\<lparr>sent := sent sk @ map (Pair demo_server) ups, inbox := rest\<rparr>, g2)) \<and>
       connect_udp (ctx demo_cfg) (Inr (demo_server # addrs)) (Inr sk) 0 0 0 (id (server_priv demo_cfg)) demo_key None = Inr u) \<and>
    (\<forall>ts. length ts = length ups \<longrightarrow>
       (let s' = foldl (udp_step demo_cfg) demo_start (map2 (\<lambda>t d. Recv t True demo_client d) ts ups)
        in sent_dgrams s' = sent_dgrams demo_start @ map (Pair demo_client) downs \<and>
           session demo_cfg id (\<lambda>(k, seen). (k, set seen)) 256 100 demo_client u s'))"
  by (rule udp_session_established [OF demo_handshaking])
    (simp_all add: demo_cfg_def demo_key_def has_room_def demo_start_def serve_obfs_udp_def MAX_PEERS_def MAX_PENDING_def)

text \<open>
  C40. A third message counts once: a copy of it from the same address changes nothing, whether the
  first one completed the handshake or not. In particular the record that tells the client that the
  server is ready is never sent again, so that resending the third message cannot make up for its
  loss.
\<close>

theorem third_message_once:
  assumes "unshape_hs (take SRV_MAX_DGRAM d) (profile (ctx K)) = Some (Hs3, body)"
  shows "udp_step K (udp_step K s (Recv t load src d)) (Recv t' load' src d) = udp_step K s (Recv t load src d)"
proof -
  have e: "udp_step K s' (Recv t load src d) = (case handle_hs3 K t src body s' of (True, s'') \<Rightarrow> cleanup t s'' | (False, s'') \<Rightarrow> s'')"
    for s' t load using assms by (auto simp: unshape_hs_def udp_step_def handle_dgram_def split: option.splits)
  have "fmlookup (pending (snd (handle_hs3 K t src body s))) src = None"
    by (auto simp: handle_hs3_def Let_def split: option.splits sum.splits prod.splits)
  then have "fmlookup (pending (udp_step K s (Recv t load src d))) src = None"
    by (auto simp: e cleanup_def fmlookup_retain split: prod.splits bool.splits)
  then show ?thesis by (simp add: e [of "udp_step K s (Recv t load src d)"] handle_hs3_def)
qed

theorem third_message_once_witness:
  "udp_step demo_cfg (udp_step demo_cfg (udp_step demo_cfg demo_start demo_hs1) (Recv 10 False demo_client (3 # 2 # demo_key @ replicate 32 0)))
     (Recv 20 False demo_client (3 # 2 # demo_key @ replicate 32 0)) =
   udp_step demo_cfg (udp_step demo_cfg demo_start demo_hs1) (Recv 10 False demo_client (3 # 2 # demo_key @ replicate 32 0))"
  by (rule third_message_once [where body = "2 # demo_key @ replicate 32 0"])
    (simp add: unshape_hs_def demo_cfg_def demo_ctx_def passthrough_def demo_key_def SRV_MAX_DGRAM_def)

end
