(* ===== verification/Udp_Retransmit.thy ===== *)
theory Udp_Retransmit
  imports Udp_Establish
begin

text \<open>
  The UDP handshake on a slow path. The client sends its first message again after 250 milliseconds,
  and the server starts a new responder for every first message and forgets the one before. When the
  path takes longer than that, the client answers the first reply while the server holds the second
  responder.

  \<open>noise_binding\<close> is what this relies on: a third message authenticates the transcript, so that the
  responder of the next draw of entropy, which took part in another one, does not read it.
\<close>

definition noise_binding :: "'h noise_api \<Rightarrow> bool" where
  "noise_binding N \<longleftrightarrow>
     (\<forall>e server r0 r0' msg1 x x' r1 r1' msg2 msg2' r2 r2' i1 y i2 payload msg3 i3.
        hs_responder N e server = Inr r0 \<longrightarrow> hs_responder N (Suc e) server = Inr r0' \<longrightarrow>
        hs_read N r0 msg1 = (Inr x, r1) \<longrightarrow> hs_read N r0' msg1 = (Inr x', r1') \<longrightarrow>
        hs_write N r1 [] = (Inr msg2, r2) \<longrightarrow> hs_write N r1' [] = (Inr msg2', r2') \<longrightarrow>
        hs_read N i1 msg2 = (Inr y, i2) \<longrightarrow> hs_write N i2 payload = (Inr msg3, i3) \<longrightarrow>
        (\<exists>err r. hs_read N r2' msg3 = (Inl err, r)))"

subsection \<open>The client\<close>

lemma msg1_loop_deadline:
  assumes "shape_hs Hs1 (encode_msg1_framed msg1 c) (profile U) g = (d, g')" and "send_script sk = []" and "inbox sk = Deadline # es"
  shows "msg1_loop (Suc n) server (profile U) msg1 c sk g =
    msg1_loop n server (profile U) msg1 c (sk\<lparr>sent := sent sk @ [(server, d)], inbox := es\<rparr>) g'"
  using assms by (simp add: send_to_def)

lemma wait_ready_nothing [simp]: "wait_ready U server ch [] = (False, ch, [])"
  by (simp add: wait_ready.simps)

lemma wait_ready_handshake:
  assumes "hs_wire U Hs2 msg w" and "mimic ch = profile U"
  shows "wait_ready U server ch (Dgram server w # es) = wait_ready U server ch es"
proof -
  have "dgram_record (mimic ch) w = None"
    using assms by (auto simp: hs_wire_def unshape_hs_def dgram_record_def split: option.splits)
  then show ?thesis
    using assms(1) by (subst wait_ready.simps) (simp add: hs_wire_def open_datagram_no_record)
qed

lemma resend_nothing:
  assumes "send_script sk = []" and "inbox sk = []"
  shows "resend_loop n U server w3 ch sk = (False, ch, sk\<lparr>sent := sent sk @ replicate n (server, w3)\<rparr>)"
  using assms by (induction n arbitrary: sk) (simp_all add: send_to_def)

lemma finish_unheard:
  assumes "hs_read (noise U) i1 msg2 = (Inr x, i2)" and "hs_write (noise U) i2 seed = (Inr msg3, i3)"
    and "shape_hs Hs3 msg3 (profile U) g = (w3, g')" and "send_script sk = []" and "inbox sk = [Dgram server w]" and "hs_wire U Hs2 msg w"
  shows "finish_attempt U server seed i1 msg2 sk g = (None, sk\<lparr>sent := sent sk @ map (Pair server) [w3, w3, w3, w3], inbox := []\<rparr>, g')"
proof -
  have "replicate 3 (server, w3) = [(server, w3), (server, w3), (server, w3)]" by (simp add: numeral_eq_Suc)
  then show ?thesis
    using assms
    by (cases "derive_record_keys (mac U) seed")
      (simp add: finish_attempt_def await_ready_def send_to_def wait_ready_handshake data_channel_new_def resend_nothing)
qed

lemma slow_client:
  assumes seed: "fill_bytes U 32 g = (seed, g1)" and i: "hs_initiator (noise U) ent cp sp = Inr i0" "hs_write (noise U) i0 [] = (Inr msg1, i1)"
    and d: "shape_hs Hs1 (encode_msg1_framed msg1 None) (profile U) g1 = (d, g2)"
    and d': "shape_hs Hs1 (encode_msg1_framed msg1 None) (profile U) g2 = (d', g3)" and w2: "hs_wire U Hs2 msg2 w2"
    and c: "hs_read (noise U) i1 msg2 = (Inr x, i2)" "hs_write (noise U) i2 seed = (Inr msg3, i3)"
    and w3: "shape_hs Hs3 msg3 (profile U) g3 = (w3, g4)" and w: "hs_wire U Hs2 msg w"
    and sk: "send_script sk = []" "inbox sk = [Deadline, Dgram server w2, Dgram server w]"
  shows "client_attempt U ent server sp cp sk g =
    (None, sk\<lparr>sent := sent sk @ map (Pair server) [d, d', w3, w3, w3, w3], inbox := []\<rparr>, g4)"
proof -
  let ?sk = "sk\<lparr>sent := sent sk @ [(server, d)], inbox := [Dgram server w2, Dgram server w]\<rparr>"
  let ?sk2 = "?sk\<lparr>sent := sent ?sk @ [(server, d')], inbox := [Dgram server w]\<rparr>"
  have n: "MAX_HS_TRIES = Suc (Suc 10)" by (simp add: MAX_HS_TRIES_def)
  have "msg1_loop MAX_HS_TRIES server (profile U) msg1 None sk g1 = (Inr (Some msg2), ?sk2, g3)"
    unfolding n msg1_loop_deadline [OF d sk] by (rule msg1_loop_msg2 [OF d' _ _ w2]) (simp_all add: sk)
  moreover have "finish_attempt U server seed i1 msg2 ?sk2 g3 = (None, ?sk2\<lparr>sent := sent ?sk2 @ map (Pair server) [w3, w3, w3, w3], inbox := []\<rparr>, g4)"
    by (rule finish_unheard [OF c w3 _ _ w]) (simp_all add: sk)
  ultimately show ?thesis by (simp add: client_attempt_def seed i)
qed

subsection \<open>The server\<close>

lemma step_reject:
  assumes "hs_wire (ctx K) Hs3 msg3 d" and "fmlookup (pending s) src = Some ph" and "hs_read (noise (ctx K)) (responder ph) msg3 = (Inl err, r)"
  shows "udp_step K s (Recv now load src d) = cleanup now (s\<lparr>pending := fmdrop src (pending s)\<rparr>)"
  using assms by (simp add: step_hs handle_hs3_def Let_def complete_handshake_msg3_def)

lemma step_ignore:
  assumes "hs_wire (ctx K) Hs3 msg3 d" and "fmlookup (pending s) src = None"
  shows "udp_step K s (Recv now load src d) = s"
  using assms by (simp add: step_hs handle_hs3_def)

lemma ignored_copies:
  assumes "hs_wire (ctx K) Hs3 msg3 d" and "fmlookup (pending s) src = None"
  shows "foldl (udp_step K) s (map (\<lambda>t. Recv t load src d) ts) = s"
  using step_ignore [OF assms] by (induction ts) simp_all

lemma replaced_responder:
  assumes d: "hs_wire (ctx K) Hs1 (encode_msg1_framed msg1 None) d" "hs_wire (ctx K) Hs1 (encode_msg1_framed msg1 None) d'"
    and dec: "decode_msg1_framed (encode_msg1_framed msg1 None) = Some (msg1, None)"
    and room: "fmsize (peers s) < MAX_PEERS" "Suc (fmsize (pending s)) < PENDING_SOFT_LIMIT"
    and r: "hs_responder (noise (ctx K)) (entropy s) (server_priv K) = Inr r0" "hs_read (noise (ctx K)) r0 msg1 = (Inr x, r1)"
      "hs_write (noise (ctx K)) r1 [] = (Inr msg2, r2)" "shape_hs Hs2 msg2 (profile (ctx K)) (srv_rng s) = (w2, g2)"
    and r': "hs_responder (noise (ctx K)) (Suc (entropy s)) (server_priv K) = Inr r0'" "hs_read (noise (ctx K)) r0' msg1 = (Inr x', r1')"
      "hs_write (noise (ctx K)) r1' [] = (Inr msg2', r2')" "shape_hs Hs2 msg2' (profile (ctx K)) g2 = (w2', g3)"
    and w3: "hs_wire (ctx K) Hs3 msg3 w3" "hs_read (noise (ctx K)) r2' msg3 = (Inl err, r3)"
  shows "let s' = foldl (udp_step K) s ([Recv t1 False src d, Recv t2 False src d', Recv t3 False src w3] @ map (\<lambda>t. Recv t False src w3) ts)
    in sent_dgrams s' = sent_dgrams s @ [(src, w2), (src, w2')] \<and> conns s' = conns s \<and> handled s' = handled s"
proof -
  have hr: "has_room s" using room by (simp add: has_room_def PENDING_SOFT_LIMIT_def MAX_PENDING_def)
  let ?s1 = "udp_step K s (Recv t1 False src d)"
  have e1: "?s1 = cleanup t1 (sock_send src w2 (s\<lparr>srv_rng := g2, entropy := Suc (entropy s),
      pending := fmupd src \<lparr>responder = r2, created_at = t1\<rparr> (pending s)\<rparr>))"
    by (rule step_respond [OF d(1) dec hr _ r]) (use room in simp)
  have "fmsize (pending ?s1) \<le> Suc (fmsize (pending s))" "fmsize (peers ?s1) \<le> fmsize (peers s)"
    by (simp_all add: e1 cleanup_def fmsize_retain_le order_trans [OF fmsize_retain_le] fmsize_upd)
  then have room1: "has_room ?s1" "\<not> PENDING_SOFT_LIMIT \<le> fmsize (pending ?s1)"
    using room by (simp_all add: has_room_def PENDING_SOFT_LIMIT_def MAX_PENDING_def)
  have f1: "entropy ?s1 = Suc (entropy s)" "srv_rng ?s1 = g2" "sent_dgrams ?s1 = sent_dgrams s @ [(src, w2)]" "conns ?s1 = conns s"
    "handled ?s1 = handled s" by (simp_all add: e1 cleanup_def sock_send_def)
  let ?s2 = "udp_step K ?s1 (Recv t2 False src d')"
  have e2: "?s2 = cleanup t2 (sock_send src w2' (?s1\<lparr>srv_rng := g3, entropy := Suc (entropy ?s1),
      pending := fmupd src \<lparr>responder = r2', created_at = t2\<rparr> (pending ?s1)\<rparr>))"
    by (rule step_respond [OF d(2) dec room1(1) _ r'(1) [folded f1(1)] r'(2,3) r'(4) [folded f1(2)]]) (use room1 in simp)
  have p2: "fmlookup (pending ?s2) src = Some \<lparr>responder = r2', created_at = t2\<rparr>"
    by (simp add: e2 cleanup_def fmlookup_retain PENDING_TIMEOUT_def)
  have f2: "sent_dgrams ?s2 = sent_dgrams s @ [(src, w2), (src, w2')]" "conns ?s2 = conns s" "handled ?s2 = handled s"
    using f1 by (simp_all add: e2 cleanup_def)
  let ?s3 = "udp_step K ?s2 (Recv t3 False src w3)"
  have e3: "?s3 = cleanup t3 (?s2\<lparr>pending := fmdrop src (pending ?s2)\<rparr>)"
    by (rule step_reject [OF w3(1) p2, where err = err and r = r3]) (simp add: w3(2))
  have "fmlookup (pending ?s3) src = None" by (simp add: e3 cleanup_def fmlookup_retain)
  then show ?thesis using ignored_copies [OF w3(1), of ?s3 src False ts] f2 by (simp add: Let_def e3 cleanup_def)
qed

subsection \<open>Properties\<close>

text \<open>
  C38. On a slow path an attempt to connect fails although no datagram is lost. The client sends its
  first message, waits in vain, sends it again and then hears both replies. It answers the first; but
  the server, which by then holds the responder of the second, rejects the answer and ignores its
  copies. The attempt ends without a channel, and the server has no new connection.
\<close>

theorem slow_path_attempt_fails:
  assumes H: "handshaking K pub auth sst ost w lim" and nb: "noise_binding (noise (ctx K))"
    and room: "fmsize (peers s) < MAX_PEERS" "Suc (fmsize (pending s)) < PENDING_SOFT_LIMIT"
    and len: "length client = 32" "length (server_priv K) = 32"
  shows "\<exists>d d' w2 w2' w3.
    (\<forall>sk. send_script sk = [] \<longrightarrow> inbox sk = [Deadline, Dgram server w2, Dgram server w2'] \<longrightarrow>
       (\<exists>g'. client_attempt (ctx K) ent server (pub (server_priv K)) client sk g =
          (None, sk\<lparr>sent := sent sk @ map (Pair server) [d, d', w3, w3, w3, w3], inbox := []\<rparr>, g'))) \<and>
    (\<forall>t1 t2 t3 ts.
       (let s' = foldl (udp_step K) s ([Recv t1 False src d, Recv t2 False src d', Recv t3 False src w3] @ map (\<lambda>t. Recv t False src w3) ts)
        in sent_dgrams s' = sent_dgrams s @ [(src, w2), (src, w2')] \<and> conns s' = conns s \<and> handled s' = handled s))"
proof -
  let ?U = "ctx K"
  have H': "hs_fits ?U" "mimicry_ok (profile ?U)" using H by (simp_all add: handshaking_def)
  obtain seed g1 i0 msg1 i1 where seed: "fill_bytes ?U 32 g = (seed, g1)"
    and i: "hs_initiator (noise ?U) ent client (pub (server_priv K)) = Inr i0" "hs_write (noise ?U) i0 [] = (Inr msg1, i1)"
    and l1: "length msg1 \<le> 128"
    and runs: "\<And>e'. \<exists>r0 msg2 msg3 r2. hs_responder (noise ?U) e' (server_priv K) = Inr r0 \<and>
      xk_messages (noise ?U) i1 r0 seed (pub client) msg1 msg2 msg3 r2"
    by (rule client_start [OF H len, of g ent]) blast
  obtain r0 r1 msg2 r2 i2 msg3 i3 where r: "hs_responder (noise ?U) (entropy s) (server_priv K) = Inr r0" "hs_read (noise ?U) r0 msg1 = (Inr [], r1)"
      "hs_write (noise ?U) r1 [] = (Inr msg2, r2)"
    and c: "hs_read (noise ?U) i1 msg2 = (Inr [], i2)" "hs_write (noise ?U) i2 seed = (Inr msg3, i3)" and l: "length msg2 \<le> 146" "length msg3 \<le> 146"
    using runs [of "entropy s"] by (auto simp: xk_messages_def)
  obtain r0' r1' msg2' r2' where r': "hs_responder (noise ?U) (Suc (entropy s)) (server_priv K) = Inr r0'" "hs_read (noise ?U) r0' msg1 = (Inr [], r1')"
      "hs_write (noise ?U) r1' [] = (Inr msg2', r2')" and l': "length msg2' \<le> 146"
    using runs [of "Suc (entropy s)"] by (auto simp: xk_messages_def)
  have "\<exists>err r. hs_read (noise ?U) r2' msg3 = (Inl err, r)"
    by (rule nb [unfolded noise_binding_def, rule_format, OF r(1) r'(1) r(2) r'(2) r(3) r'(3) c])
  then obtain err r3 where rej: "hs_read (noise ?U) r2' msg3 = (Inl err, r3)" by blast
  note fr = msg1_framed_wire [OF l1, of None]
  obtain d g2 where d: "shape_hs Hs1 (encode_msg1_framed msg1 None) (profile ?U) g1 = (d, g2)" by fastforce
  obtain d' g3 where d': "shape_hs Hs1 (encode_msg1_framed msg1 None) (profile ?U) g2 = (d', g3)" by fastforce
  obtain w3 g4 where w3: "shape_hs Hs3 msg3 (profile ?U) g3 = (w3, g4)" by fastforce
  obtain w2 gs where w2: "shape_hs Hs2 msg2 (profile ?U) (srv_rng s) = (w2, gs)" by fastforce
  obtain w2' gs' where w2': "shape_hs Hs2 msg2' (profile ?U) gs = (w2', gs')" by fastforce
  note wire = shape_hs_wire [OF H']
  have fr1: "length (encode_msg1_framed msg1 None) \<le> 146" and fr2: "decode_msg1_framed (encode_msg1_framed msg1 None) = Some (msg1, None)" using fr by simp_all
  have att: "client_attempt ?U ent server (pub (server_priv K)) client sk g =
      (None, sk\<lparr>sent := sent sk @ map (Pair server) [d, d', w3, w3, w3, w3], inbox := []\<rparr>, g4)"
    if sk: "send_script sk = []" "inbox sk = [Deadline, Dgram server w2, Dgram server w2']" for sk
    by (rule slow_client [OF seed i d d' wire [OF l(1) w2] c w3 wire [OF l' w2'] sk])
  note srv = replaced_responder [OF wire [OF fr1 d] wire [OF fr1 d'] fr2 room r w2 r' w2' wire [OF l(2) w3] rej]
  show ?thesis
    by (rule exI [of _ d], rule exI [of _ d'], rule exI [of _ w2], rule exI [of _ w2'], rule exI [of _ w3], intro conjI allI impI)
      (use att srv in \<open>blast+\<close>)
qed

text \<open>
  A concrete Noise machine whose second and third message carry a tag of the responder's draw, and a
  server with it.
\<close>

definition tagged_write ::
  "bytes \<times> nat \<times> bytes option \<times> u8 \<Rightarrow> bytes \<Rightarrow> (string + bytes) \<times> (bytes \<times> nat \<times> bytes option \<times> u8)" where
  "tagged_write hs p = (case hs of (k, n, rs, t) \<Rightarrow>
     if n = 0 then (Inr (0 # p), (k, 1, rs, t))
     else if n = 1 then (Inr (1 # t # p), (k, 2, rs, t))
     else if n = 2 then (Inr (2 # t # k @ p), (k, 3, rs, t))
     else (Inl ''done'', hs))"

definition tagged_read ::
  "bytes \<times> nat \<times> bytes option \<times> u8 \<Rightarrow> bytes \<Rightarrow> (string + bytes) \<times> (bytes \<times> nat \<times> bytes option \<times> u8)" where
  "tagged_read hs msg = (case hs of (k, n, rs, t) \<Rightarrow>
     (case msg of
        m # b \<Rightarrow>
          if n = 0 \<and> m = 0 then (Inr b, (k, 1, rs, t))
          else if n = 1 \<and> m = 1 \<and> b \<noteq> [] then (Inr (tl b), (k, 2, rs, hd b))
          else if n = 2 \<and> m = 2 \<and> 33 \<le> length b \<and> hd b = t then (Inr (drop 33 b), (k, 3, Some (take 32 (tl b)), t))
          else (Inl ''auth'', hs)
      | [] \<Rightarrow> (Inl ''short'', hs)))"

definition tagged_noise :: "(bytes \<times> nat \<times> bytes option \<times> u8) noise_api" where
  "tagged_noise =
     \<lparr>hs_initiator = (\<lambda>_ k _. Inr (k, 0, None, 0)), hs_responder = (\<lambda>e k. Inr (k, 0, None, of_nat e)),
      hs_write = tagged_write, hs_read = tagged_read, hs_remote_static = (\<lambda>(_, _, rs, _). rs)\<rparr>"

definition tagged_cfg ::
  "(unit, nat, bytes \<times> nat \<times> bytes option \<times> u8, bytes \<times> nat, bytes \<times> nat list, bytes \<times> bytes) udp_server_cfg" where
  "tagged_cfg =
     \<lparr>ctx = \<lparr>noise = tagged_noise, records = clear_records, json = plain_serde, mac = demo_mac,
        profile = passthrough, fill_bytes = (\<lambda>n g. (replicate n (of_nat g), Suc g))\<rparr>,
      cookies = demo_cookies, service = demo_service, auth_gate = (\<lambda>_. Inr ()), server_priv = replicate 32 1, task_rng = id\<rparr>"

lemma tagged_noise_contract: "noise_contract tagged_noise id"
  unfolding noise_contract_def xk_run_def
  by (simp add: tagged_noise_def tagged_write_def tagged_read_def)

lemma tagged_noise_binding: "noise_binding tagged_noise"
  unfolding noise_binding_def
  by (auto simp: tagged_noise_def tagged_write_def tagged_read_def split: prod.splits list.splits if_splits)

lemma tagged_handshaking: "handshaking tagged_cfg id clear_auth id (\<lambda>(k, seen). (k, set seen)) 64 256"
  using demo_handshaking tagged_noise_contract
  by (simp add: handshaking_def demo_cfg_def demo_ctx_def tagged_cfg_def hs_fits_def fill_ok_def sealable_def)

theorem slow_path_attempt_fails_witness:
  "\<exists>d d' w2 w2' w3.
    (\<forall>sk. send_script sk = [] \<longrightarrow> inbox sk = [Deadline, Dgram demo_server w2, Dgram demo_server w2'] \<longrightarrow>
       (\<exists>g'. client_attempt (ctx tagged_cfg) 0 demo_server (id (server_priv tagged_cfg)) demo_key sk 0 =
          (None, sk\<lparr>sent := sent sk @ map (Pair demo_server) [d, d', w3, w3, w3, w3], inbox := []\<rparr>, g'))) \<and>
    (\<forall>t1 t2 t3 ts.
       (let s = serve_obfs_udp tagged_cfg [1] 0;
            s' = foldl (udp_step tagged_cfg) s ([Recv t1 False demo_client d, Recv t2 False demo_client d', Recv t3 False demo_client w3] @
              map (\<lambda>t. Recv t False demo_client w3) ts)
        in sent_dgrams s' = sent_dgrams s @ [(demo_client, w2), (demo_client, w2')] \<and> conns s' = conns s \<and> handled s' = handled s))"
  unfolding Let_def [of "serve_obfs_udp tagged_cfg [1] 0"]
  by (rule slow_path_attempt_fails [OF tagged_handshaking])
    (simp_all add: tagged_cfg_def tagged_noise_binding demo_key_def serve_obfs_udp_def MAX_PEERS_def PENDING_SOFT_LIMIT_def)

end
