(* ===== verification/Udp_Refusal.thy ===== *)
theory Udp_Refusal
  imports Udp_Establish
begin

text \<open>
  UDP handshakes that fail: against a server that stays silent, with the wrong server key, and with
  forged second messages. \<open>quiet\<close> says that nothing arrives from the server and no receive fails;
  \<open>burst\<close> is what the retransmission loop then sends. \<open>noise_pins\<close> is what pinning the server's key means
  for Noise XK: a first message made for another key does not authenticate.
\<close>

definition quiet :: "socket_addr \<Rightarrow> udp_ev list \<Rightarrow> bool" where
  "quiet server es \<longleftrightarrow> list_all (\<lambda>e. case e of Deadline \<Rightarrow> True | RecvErr _ \<Rightarrow> False | Dgram src _ \<Rightarrow> src \<noteq> server) es"

fun burst :: "nat \<Rightarrow> 'g dgram_mimicry \<Rightarrow> bytes \<Rightarrow> 'g \<Rightarrow> bytes list \<times> 'g" where
  "burst 0 M framed g = ([], g)"
| "burst (Suc n) M framed g =
     (case shape_hs Hs1 framed M g of (d, g1) \<Rightarrow> (case burst n M framed g1 of (ds, g2) \<Rightarrow> (d # ds, g2)))"

definition noise_pins :: "'h noise_api \<Rightarrow> (bytes \<Rightarrow> bytes) \<Rightarrow> bool" where
  "noise_pins N pub \<longleftrightarrow>
     (\<forall>e e' client server other i0 msg1 i1 r0. pub server \<noteq> other \<longrightarrow>
        hs_initiator N e client other = Inr i0 \<longrightarrow> hs_write N i0 [] = (Inr msg1, i1) \<longrightarrow> hs_responder N e' server = Inr r0 \<longrightarrow>
        (\<exists>err r1. hs_read N r0 msg1 = (Inl err, r1)))"

definition exhausted :: obfs_error where
  "exhausted = HandshakeFailed ''handshake exhausted all attempts''"

subsection \<open>Silence\<close>

lemma quiet_recv: "quiet a es \<Longrightarrow> \<exists>es'. recv_from_server a n es = (None, es') \<and> quiet a es'"
  by (induction a n es rule: recv_from_server.induct) (auto simp: quiet_def)

lemma length_burst: "length (fst (burst n M framed g)) = n"
  by (induction n arbitrary: g) (simp_all add: split_beta)

lemma burst_shaped: "d \<in> set (fst (burst n M framed g)) \<Longrightarrow> \<exists>g1 g2. shape_hs Hs1 framed M g1 = (d, g2)"
proof (induction n arbitrary: g)
  case (Suc n)
  obtain d1 g1 where s: "shape_hs Hs1 framed M g = (d1, g1)" by fastforce
  obtain ds g2 where b: "burst n M framed g1 = (ds, g2)" by fastforce
  show ?case using Suc.prems Suc.IH [of g1] s b by auto
qed simp

lemma quiet_loop:
  assumes "send_script sk = []" and "quiet a (inbox sk)"
  shows "\<exists>es. quiet a es \<and> msg1_loop n a M msg1 c sk g =
    (Inr None, sk\<lparr>sent := sent sk @ map (Pair a) (fst (burst n M (encode_msg1_framed msg1 c) g)), inbox := es\<rparr>,
     snd (burst n M (encode_msg1_framed msg1 c) g))"
  using assms
proof (induction n arbitrary: sk g)
  case 0
  then show ?case by (intro exI [of _ "inbox sk"]) simp
next
  case (Suc n)
  obtain d g1 where s: "shape_hs Hs1 (encode_msg1_framed msg1 c) M g = (d, g1)" by fastforce
  obtain es where es: "recv_from_server a HS_MAX_DGRAM (inbox sk) = (None, es)" "quiet a es" using quiet_recv [OF Suc.prems(2)] by blast
  let ?sk = "sk\<lparr>sent := sent sk @ [(a, d)], inbox := es\<rparr>"
  from Suc.IH [of ?sk g1] Suc.prems(1) es(2) obtain es' where "quiet a es'"
    "msg1_loop n a M msg1 c ?sk g1 = (Inr None, ?sk\<lparr>sent := sent ?sk @ map (Pair a) (fst (burst n M (encode_msg1_framed msg1 c) g1)), inbox := es'\<rparr>,
     snd (burst n M (encode_msg1_framed msg1 c) g1))" by auto
  then show ?case
    by (intro exI [of _ es']) (simp add: s es send_to_def Suc.prems(1) split: prod.splits)
qed

text \<open>
  Whatever the first messages are, silence uses up all attempts; the datagrams do not depend on what
  else arrives. \<open>P\<close> is any property of the first messages.
\<close>

lemma quiet_attempts:
  assumes P: "\<And>e. \<exists>i0 msg1 i1. hs_initiator (noise U) e cp sp = Inr i0 \<and> hs_write (noise U) i0 [] = (Inr msg1, i1) \<and> P msg1"
  shows "\<exists>ups g'. length ups = n * MAX_HS_TRIES \<and>
    (\<forall>d \<in> set ups. \<exists>msg1 g1 g2. P msg1 \<and> shape_hs Hs1 (encode_msg1_framed msg1 None) (profile U) g1 = (d, g2)) \<and>
    (\<forall>sk. send_script sk = [] \<longrightarrow> quiet a (inbox sk) \<longrightarrow>
       (\<exists>es. client_attempts n U ent a sp cp sk g = (Inl exhausted, sk\<lparr>sent := sent sk @ map (Pair a) ups, inbox := es\<rparr>, g')))"
proof (induction n arbitrary: ent g)
  case 0
  have "\<exists>es. client_attempts 0 U ent a sp cp sk g = (Inl exhausted, sk\<lparr>sent := sent sk @ map (Pair a) [], inbox := es\<rparr>, g)" for sk
    by (rule exI [of _ "inbox sk"]) (simp add: exhausted_def)
  then show ?case by (intro exI [of _ "[]"] exI [of _ g]) simp
next
  case (Suc n)
  obtain seed g1 where f: "fill_bytes U 32 g = (seed, g1)" by fastforce
  obtain i0 msg1 i1 where i: "hs_initiator (noise U) ent cp sp = Inr i0" "hs_write (noise U) i0 [] = (Inr msg1, i1)" "P msg1"
    using P by blast
  obtain ds g2 where b: "burst MAX_HS_TRIES (profile U) (encode_msg1_framed msg1 None) g1 = (ds, g2)" by fastforce
  obtain ups g' where l: "length ups = n * MAX_HS_TRIES"
    and shaped: "\<forall>d \<in> set ups. \<exists>msg1 g1 g2. P msg1 \<and> shape_hs Hs1 (encode_msg1_framed msg1 None) (profile U) g1 = (d, g2)"
    and run: "\<And>sk. send_script sk = [] \<Longrightarrow> quiet a (inbox sk) \<Longrightarrow>
      \<exists>es. client_attempts n U (Suc ent) a sp cp sk g2 = (Inl exhausted, sk\<lparr>sent := sent sk @ map (Pair a) ups, inbox := es\<rparr>, g')"
    using Suc.IH [of "Suc ent" g2] by blast
  have "length (ds @ ups) = Suc n * MAX_HS_TRIES"
    using l length_burst [of MAX_HS_TRIES "profile U" "encode_msg1_framed msg1 None" g1] b by simp
  moreover have "\<forall>d \<in> set (ds @ ups). \<exists>msg1 g1 g2. P msg1 \<and> shape_hs Hs1 (encode_msg1_framed msg1 None) (profile U) g1 = (d, g2)"
    using shaped i(3) burst_shaped [of _ MAX_HS_TRIES "profile U" "encode_msg1_framed msg1 None" g1] b by auto
  moreover have "\<exists>es. client_attempts (Suc n) U ent a sp cp sk g = (Inl exhausted, sk\<lparr>sent := sent sk @ map (Pair a) (ds @ ups), inbox := es\<rparr>, g')"
    if sk: "send_script sk = []" "quiet a (inbox sk)" for sk
  proof -
    obtain es where es: "quiet a es" "msg1_loop MAX_HS_TRIES a (profile U) msg1 None sk g1 = (Inr None, sk\<lparr>sent := sent sk @ map (Pair a) ds, inbox := es\<rparr>, g2)"
      using quiet_loop [OF sk, of MAX_HS_TRIES "profile U" msg1 None g1] b by auto
    then show ?thesis
      using run [of "sk\<lparr>sent := sent sk @ map (Pair a) ds, inbox := es\<rparr>"] sk(1) by (auto simp: client_attempt_def f i)
  qed
  ultimately show ?case by blast
qed

subsection \<open>A first message for another key\<close>

definition unauthentic :: "('x, 'g, 'h, 'sl, 'op, 'c) udp_server_cfg \<Rightarrow> bytes \<Rightarrow> bool" where
  "unauthentic K msg1 \<longleftrightarrow> length msg1 \<le> 128 \<and>
     (\<forall>e. \<exists>r0 err r1. hs_responder (noise (ctx K)) e (server_priv K) = Inr r0 \<and> hs_read (noise (ctx K)) r0 msg1 = (Inl err, r1))"

lemma other_key_unauthentic:
  assumes N: "noise_contract (noise (ctx K)) pub" "noise_pins (noise (ctx K)) pub"
    and len: "length client = 32" "length other = 32" "length (server_priv K) = 32" and wrong: "pub other \<noteq> pub (server_priv K)"
  shows "\<exists>i0 msg1 i1. hs_initiator (noise (ctx K)) e client (pub other) = Inr i0 \<and> hs_write (noise (ctx K)) i0 [] = (Inr msg1, i1) \<and>
    unauthentic K msg1"
proof -
  obtain i0 msg1 i1 where i: "hs_initiator (noise (ctx K)) e client (pub other) = Inr i0" "hs_write (noise (ctx K)) i0 [] = (Inr msg1, i1)"
      "length msg1 \<le> 128"
    using N(1) len(1,2) unfolding noise_contract_def xk_run_def by (metis le0 list.size(3))
  have "\<exists>r0. hs_responder (noise (ctx K)) e' (server_priv K) = Inr r0" for e' using N(1) len(1,3) unfolding noise_contract_def by blast
  then have "unauthentic K msg1" using N(2) wrong i unfolding noise_pins_def unauthentic_def by metis
  with i show ?thesis by blast
qed

text \<open>What the server had, or less of it, and nothing sent or served.\<close>

definition unmoved ::
  "('x, 'g, 'h, 'sl, 'op, 'c) udp_server \<Rightarrow> ('x, 'g, 'h, 'sl, 'op, 'c) udp_server \<Rightarrow> bool" where
  "unmoved s s' \<longleftrightarrow>
     sent_dgrams s' = sent_dgrams s \<and> handled s' = handled s \<and> conns s' = conns s \<and>
     fmdom (pending s') |\<subseteq>| fmdom (pending s) \<and> fmdom (peers s') |\<subseteq>| fmdom (peers s)"

lemma unmoved_refl: "unmoved s s"
  by (simp add: unmoved_def)

lemma unmoved_trans: "unmoved s s1 \<Longrightarrow> unmoved s1 s2 \<Longrightarrow> unmoved s s2"
  by (auto simp: unmoved_def)

lemma unmoved_cleanup: "unmoved s (cleanup now (s\<lparr>entropy := n\<rparr>))"
  by (auto simp: unmoved_def cleanup_def retain_def)

lemma unmoved_pending: "unmoved s s' \<Longrightarrow> fmsize (pending s') \<le> fmsize (pending s)"
  by (auto simp: unmoved_def fmsize_def intro: fcard_mono)

lemma step_unauthentic:
  assumes "mimicry_ok (profile (ctx K))" and "hs_fits (ctx K)" and m: "unauthentic K msg1"
    and d: "shape_hs Hs1 (encode_msg1_framed msg1 None) (profile (ctx K)) g1 = (d, g2)" and "fmsize (pending s) < PENDING_SOFT_LIMIT"
  shows "unmoved s (udp_step K s (Recv now False src d))"
proof -
  obtain r0 err r1 where r: "hs_responder (noise (ctx K)) (entropy s) (server_priv K) = Inr r0" "hs_read (noise (ctx K)) r0 msg1 = (Inl err, r1)"
    and l: "length msg1 \<le> 128" using m unfolding unauthentic_def by metis
  have w: "hs_wire (ctx K) Hs1 (encode_msg1_framed msg1 None) d"
    using l by (intro shape_hs_wire [OF assms(2,1) _ d]) (simp add: encode_msg1_framed_def)
  have "decode_msg1_framed (encode_msg1_framed msg1 None) = Some (msg1, None)"
    using msg1.decode_encode [of "(msg1, None)"] l by (simp add: msg1_wf_def)
  then have "udp_step K s (Recv now False src d) \<in> {s, cleanup now (s\<lparr>entropy := Suc (entropy s)\<rparr>)}"
    using assms(5) r by (auto simp: step_hs [OF w] handle_hs1_def Let_def process_hs1_def always_open_def)
  then show ?thesis using unmoved_refl unmoved_cleanup by fastforce
qed

lemma refused_run:
  assumes step: "\<And>s t d. d \<in> set ups \<Longrightarrow> fmsize (pending s) < PENDING_SOFT_LIMIT \<Longrightarrow> unmoved s (udp_step K s (Recv t False src d))"
  shows "fmsize (pending s) < PENDING_SOFT_LIMIT \<Longrightarrow> unmoved s (foldl (udp_step K) s (map2 (\<lambda>t d. Recv t False src d) ts ups))"
  using step
proof (induction ups arbitrary: ts s)
  case (Cons d ups)
  show ?case
  proof (cases ts)
    case (Cons t ts')
    have u: "unmoved s (udp_step K s (Recv t False src d))" using Cons.prems by simp
    then have "fmsize (pending (udp_step K s (Recv t False src d))) < PENDING_SOFT_LIMIT" using Cons.prems(1) unmoved_pending by fastforce
    from Cons.IH [OF this] Cons.prems(2) unmoved_trans [OF u] show ?thesis by (simp add: \<open>ts = t # ts'\<close>)
  qed (simp add: unmoved_refl)
qed (simp add: unmoved_refl)

subsection \<open>Forged second messages\<close>

definition forged :: "('x, 'g, 'h, 'sl, 'op) udp_ctx \<Rightarrow> bytes \<Rightarrow> bytes \<Rightarrow> bytes \<Rightarrow> bool" where
  "forged U sp cp d \<longleftrightarrow>
     (\<exists>body. hs_wire U Hs2 body d \<and>
        (\<forall>e i0 msg1 i1. hs_initiator (noise U) e cp sp = Inr i0 \<longrightarrow> hs_write (noise U) i0 [] = (Inr msg1, i1) \<longrightarrow>
           (\<exists>err i2. hs_read (noise U) i1 body = (Inl err, i2))))"

lemma forged_attempts:
  assumes N: "\<And>e. \<exists>i0 msg1 i1. hs_initiator (noise U) e cp sp = Inr i0 \<and> hs_write (noise U) i0 [] = (Inr msg1, i1)"
  shows "\<forall>d \<in> set ds. forged U sp cp d \<Longrightarrow> send_script sk = [] \<Longrightarrow> inbox sk = map (Dgram a) ds @ rest \<Longrightarrow>
    \<exists>ups g'. length ups = length ds \<and>
      client_attempts (length ds) U ent a sp cp sk g = (Inl exhausted, sk\<lparr>sent := sent sk @ map (Pair a) ups, inbox := rest\<rparr>, g')"
proof (induction ds arbitrary: ent sk g)
  case Nil
  then show ?case by (intro exI [of _ "[]"] exI [of _ g]) (simp add: exhausted_def)
next
  case (Cons d ds)
  obtain seed g1 where f: "fill_bytes U 32 g = (seed, g1)" by fastforce
  obtain i0 msg1 i1 where i: "hs_initiator (noise U) ent cp sp = Inr i0" "hs_write (noise U) i0 [] = (Inr msg1, i1)" using N by blast
  obtain body err i2 where b: "hs_wire U Hs2 body d" "hs_read (noise U) i1 body = (Inl err, i2)"
    using Cons.prems(1) i by (fastforce simp: forged_def)
  obtain w g2 where w: "shape_hs Hs1 (encode_msg1_framed msg1 None) (profile U) g1 = (w, g2)" by fastforce
  let ?sk = "sk\<lparr>sent := sent sk @ [(a, w)], inbox := map (Dgram a) ds @ rest\<rparr>"
  have "msg1_loop (Suc 11) a (profile U) msg1 None sk g1 = (Inr (Some body), ?sk, g2)"
    using Cons.prems(3) by (intro msg1_loop_msg2 [OF w Cons.prems(2) _ b(1)]) simp
  then have "client_attempt U ent a sp cp sk g = (None, ?sk, g2)"
    by (simp add: client_attempt_def f i MAX_HS_TRIES_def finish_attempt_def b(2))
  moreover obtain ups g' where "length ups = length ds"
    "client_attempts (length ds) U (Suc ent) a sp cp ?sk g2 = (Inl exhausted, ?sk\<lparr>sent := sent ?sk @ map (Pair a) ups, inbox := rest\<rparr>, g')"
    using Cons.IH [of ?sk "Suc ent" g2] Cons.prems(1,2) by auto
  ultimately show ?case by (intro exI [of _ "w # ups"] exI [of _ g']) simp
qed

subsection \<open>A concrete key check\<close>

text \<open>A state machine like \<open>demo_noise\<close> whose first message carries the server's key, which the responder compares.\<close>

definition keyed_noise :: "(bytes \<times> bytes \<times> nat \<times> bytes option) noise_api" where
  "keyed_noise =
     \<lparr>hs_initiator = (\<lambda>_ k sp. Inr (sp, k, 0, None)), hs_responder = (\<lambda>_ k. Inr (k, k, 0, None)),
      hs_write = (\<lambda>(sp, hs) p. (Inr (if fst (snd hs) = 0 then 0 # sp else case demo_write hs p of (Inr m, _) \<Rightarrow> m | _ \<Rightarrow> []),
         sp, snd (demo_write hs p))),
      hs_read = (\<lambda>(sp, hs) m. if fst (snd hs) = 0 then (if m = 0 # sp then (Inr [], sp, snd (demo_read hs [0])) else (Inl ''decrypt'', sp, hs))
         else (fst (demo_read hs m), sp, snd (demo_read hs m))),
      hs_remote_static = (\<lambda>(_, _, _, rs). rs)\<rparr>"

lemma keyed_noise_contract: "noise_contract keyed_noise id"
  unfolding noise_contract_def xk_run_def
  by (simp add: keyed_noise_def demo_write_def demo_read_def)

lemma keyed_noise_pins: "noise_pins keyed_noise id"
  by (auto simp: noise_pins_def keyed_noise_def)

definition keyed_cfg ::
  "(unit, nat, bytes \<times> bytes \<times> nat \<times> bytes option, bytes \<times> nat, bytes \<times> nat list, bytes \<times> bytes) udp_server_cfg" where
  "keyed_cfg =
     \<lparr>ctx = \<lparr>noise = keyed_noise, records = clear_records, json = plain_serde, mac = demo_mac, profile = passthrough,
        fill_bytes = (\<lambda>n g. (replicate n (of_nat g), Suc g))\<rparr>,
      cookies = demo_cookies, service = demo_service, auth_gate = (\<lambda>_. Inr ()), server_priv = replicate 32 1, task_rng = id\<rparr>"

lemma keyed_fits: "hs_fits (ctx keyed_cfg)" and keyed_mimicry: "mimicry_ok (profile (ctx keyed_cfg))"
  using passthrough_ok by (simp_all add: hs_fits_def keyed_cfg_def shape_hs_def encode_inner_def passthrough_def MAX_UDP_def)

subsection \<open>Properties\<close>

text \<open>
  C22. A wrong server key fails, in bounded time and without a trace. A client that has pinned another
  key than the server's sends 36 first messages, twelve in each of three attempts, and then reports
  that it has exhausted its attempts; the server, if it is not under load, answers none of them,
  keeps no half-open handshake, admits and serves nobody.
\<close>

theorem wrong_key_refused:
  assumes N: "noise_contract (noise (ctx K)) pub" "noise_pins (noise (ctx K)) pub" and M: "mimicry_ok (profile (ctx K))" "hs_fits (ctx K)"
    and len: "length client = 32" "length other = 32" "length (server_priv K) = 32" and wrong: "pub other \<noteq> pub (server_priv K)"
    and calm: "fmsize (pending s) < PENDING_SOFT_LIMIT"
  shows "\<exists>ups. length ups = 36 \<and>
    (\<forall>sk. send_script sk = [] \<longrightarrow> quiet server (inbox sk) \<longrightarrow>
       (\<exists>es g'. client_udp_handshake (ctx K) ent server (pub other) client sk g =
          (Inl exhausted, sk\<lparr>sent := sent sk @ map (Pair server) ups, inbox := es\<rparr>, g'))) \<and>
    (\<forall>ts. unmoved s (foldl (udp_step K) s (map2 (\<lambda>t d. Recv t False src d) ts ups)))"
proof -
  let ?U = "ctx K"
  from quiet_attempts [of ?U client "pub other" "unauthentic K" MAX_HANDSHAKE_ATTEMPTS server ent g, OF other_key_unauthentic [OF N len wrong]]
  obtain ups g' where ups: "length ups = 36"
    and shaped: "\<forall>d \<in> set ups. \<exists>msg1 g1 g2. unauthentic K msg1 \<and> shape_hs Hs1 (encode_msg1_framed msg1 None) (profile ?U) g1 = (d, g2)"
    and run: "\<forall>sk. send_script sk = [] \<longrightarrow> quiet server (inbox sk) \<longrightarrow>
      (\<exists>es. client_attempts MAX_HANDSHAKE_ATTEMPTS ?U ent server (pub other) client sk g =
         (Inl exhausted, sk\<lparr>sent := sent sk @ map (Pair server) ups, inbox := es\<rparr>, g'))"
    by (auto simp: MAX_HS_TRIES_def MAX_HANDSHAKE_ATTEMPTS_def)
  have "unmoved s (udp_step K s (Recv t False src d))" if "d \<in> set ups" "fmsize (pending s) < PENDING_SOFT_LIMIT" for s t d
    using shaped that(1) step_unauthentic [OF M _ _ that(2)] by blast
  from refused_run [of ups K src, OF this calm] ups run show ?thesis unfolding client_udp_handshake_def by blast
qed

theorem wrong_key_refused_witness:
  "\<exists>ups. length ups = 36 \<and>
    (\<forall>sk. send_script sk = [] \<longrightarrow> quiet demo_server (inbox sk) \<longrightarrow>
       (\<exists>es g'. client_udp_handshake (ctx keyed_cfg) 0 demo_server (id (replicate 32 2)) demo_key sk 0 =
          (Inl exhausted, sk\<lparr>sent := sent sk @ map (Pair demo_server) ups, inbox := es\<rparr>, g'))) \<and>
    (\<forall>ts. unmoved (serve_obfs_udp keyed_cfg [1] 0)
       (foldl (udp_step keyed_cfg) (serve_obfs_udp keyed_cfg [1] 0) (map2 (\<lambda>t d. Recv t False demo_client d) ts ups)))"
proof (rule wrong_key_refused [where pub = id and other = "replicate 32 2", OF _ _ keyed_mimicry keyed_fits])
  show "noise_contract (noise (ctx keyed_cfg)) id" and "noise_pins (noise (ctx keyed_cfg)) id"
    using keyed_noise_contract keyed_noise_pins by (simp_all add: keyed_cfg_def)
qed (simp_all add: keyed_cfg_def demo_key_def serve_obfs_udp_def PENDING_SOFT_LIMIT_def)

text \<open>
  C39. Three forged replies defeat the handshake. A second message that does not authenticate ends the
  attempt at once, instead of being passed over: three datagrams with the server's address that look
  like second messages, arriving before the server's own, make the client give up after three first
  messages, and whatever arrives after them is not even read.
\<close>

theorem forged_replies_defeat_handshake:
  assumes "\<forall>e. \<exists>i0 msg1 i1. hs_initiator (noise U) e client server_pub = Inr i0 \<and> hs_write (noise U) i0 [] = (Inr msg1, i1)"
    and "\<forall>d \<in> set ds. forged U server_pub client d" and "length ds = 3" and "send_script sk = []"
    and "inbox sk = map (Dgram server) ds @ rest"
  shows "\<exists>ups g'. length ups = 3 \<and>
    client_udp_handshake U ent server server_pub client sk g = (Inl exhausted, sk\<lparr>sent := sent sk @ map (Pair server) ups, inbox := rest\<rparr>, g')"
  using forged_attempts [of U client server_pub ds sk server rest ent g] assms
  by (simp add: client_udp_handshake_def MAX_HANDSHAKE_ATTEMPTS_def)

theorem forged_replies_defeat_handshake_witness:
  "\<exists>ups g'. length ups = 3 \<and>
    client_udp_handshake demo_ctx 0 demo_server demo_key demo_key
      (demo_sock\<lparr>inbox := map (Dgram demo_server) (replicate 3 [2, 9]) @ [Dgram demo_server [2, 1]]\<rparr>) 0 =
    (Inl exhausted, (demo_sock\<lparr>inbox := map (Dgram demo_server) (replicate 3 [2, 9]) @ [Dgram demo_server [2, 1]]\<rparr>)
      \<lparr>sent := sent (demo_sock\<lparr>inbox := map (Dgram demo_server) (replicate 3 [2, 9]) @ [Dgram demo_server [2, 1]]\<rparr>) @ map (Pair demo_server) ups,
       inbox := [Dgram demo_server [2, 1]]\<rparr>, g')"
proof (rule forged_replies_defeat_handshake [where ds = "replicate 3 [2, 9]"])
  have "hs_wire demo_ctx Hs2 [9] [2, 9]"
    by (simp add: hs_wire_def unshape_hs_def demo_ctx_def passthrough_def MAX_UDP_def)
  then show "\<forall>d \<in> set (replicate 3 [2, 9]). forged demo_ctx demo_key demo_key d"
    by (auto simp: forged_def demo_ctx_def demo_noise_def demo_write_def demo_read_def)
qed (simp_all add: demo_ctx_def demo_noise_def demo_write_def demo_sock_def)

end
