(* ===== verification/Udp_Round_Trip.thy ===== *)
theory Udp_Round_Trip
  imports Udp_Establish
begin

text \<open>
  UDP from end to end: the handshake of \<open>Udp_Establish\<close> followed by a remote call as in \<open>Udp_Session\<close>,
  on the very transport that connecting returns and the very state the server is left in.
\<close>

lemma new_transport_idle [simp]:
  "ut_alive (new_udp_transport server ch g cap)" "ut_calls (new_udp_transport server ch g cap) = []"
  by (simp_all add: new_udp_transport_def)

subsection \<open>Properties\<close>



end
