(* ===== verification/Framing.thy ===== *)
theory Framing
  imports Demo_Serde "HOL-Library.Sublist"
begin

text \<open>
  Encrypted framing of the TCP transport, \<^verbatim>\<open>src/framing.rs\<close>.

  The byte-stream profile and the session of \<^verbatim>\<open>vaiexia-wire\<close> are arguments. \<open>frame_in\<close> takes the
  accumulation buffer and returns its verdict with the buffer it leaves. A receive that finds no
  more input is \<open>Blocked\<close>; it leaves the stream and the buffer as a dropped future would, so the next
  call starts from them. Writing does not wait.

  The contracts: \<open>frame_contract\<close>, a frame is recognised as soon as it is complete, whatever follows
  it, and not before; \<open>frame_stable\<close>, asking again without new bytes changes nothing;
  \<open>session_contract\<close>, paired sessions decrypt what was encrypted, in order.
\<close>

datatype frame_in_result = Record bytes | NeedMore | Invalid string

record 'g mimicry_profile =
  frame_out :: "bytes \<Rightarrow> 'g \<Rightarrow> (string + bytes) \<times> 'g"
  frame_in :: "bytes \<Rightarrow> frame_in_result \<times> bytes"
  preamble :: "'g \<Rightarrow> bytes \<times> 'g"
  preamble_skip :: nat
  jitter :: "'g \<Rightarrow> nat \<times> 'g"

record 's session_api =
  encrypt :: "'s \<Rightarrow> bytes \<Rightarrow> (string + bytes) \<times> 's"
  decrypt :: "'s \<Rightarrow> bytes \<Rightarrow> (string + bytes) \<times> 's"

definition READ_CHUNK :: nat where "READ_CHUNK = 4096"

definition MAX_FRAME :: nat where "MAX_FRAME = 16 * 1024 * 1024"

definition eof_error :: "bytes \<Rightarrow> obfs_error" where
  "eof_error buf = (if buf = [] then Closed else Io (IoError UnexpectedEof ''EOF mid-frame''))"

definition send_frame ::
  "'g mimicry_profile \<Rightarrow> 's session_api \<Rightarrow> 'x serde \<Rightarrow> stream \<Rightarrow> 's \<Rightarrow> 'x envelope \<Rightarrow> 'g \<Rightarrow>
   (obfs_error, unit) res \<times> stream \<times> 's \<times> 'g" where
  "send_frame P S J st ses env rng =
     (case to_vec J env of
        Inl e \<Rightarrow> (Err (Serde e), st, ses, rng)
      | Inr plaintext \<Rightarrow>
          (case encrypt S ses plaintext of
             (Inl e, ses') \<Rightarrow> (Err (Wire e), st, ses', rng)
           | (Inr ciphertext, ses') \<Rightarrow>
               (case frame_out P ciphertext rng of
                  (Inl e, rng') \<Rightarrow> (Err (Wire e), st, ses', rng')
                | (Inr wire, rng') \<Rightarrow>
                    (case write_all wire st of (r, st') \<Rightarrow> (io_res r, st', ses', rng')))))"

definition send_raw ::
  "'g mimicry_profile \<Rightarrow> stream \<Rightarrow> 'g \<Rightarrow> bytes \<Rightarrow> (obfs_error, unit) res \<times> stream \<times> 'g" where
  "send_raw P st rng b =
     (case frame_out P b rng of
        (Inl e, rng') \<Rightarrow> (Err (Wire e), st, rng')
      | (Inr wire, rng') \<Rightarrow> (case write_all wire st of (r, st') \<Rightarrow> (io_res r, st', rng')))"

lemma read_some_shrinks:
  "read_some n st = (Ok (b # bs), st') \<Longrightarrow> 0 < n \<Longrightarrow> length (flat st') < length (flat st)"
  using read_some_Ok(1) [of n st b bs st'] by simp

function recv_raw :: "'g mimicry_profile \<Rightarrow> stream \<Rightarrow> bytes \<Rightarrow> (obfs_error, bytes) res \<times> stream \<times> bytes" where
  "recv_raw P st buf =
     (case frame_in P buf of
        (Record b, buf') \<Rightarrow> (Ok b, st, buf')
      | (NeedMore, buf') \<Rightarrow>
          (case read_some READ_CHUNK st of
             (Ok [], st') \<Rightarrow> (Err (eof_error buf'), st', buf')
           | (Ok (n # ns), st') \<Rightarrow> recv_raw P st' (buf' @ n # ns)
           | (Err e, st') \<Rightarrow> (Err (Io e), st', buf')
           | (Blocked, st') \<Rightarrow> (Blocked, st', buf'))
      | (Invalid m, buf') \<Rightarrow> (Err (Io (IoError InvalidData ''invalid framing'')), st, buf'))"
  by pat_completeness auto
termination
  by (relation "measure (\<lambda>(P, st, buf). length (flat st))")
    (auto simp: READ_CHUNK_def intro: read_some_shrinks [OF sym])

function recv_frame ::
  "'g mimicry_profile \<Rightarrow> 's session_api \<Rightarrow> 'x serde \<Rightarrow> stream \<Rightarrow> 's \<Rightarrow> bytes \<Rightarrow>
   (obfs_error, 'x envelope) res \<times> stream \<times> 's \<times> bytes" where
  "recv_frame P S J st ses buf =
     (case frame_in P buf of
        (Record ciphertext, buf') \<Rightarrow>
          (case decrypt S ses ciphertext of
             (Inl e, ses') \<Rightarrow> (Err (Wire e), st, ses', buf')
           | (Inr plaintext, ses') \<Rightarrow>
               (case from_slice J plaintext of
                  Inl e \<Rightarrow> (Err (Serde e), st, ses', buf')
                | Inr env \<Rightarrow> (Ok env, st, ses', buf')))
      | (NeedMore, buf') \<Rightarrow>
          (case read_some READ_CHUNK st of
             (Ok [], st') \<Rightarrow> (Err (eof_error buf'), st', ses, buf')
           | (Ok (n # ns), st') \<Rightarrow> recv_frame P S J st' ses (buf' @ n # ns)
           | (Err e, st') \<Rightarrow> (Err (Io e), st', ses, buf')
           | (Blocked, st') \<Rightarrow> (Blocked, st', ses, buf'))
      | (Invalid m, buf') \<Rightarrow> (Err (Io (IoError InvalidData ''invalid framing'')), st, ses, buf'))"
  by pat_completeness auto
termination
  by (relation "measure (\<lambda>(P, S, J, st, ses, buf). length (flat st))")
    (auto simp: READ_CHUNK_def intro: read_some_shrinks [OF sym])

declare recv_raw.simps [simp del] recv_frame.simps [simp del]

text \<open>
  The wrappers: a writer and a reader that own their half of a stream and, for the reader, the
  buffer; and the older functions, which start from a fresh buffer on every call.
\<close>

record 'g framed_writer =
  fw_profile :: "'g mimicry_profile"
  fw_rng :: 'g

record 'g framed_reader =
  fr_profile :: "'g mimicry_profile"
  fr_buf :: bytes

definition framed_writer_new :: "'g mimicry_profile \<Rightarrow> 'g \<Rightarrow> 'g framed_writer" where
  "framed_writer_new P rng = \<lparr>fw_profile = P, fw_rng = rng\<rparr>"

definition framed_writer_send ::
  "'s session_api \<Rightarrow> 'x serde \<Rightarrow> 'g framed_writer \<Rightarrow> stream \<Rightarrow> 's \<Rightarrow> 'x envelope \<Rightarrow>
   (obfs_error, unit) res \<times> stream \<times> 's \<times> 'g framed_writer" where
  "framed_writer_send S J w st ses env =
     (case send_frame (fw_profile w) S J st ses env (fw_rng w) of
        (r, st', ses', rng) \<Rightarrow> (r, st', ses', w\<lparr>fw_rng := rng\<rparr>))"

definition framed_reader_new :: "'g mimicry_profile \<Rightarrow> 'g framed_reader" where
  "framed_reader_new P = \<lparr>fr_profile = P, fr_buf = []\<rparr>"

definition framed_reader_recv ::
  "'s session_api \<Rightarrow> 'x serde \<Rightarrow> 'g framed_reader \<Rightarrow> stream \<Rightarrow> 's \<Rightarrow>
   (obfs_error, 'x envelope) res \<times> stream \<times> 's \<times> 'g framed_reader" where
  "framed_reader_recv S J r st ses =
     (case recv_frame (fr_profile r) S J st ses (fr_buf r) of
        (x, st', ses', buf) \<Rightarrow> (x, st', ses', r\<lparr>fr_buf := buf\<rparr>))"

definition write_frame ::
  "'g mimicry_profile \<Rightarrow> 's session_api \<Rightarrow> 'x serde \<Rightarrow> 'g \<Rightarrow> stream \<Rightarrow> 's \<Rightarrow> 'x envelope \<Rightarrow>
   (obfs_error, unit) res \<times> stream \<times> 's" where
  "write_frame vanilla S J rng st ses env =
     (case send_frame vanilla S J st ses env rng of (r, st', ses', _) \<Rightarrow> (r, st', ses'))"

definition read_frame ::
  "'g mimicry_profile \<Rightarrow> 's session_api \<Rightarrow> 'x serde \<Rightarrow> stream \<Rightarrow> 's \<Rightarrow>
   (obfs_error, 'x envelope) res \<times> stream \<times> 's" where
  "read_frame vanilla S J st ses =
     (case recv_frame vanilla S J st ses [] of (r, st', ses', _) \<Rightarrow> (r, st', ses'))"

subsection \<open>Contracts of the arguments\<close>

definition frame_contract :: "'g mimicry_profile \<Rightarrow> bool" where
  "frame_contract P \<longleftrightarrow>
     (\<forall>r g w g'. frame_out P r g = (Inr w, g') \<longrightarrow> w \<noteq> [] \<and>
        (\<forall>rest. frame_in P (w @ rest) = (Record r, rest)) \<and>
        (\<forall>p. strict_prefix p w \<longrightarrow> frame_in P p = (NeedMore, p)))"

definition frame_stable :: "'g mimicry_profile \<Rightarrow> bool" where
  "frame_stable P \<longleftrightarrow> (\<forall>b b'. frame_in P b = (NeedMore, b') \<longrightarrow> frame_in P b' = (NeedMore, b'))"

definition session_contract :: "'s session_api \<Rightarrow> ('s \<Rightarrow> 's \<Rightarrow> bool) \<Rightarrow> bool" where
  "session_contract S paired \<longleftrightarrow>
     (\<forall>a b p c a'. paired a b \<longrightarrow> encrypt S a p = (Inr c, a') \<longrightarrow>
        (\<exists>b'. decrypt S b c = (Inr p, b') \<and> paired a' b'))"

text \<open>Sending and receiving several envelopes in a row.\<close>

fun send_frames ::
  "'g mimicry_profile \<Rightarrow> 's session_api \<Rightarrow> 'x serde \<Rightarrow> stream \<Rightarrow> 's \<Rightarrow> 'x envelope list \<Rightarrow> 'g \<Rightarrow>
   (obfs_error, unit) res \<times> stream \<times> 's \<times> 'g" where
  "send_frames P S J st ses [] rng = (Ok (), st, ses, rng)"
| "send_frames P S J st ses (e # es) rng =
     (case send_frame P S J st ses e rng of
        (Ok _, st', ses', rng') \<Rightarrow> send_frames P S J st' ses' es rng'
      | r \<Rightarrow> r)"

fun recv_frames ::
  "nat \<Rightarrow> 'g mimicry_profile \<Rightarrow> 's session_api \<Rightarrow> 'x serde \<Rightarrow> stream \<Rightarrow> 's \<Rightarrow> bytes \<Rightarrow>
   (obfs_error, 'x envelope list) res \<times> stream \<times> 's \<times> bytes" where
  "recv_frames 0 P S J st ses buf = (Ok [], st, ses, buf)"
| "recv_frames (Suc n) P S J st ses buf =
     (case recv_frame P S J st ses buf of
        (Ok e, st', ses', buf') \<Rightarrow>
          (case recv_frames n P S J st' ses' buf' of
             (Ok es, st'', ses'', buf'') \<Rightarrow> (Ok (e # es), st'', ses'', buf'')
           | (Err x, st'', ses'', buf'') \<Rightarrow> (Err x, st'', ses'', buf'')
           | (Blocked, st'', ses'', buf'') \<Rightarrow> (Blocked, st'', ses'', buf''))
      | (Err x, st', ses', buf') \<Rightarrow> (Err x, st', ses', buf')
      | (Blocked, st', ses', buf') \<Rightarrow> (Blocked, st', ses', buf'))"

text \<open>More input: segments that arrive after the ones in the stream, and what comes after them.\<close>

definition arrive :: "bytes list \<Rightarrow> rx_status \<Rightarrow> stream \<Rightarrow> stream" where
  "arrive cs e st = st\<lparr>rx := rx st @ cs, rx_end := e\<rparr>"

text \<open>Concrete arguments for evaluation: frames with one length byte, and sessions that count.\<close>

definition short_frames :: "nat mimicry_profile" where
  "short_frames =
     \<lparr>frame_out = (\<lambda>b g. (if length b < 256 then Inr (of_nat (length b) # b) else Inl ''too long'', g)),
      frame_in = (\<lambda>buf. case buf of
          [] \<Rightarrow> (NeedMore, buf)
        | n # b \<Rightarrow> if unat n \<le> length b then (Record (take (unat n) b), drop (unat n) b) else (NeedMore, buf)),
      preamble = (\<lambda>g. ([7, 7], g)), preamble_skip = 2, jitter = (\<lambda>g. (0, g))\<rparr>"

definition counting :: "nat session_api" where
  "counting =
     \<lparr>encrypt = (\<lambda>n p. (Inr (of_nat n # p), Suc n)),
      decrypt = (\<lambda>n c. case c of
          [] \<Rightarrow> (Inl ''short'', n)
        | x # p \<Rightarrow> if x = of_nat n then (Inr p, Suc n) else (Inl ''bad'', n))\<rparr>"

definition new_stream :: "bytes list \<Rightarrow> rx_status \<Rightarrow> stream" where
  "new_stream cs e = \<lparr>rx = cs, rx_end = e, tx = [], tx_cap = None\<rparr>"

subsection \<open>Reading\<close>

lemma read_some_nonempty:
  assumes "flat st \<noteq> []" and "0 < n"
  shows "\<exists>b bs st'. read_some n st = (Ok (b # bs), st')"
proof -
  obtain c cs where tc: "take_chunk n (rx st) = Some (c, cs)"
    using assms(1) take_chunk_None [of n "rx st"] by (cases "take_chunk n (rx st)") (auto simp: flat_def)
  have "c \<noteq> []" using take_chunk_Some [OF tc assms(2)] by simp
  then show ?thesis using tc by (cases c) (auto simp: read_some_def)
qed

lemma take_chunk_append:
  "take_chunk n cs = Some (b, cs') \<Longrightarrow> take_chunk n (cs @ ds) = Some (b, cs' @ ds)"
  by (induction cs) (auto split: if_splits)

lemma read_some_arrive:
  assumes "read_some n st = (Ok (b # bs), st')"
  shows "read_some n (arrive cs e st) = (Ok (b # bs), arrive cs e st')"
  using assms take_chunk_append [of n "rx st" _ _ cs]
  by (auto simp: read_some_def arrive_def split: option.splits rx_status.splits)

lemma read_some_Blocked: "read_some n st = (Blocked, st') \<Longrightarrow> st' = st"
  by (auto simp: read_some_def split: option.splits rx_status.splits)

lemma read_some_empty: "flat st = [] \<Longrightarrow> rx_end st = Eof \<Longrightarrow> read_some n st = (Ok [], st)"
  using take_chunk_None [of n "rx st"] by (simp add: read_some_def flat_def)

lemma frame_contractD:
  assumes "frame_contract P" and "frame_out P r g = (Inr w, g')"
  shows "frame_in P (w @ rest) = (Record r, rest)" and "strict_prefix p w \<Longrightarrow> frame_in P p = (NeedMore, p)"
    and "w \<noteq> []" and "frame_in P [] = (NeedMore, [])"
proof -
  have "w \<noteq> [] \<and> (\<forall>rest. frame_in P (w @ rest) = (Record r, rest)) \<and>
    (\<forall>p. strict_prefix p w \<longrightarrow> frame_in P p = (NeedMore, p))"
    using assms unfolding frame_contract_def by blast
  then show "frame_in P (w @ rest) = (Record r, rest)" and "strict_prefix p w \<Longrightarrow> frame_in P p = (NeedMore, p)"
    and "w \<noteq> []" and "frame_in P [] = (NeedMore, [])"
    by (auto simp: strict_prefix_def)
qed

lemma session_contractD:
  "session_contract S paired \<Longrightarrow> paired a b \<Longrightarrow> encrypt S a p = (Inr c, a') \<Longrightarrow>
     \<exists>b'. decrypt S b c = (Inr p, b') \<and> paired a' b'"
  unfolding session_contract_def by blast

lemma recv_raw_complete:
  assumes c: "frame_contract P" and w: "frame_out P r g = (Inr w, g')"
  shows "buf @ flat st = w @ rest \<Longrightarrow>
    \<exists>st' buf'. recv_raw P st buf = (Ok r, st', buf') \<and> buf' @ flat st' = rest \<and> rx_end st' = rx_end st \<and>
      tx st' = tx st \<and> tx_cap st' = tx_cap st"
proof (induction "length (flat st)" arbitrary: st buf rule: less_induct)
  case less
  show ?case
  proof (cases "prefix w buf")
    case True
    then obtain b2 where b: "buf = w @ b2" by (auto simp: prefix_def)
    have "frame_in P (w @ b2) = (Record r, b2)" by (rule frame_contractD(1) [OF c w])
    then show ?thesis using less.prems b by (simp add: recv_raw.simps [of P st])
  next
    case False
    moreover have "prefix buf (w @ rest)" and "prefix w (w @ rest)"
      using less.prems by (auto simp: prefix_def intro: sym)
    ultimately have sp: "strict_prefix buf w" using prefix_same_cases prefix_order.less_le by blast
    then have nm: "frame_in P buf = (NeedMore, buf)" by (rule frame_contractD(2) [OF c w])
    have "flat st \<noteq> []" using less.prems sp by (auto simp: strict_prefix_def prefix_def)
    then obtain b bs st1 where rd: "read_some READ_CHUNK st = (Ok (b # bs), st1)"
      using read_some_nonempty by (fastforce simp: READ_CHUNK_def)
    have n: "0 < READ_CHUNK" by (simp add: READ_CHUNK_def)
    note o = read_some_Ok [OF rd n]
    have "length (flat st1) < length (flat st)" using o(1) by simp
    moreover have "(buf @ b # bs) @ flat st1 = w @ rest" using less.prems o(1) by simp
    ultimately obtain st' buf' where "recv_raw P st1 (buf @ b # bs) = (Ok r, st', buf')"
      and "buf' @ flat st' = rest" and "rx_end st' = rx_end st1 \<and> tx st' = tx st1 \<and> tx_cap st' = tx_cap st1"
      using less.hyps by blast
    then show ?thesis using o by (simp add: recv_raw.simps [of P st] nm rd)
  qed
qed

lemma recv_raw_resume:
  assumes s: "frame_stable P"
  shows "recv_raw P st buf = (Blocked, st1, buf1) \<Longrightarrow>
    recv_raw P (arrive cs e st) buf = recv_raw P (arrive cs e st1) buf1"
proof (induction "length (flat st)" arbitrary: st buf rule: less_induct)
  case less
  obtain buf' where f: "frame_in P buf = (NeedMore, buf')"
    using less.prems by (cases "frame_in P buf") (auto simp: recv_raw.simps [of P st] split: frame_in_result.splits)
  have f': "frame_in P buf' = (NeedMore, buf')" using s f by (auto simp: frame_stable_def)
  show ?case
  proof (cases "read_some READ_CHUNK st")
    case (Pair r st2)
    show ?thesis
    proof (cases r)
      case (Ok bs)
      then obtain b bs' where bs: "bs = b # bs'" using less.prems Pair f by (cases bs) (auto simp: recv_raw.simps [of P st])
      note rd = Pair [unfolded Ok bs]
      have "length (flat st2) < length (flat st)"
        by (rule read_some_shrinks [OF rd]) (simp add: READ_CHUNK_def)
      moreover have "recv_raw P st2 (buf' @ b # bs') = (Blocked, st1, buf1)"
        using less.prems by (simp add: recv_raw.simps [of P st] f rd)
      ultimately show ?thesis
        using less.hyps [of st2 "buf' @ b # bs'"]
        by (simp add: recv_raw.simps [of P "arrive cs e st"] f read_some_arrive [OF rd])
    next
      case (Err x)
      then show ?thesis using less.prems Pair f by (simp add: recv_raw.simps [of P st])
    next
      case Blocked
      then have "st1 = st" and "buf1 = buf'"
        using less.prems Pair f read_some_Blocked [of READ_CHUNK st st2] by (simp_all add: recv_raw.simps [of P st])
      then show ?thesis by (simp add: recv_raw.simps [of P "arrive cs e st"] f f')
    qed
  qed
qed

subsection \<open>The two receive loops\<close>

lemma recv_frame_raw:
  "recv_frame P S J st ses buf =
     (case recv_raw P st buf of
        (Ok ciphertext, st', buf') \<Rightarrow>
          (case decrypt S ses ciphertext of
             (Inl e, ses') \<Rightarrow> (Err (Wire e), st', ses', buf')
           | (Inr plaintext, ses') \<Rightarrow>
               (case from_slice J plaintext of
                  Inl e \<Rightarrow> (Err (Serde e), st', ses', buf')
                | Inr env \<Rightarrow> (Ok env, st', ses', buf')))
      | (Err e, st', buf') \<Rightarrow> (Err e, st', ses, buf')
      | (Blocked, st', buf') \<Rightarrow> (Blocked, st', ses, buf'))"
proof (induction "length (flat st)" arbitrary: st buf rule: less_induct)
  case less
  obtain v buf' where f: "frame_in P buf = (v, buf')" by fastforce
  obtain r st1 where rd: "read_some READ_CHUNK st = (r, st1)" by fastforce
  show ?case
  proof (cases "v = NeedMore \<and> (\<exists>b bs. r = Ok (b # bs))")
    case True
    then obtain b bs where vr: "v = NeedMore" "r = Ok (b # bs)" by blast
    have "length (flat st1) < length (flat st)"
      by (rule read_some_shrinks [OF rd [unfolded vr]]) (simp add: READ_CHUNK_def)
    from less.hyps [OF this, of "buf' @ b # bs"] show ?thesis
      by (simp add: recv_frame.simps [of P S J st] recv_raw.simps [of P st] f rd vr)
  next
    case False
    then show ?thesis
      by (cases v; cases r) (auto simp: recv_frame.simps [of P S J st] recv_raw.simps [of P st] f rd split: list.splits)
  qed
qed

lemma recv_frame_complete:
  assumes "frame_contract P" and "frame_out P c g = (Inr w, g')" and "decrypt S ses c = (Inr p, ses')"
    and "from_slice J p = Inr env" and "buf @ flat st = w @ rest"
  shows "\<exists>st' buf'. recv_frame P S J st ses buf = (Ok env, st', ses', buf') \<and> buf' @ flat st' = rest \<and>
    rx_end st' = rx_end st \<and> tx st' = tx st \<and> tx_cap st' = tx_cap st"
  using recv_raw_complete [OF assms(1,2,5)] assms(3,4) by (auto simp: recv_frame_raw)

lemma send_frame_Ok:
  assumes "send_frame P S J st a env g = (Ok u, st', a', g')"
  shows "\<exists>p c w. to_vec J env = Inr p \<and> encrypt S a p = (Inr c, a') \<and> frame_out P c g = (Inr w, g') \<and> tx st' = tx st @ w"
proof -
  obtain p c w r where p: "to_vec J env = Inr p" and c: "encrypt S a p = (Inr c, a')"
    and w: "frame_out P c g = (Inr w, g')" and wr: "write_all w st = (r, st')" and r: "io_res r = Ok u"
    using assms by (auto simp: send_frame_def split: sum.splits prod.splits)
  have "tx st' = tx st @ w" using wr r by (auto simp: write_all_def split: option.splits if_splits)
  then show ?thesis using p c w by blast
qed

lemma send_frames_recv_frames:
  assumes f: "frame_contract P" and s: "session_contract S paired"
  shows "list_all (serde_ok J) es \<Longrightarrow> send_frames P S J st a es g = (Ok (), st1, a1, g1) \<Longrightarrow> paired a b \<Longrightarrow>
    \<exists>w. tx st1 = tx st @ w \<and> (\<forall>str buf rest. buf @ flat str = w @ rest \<longrightarrow>
      (\<exists>str' b' buf'. recv_frames (length es) P S J str b buf = (Ok es, str', b', buf') \<and>
         buf' @ flat str' = rest \<and> paired a1 b'))"
proof (induction es arbitrary: st a g b)
  case (Cons e es)
  obtain r st2 a2 g2 where sf: "send_frame P S J st a e g = (r, st2, a2, g2)" by (metis prod_cases4)
  then obtain u where r: "r = Ok u" and rest: "send_frames P S J st2 a2 es g2 = (Ok (), st1, a1, g1)"
    using Cons.prems(2) by (cases r) auto
  obtain p c w where p: "to_vec J e = Inr p" and c: "encrypt S a p = (Inr c, a2)"
    and w: "frame_out P c g = (Inr w, g2)" and t: "tx st2 = tx st @ w"
    using send_frame_Ok [OF sf [unfolded r]] by blast
  obtain b2 where d: "decrypt S b c = (Inr p, b2)" and pr: "paired a2 b2"
    using session_contractD [OF s Cons.prems(3) c] by blast
  have j: "from_slice J p = Inr e" and js: "list_all (serde_ok J) es"
    using Cons.prems(1) p by (auto simp: serde_ok_def [of J e])
  obtain w2 where t2: "tx st1 = tx st2 @ w2"
    and IH: "\<And>str buf rest. buf @ flat str = w2 @ rest \<Longrightarrow>
      \<exists>str' b' buf'. recv_frames (length es) P S J str b2 buf = (Ok es, str', b', buf') \<and>
         buf' @ flat str' = rest \<and> paired a1 b'"
    using Cons.IH [OF js rest pr] by blast
  have "\<exists>str' b' buf'. recv_frames (length (e # es)) P S J str b buf = (Ok (e # es), str', b', buf') \<and>
      buf' @ flat str' = rest \<and> paired a1 b'" if bw: "buf @ flat str = (w @ w2) @ rest" for str buf rest
  proof -
    obtain str2 buf2 where "recv_frame P S J str b buf = (Ok e, str2, b2, buf2)" and "buf2 @ flat str2 = w2 @ rest"
      using recv_frame_complete [OF f w d j, of buf str "w2 @ rest"] bw by auto
    then show ?thesis using IH [of buf2 str2 rest] by auto
  qed
  then show ?case using t t2 by (intro exI [of _ "w @ w2"]) simp
qed simp

lemma recv_raw_eof:
  assumes c: "frame_contract P" and w: "frame_out P r g = (Inr w, g')"
  shows "strict_prefix (buf @ flat st) w \<Longrightarrow> rx_end st = Eof \<Longrightarrow>
    \<exists>st'. recv_raw P st buf = (Err (eof_error (buf @ flat st)), st', buf @ flat st)"
proof (induction "length (flat st)" arbitrary: st buf rule: less_induct)
  case less
  have "strict_prefix buf w"
    using less.prems(1) by (auto simp: strict_prefix_def prefix_def)
  then have nm: "frame_in P buf = (NeedMore, buf)" by (rule frame_contractD(2) [OF c w])
  show ?case
  proof (cases "flat st = []")
    case True
    then show ?thesis
      by (simp add: recv_raw.simps [of P st] nm read_some_empty [OF True less.prems(2)])
  next
    case False
    then obtain b bs st1 where rd: "read_some READ_CHUNK st = (Ok (b # bs), st1)"
      using read_some_nonempty by (fastforce simp: READ_CHUNK_def)
    have n: "0 < READ_CHUNK" by (simp add: READ_CHUNK_def)
    note o = read_some_Ok [OF rd n]
    have "length (flat st1) < length (flat st)" using o(1) by simp
    then show ?thesis
      using less.hyps [of st1 "buf @ b # bs"] less.prems o by (simp add: recv_raw.simps [of P st] nm rd)
  qed
qed

subsection \<open>The concrete arguments keep the contracts\<close>

lemma short_frames_contract: "frame_contract short_frames"
proof -
  have "frame_in short_frames p = (NeedMore, p)"
    if "strict_prefix p (of_nat (length r) # r)" and "length r < 256" for p :: bytes and r
  proof (cases p)
    case (Cons n q)
    then have "n = of_nat (length r)" and "length q < length r"
      using that(1) by (auto simp: strict_prefix_def dest: prefix_length_le prefix_length_less)
        (metis le_neq_implies_less not_equal_is_parallel parallelD1 prefix_length_le)
    then show ?thesis using that(2) Cons by (simp add: short_frames_def unat_of_nat)
  qed (simp add: short_frames_def)
  then show ?thesis
    unfolding frame_contract_def by (auto simp: short_frames_def unat_of_nat split: if_splits)
qed

lemma short_frames_stable: "frame_stable short_frames"
  by (auto simp: frame_stable_def short_frames_def split: list.splits if_splits)

lemma counting_contract: "session_contract counting (=)"
  by (auto simp: session_contract_def counting_def)

subsection \<open>Properties\<close>

text \<open>
  C20. The framed channel is reliable and ordered. Whatever one side sends as a list of envelopes
  without an error, the other side, with the paired session, receives as exactly that list, however
  the bytes are cut into segments and however much of them is already in its buffer; what follows
  stays for the next call and the sessions stay paired.
\<close>

theorem frames_round_trip:
  assumes "frame_contract P" and "session_contract S paired" and "list_all (serde_ok J) es" and "paired a b"
    and "send_frames P S J st a es g = (Ok (), st1, a1, g1)" and "tx st1 = tx st @ w"
    and "buf @ flat str = w @ rest"
  shows "\<exists>str' b' buf'. recv_frames (length es) P S J str b buf = (Ok es, str', b', buf') \<and>
    buf' @ flat str' = rest \<and> paired a1 b'"
  using send_frames_recv_frames [OF assms(1,2,3,5,4)] assms(6,7) by auto

theorem frames_round_trip_witness:
  "\<exists>str' b' buf'. recv_frames (length [Ping, Pong :: unit envelope]) short_frames counting plain_serde
      (new_stream [[2], [0, 0, 2], [1, 1, 9]] Open) 0 [] = (Ok [Ping, Pong], str', b', buf') \<and>
    buf' @ flat str' = [9] \<and> 2 = b'"
proof (rule frames_round_trip [OF short_frames_contract counting_contract])
  show "send_frames short_frames counting plain_serde (new_stream [] Open) 0 [Ping, Pong] 0 =
    (Ok (), (new_stream [] Open)\<lparr>tx := [2, 0, 0, 2, 1, 1]\<rparr>, 2, 0)"
    by (simp add: send_frame_def short_frames_def counting_def plain_serde_def new_stream_def write_all_def)
qed (simp_all add: new_stream_def flat_def)

text \<open>
  C21. Receiving is cancel safe. A receive that waits for input can be dropped at that point, as the
  pumps do whenever an outbound envelope is ready: calling it again on the same buffer once more
  input has arrived gives exactly what the first call would have given.
\<close>

theorem recv_frame_cancel_safe:
  assumes "frame_stable P" and "recv_frame P S J st ses buf = (Blocked, st1, ses1, buf1)"
  shows "recv_frame P S J (arrive cs e st) ses buf = recv_frame P S J (arrive cs e st1) ses1 buf1"
proof -
  have "recv_raw P st buf = (Blocked, st1, buf1)" and "ses1 = ses"
    using assms(2) by (auto simp: recv_frame_raw split: prod.splits res.splits sum.splits)
  then show ?thesis using recv_raw_resume [OF assms(1)] by (simp add: recv_frame_raw)
qed

theorem recv_frame_cancel_safe_witness:
  "recv_frame short_frames counting plain_serde (arrive [[0]] Open (new_stream [[2, 0]] Open)) 0 [] =
   recv_frame short_frames counting plain_serde (arrive [[0]] Open (new_stream [[]] Open)) 0 [2, 0]"
proof (rule recv_frame_cancel_safe [OF short_frames_stable])
  show "recv_frame short_frames counting plain_serde (new_stream [[2, 0]] Open) 0 [] =
    (Blocked, new_stream [[]] Open, 0, [2, 0])"
    by (simp add: recv_frame.simps short_frames_def read_some_def new_stream_def READ_CHUNK_def)
qed

text \<open>
  End of input. If the peer closes before the next frame is complete, the receive ends with an
  error, and the error tells the two cases apart: \<open>Closed\<close> if nothing of a frame has arrived, an
  unexpected end of file otherwise. The session is left as it was.
\<close>

theorem recv_frame_eof:
  assumes "frame_contract P" and "frame_out P r g = (Inr w, g')" and "strict_prefix (buf @ flat st) w"
    and "rx_end st = Eof"
  shows "\<exists>st'. recv_frame P S J st ses buf = (Err (eof_error (buf @ flat st)), st', ses, buf @ flat st)"
  using recv_raw_eof [OF assms] by (auto simp: recv_frame_raw)

theorem recv_frame_eof_witness:
  "\<exists>st'. recv_frame short_frames counting plain_serde (new_stream [[0]] Eof) 0 [2] =
     (Err (Io (IoError UnexpectedEof ''EOF mid-frame'')), st', 0, [2, 0])"
proof -
  have "\<exists>st'. recv_frame short_frames counting plain_serde (new_stream [[0]] Eof) 0 [2] =
     (Err (eof_error ([2] @ flat (new_stream [[0]] Eof))), st', 0, [2] @ flat (new_stream [[0]] Eof))"
    by (rule recv_frame_eof [OF short_frames_contract, of "[0, 0]" 0 "[2, 0, 0]" 0])
      (simp_all add: short_frames_def new_stream_def flat_def strict_prefix_def)
  then show ?thesis by (simp add: eof_error_def new_stream_def flat_def)
qed

text \<open>
  \<open>read_frame\<close> loses input. It starts from an empty buffer and drops it on return, so when the
  next frame arrives in the same segment, that frame is consumed from the stream and never seen: the
  call returns the first envelope and leaves nothing to read.
\<close>

theorem read_frame_drops_next:
  assumes "frame_contract P" and "frame_out P c g = (Inr w, g')" and "decrypt S ses c = (Inr p, ses')"
    and "from_slice J p = Inr env" and "rx st = [w @ next_frame]" and "length (w @ next_frame) \<le> READ_CHUNK"
  shows "\<exists>st'. read_frame P S J st ses = (Ok env, st', ses') \<and> flat st' = []"
proof -
  have "frame_in P [] = (NeedMore, [])" by (rule frame_contractD(4) [OF assms(1,2)])
  moreover obtain b bs where b: "w @ next_frame = b # bs" using frame_contractD(3) [OF assms(1,2)] by (cases "w @ next_frame") auto
  moreover have "read_some READ_CHUNK st = (Ok (b # bs), st\<lparr>rx := [[]]\<rparr>)"
    using assms(5,6) b by (simp add: read_some_def)
  moreover have "frame_in P (b # bs) = (Record c, next_frame)"
    using frame_contractD(1) [OF assms(1,2), of next_frame] b by simp
  ultimately show ?thesis
    using assms(3,4) by (simp add: read_frame_def recv_frame.simps)
qed

theorem read_frame_drops_next_witness:
  "\<exists>st'. read_frame short_frames counting plain_serde (new_stream [[2, 0, 0] @ [2, 1, 1]] Open) 0 = (Ok Ping, st', 1) \<and>
     flat st' = []"
  by (rule read_frame_drops_next [OF short_frames_contract, where c = "[0, 0]" and g = 0 and g' = 0
        and w = "[2, 0, 0]" and p = "[0]" and next_frame = "[2, 1, 1]"])
    (simp_all add: short_frames_def counting_def plain_serde_def plain_from_slice_def new_stream_def READ_CHUNK_def)

end
