(* ===== verification/Handshake_IO.thy ===== *)
theory Handshake_IO
  imports Framing Noise_Api
begin

text \<open>
  The Noise-XK handshake over a byte stream, \<^verbatim>\<open>src/handshake_io.rs\<close>. A step that returns early with
  \<^verbatim>\<open>?\<close> is a bind; an error of \<^verbatim>\<open>vaiexia-wire\<close> becomes \<open>Wire\<close>. \<open>into_session\<close> turns a finished Noise
  state into a session. Flushing has no effect of its own here, since a write is seen at once.
\<close>

record ('g, 'h, 's) tcp_ctx =
  tcp_noise :: "'h noise_api"
  into_session :: "'h \<Rightarrow> string + 's"
  tcp_profile :: "'g mimicry_profile"
  tcp_session :: "'s session_api"

definition wire_try :: "string + 'a \<Rightarrow> (obfs_error, 'a) io" where
  "wire_try r st = (case r of Inl e \<Rightarrow> (Err (Wire e), st) | Inr x \<Rightarrow> (Ok x, st))"

definition hs_try :: "(string + bytes) \<times> 'h \<Rightarrow> (obfs_error, bytes \<times> 'h) io" where
  "hs_try r st = (case r of (Inl e, _) \<Rightarrow> (Err (Wire e), st) | (Inr m, hs) \<Rightarrow> (Ok (m, hs), st))"

definition send_raw_try :: "'g mimicry_profile \<Rightarrow> 'g \<Rightarrow> bytes \<Rightarrow> (obfs_error, 'g) io" where
  "send_raw_try P rng b st =
     (case send_raw P st rng b of
        (Ok _, st', rng') \<Rightarrow> (Ok rng', st')
      | (Err e, st', _) \<Rightarrow> (Err e, st')
      | (Blocked, st', _) \<Rightarrow> (Blocked, st'))"

definition recv_raw_try :: "'g mimicry_profile \<Rightarrow> bytes \<Rightarrow> (obfs_error, bytes \<times> bytes) io" where
  "recv_raw_try P buf st =
     (case recv_raw P st buf of
        (Ok m, st', buf') \<Rightarrow> (Ok (m, buf'), st')
      | (Err e, st', _) \<Rightarrow> (Err e, st')
      | (Blocked, st', _) \<Rightarrow> (Blocked, st'))"

definition client_handshake_in_place ::
  "('g, 'h, 's) tcp_ctx \<Rightarrow> nat \<Rightarrow> 'g \<Rightarrow> bytes \<Rightarrow> bytes \<Rightarrow> (obfs_error, 's \<times> bytes) io" where
  "client_handshake_in_place T ent rng local_private remote_public =
     io_bind (wire_try (hs_initiator (tcp_noise T) ent local_private remote_public)) (\<lambda>hs.
     (case preamble (tcp_profile T) rng of
        (pre, rng1) \<Rightarrow>
          io_bind (if pre \<noteq> [] then io_try (write_all pre) else io_ret ()) (\<lambda>_.
          io_bind (hs_try (hs_write (tcp_noise T) hs [])) (\<lambda>(m1, hs1).
          io_bind (send_raw_try (tcp_profile T) rng1 m1) (\<lambda>rng2.
          io_bind (recv_raw_try (tcp_profile T) []) (\<lambda>(m2, buf).
          io_bind (hs_try (hs_read (tcp_noise T) hs1 m2)) (\<lambda>(_, hs2).
          io_bind (hs_try (hs_write (tcp_noise T) hs2 [])) (\<lambda>(m3, hs3).
          io_bind (send_raw_try (tcp_profile T) rng2 m3) (\<lambda>_.
          io_bind (wire_try (into_session T hs3)) (\<lambda>session.
          io_ret (session, buf)))))))))))"

definition skip_preamble :: "nat \<Rightarrow> (obfs_error, unit) io" where
  "skip_preamble skip st =
     (if 0 < skip
      then (case read_exact skip st of
              (Ok _, st') \<Rightarrow> (Ok (), st')
            | (Err (IoError k msg), st') \<Rightarrow>
                (Err (if k = UnexpectedEof then Closed else Io (IoError k msg)), st')
            | (Blocked, st') \<Rightarrow> (Blocked, st'))
      else (Ok (), st))"

definition server_handshake_in_place ::
  "('g, 'h, 's) tcp_ctx \<Rightarrow> nat \<Rightarrow> 'g \<Rightarrow> bytes \<Rightarrow> (obfs_error, 's \<times> bytes option \<times> bytes) io" where
  "server_handshake_in_place T ent rng local_private =
     io_bind (wire_try (hs_responder (tcp_noise T) ent local_private)) (\<lambda>hs.
     io_bind (skip_preamble (preamble_skip (tcp_profile T))) (\<lambda>_.
     io_bind (recv_raw_try (tcp_profile T) []) (\<lambda>(m1, buf1).
     io_bind (hs_try (hs_read (tcp_noise T) hs m1)) (\<lambda>(_, hs1).
     io_bind (hs_try (hs_write (tcp_noise T) hs1 [])) (\<lambda>(m2, hs2).
     io_bind (send_raw_try (tcp_profile T) rng m2) (\<lambda>_.
     io_bind (recv_raw_try (tcp_profile T) buf1) (\<lambda>(m3, buf2).
     io_bind (hs_try (hs_read (tcp_noise T) hs2 m3)) (\<lambda>(_, hs3).
     (let remote_static = hs_remote_static (tcp_noise T) hs3
      in io_bind (wire_try (into_session T hs3)) (\<lambda>session.
         io_ret (session, remote_static, buf2)))))))))))"

definition client_handshake ::
  "('g, 'h, 's) tcp_ctx \<Rightarrow> 'g mimicry_profile \<Rightarrow> nat \<Rightarrow> 'g \<Rightarrow> bytes \<Rightarrow> bytes \<Rightarrow> (obfs_error, 's) io" where
  "client_handshake T vanilla ent rng local_private remote_public =
     io_bind (client_handshake_in_place (T\<lparr>tcp_profile := vanilla\<rparr>) ent rng local_private remote_public)
       (\<lambda>(session, _). io_ret session)"

definition server_handshake ::
  "('g, 'h, 's) tcp_ctx \<Rightarrow> 'g mimicry_profile \<Rightarrow> nat \<Rightarrow> 'g \<Rightarrow> bytes \<Rightarrow> (obfs_error, 's) io" where
  "server_handshake T vanilla ent rng local_private =
     io_bind (server_handshake_in_place (T\<lparr>tcp_profile := vanilla\<rparr>) ent rng local_private)
       (\<lambda>(session, _, _). io_ret session)"

subsection \<open>Contracts of the arguments\<close>

text \<open>
  \<open>tcp_noise_contract\<close> adds to an XK run that both ends turn into sessions whose halves match:
  \<open>fwd a b\<close> says that what \<open>a\<close> encrypts next \<open>b\<close> decrypts next. \<open>preamble_contract\<close>: the sender writes
  as many junk bytes as the receiver skips. \<open>frame_total\<close>: messages up to a length can be framed.
\<close>

definition xk_sessions ::
  "('g, 'h, 's) tcp_ctx \<Rightarrow> ('s \<Rightarrow> 's \<Rightarrow> bool) \<Rightarrow> 'h \<Rightarrow> 'h \<Rightarrow> bytes \<Rightarrow> bool" where
  "xk_sessions T fwd i0 r0 static \<longleftrightarrow>
     (\<exists>msg1 i1 r1 msg2 r2 i2 msg3 i3 r3 si sr.
        hs_write (tcp_noise T) i0 [] = (Inr msg1, i1) \<and> hs_read (tcp_noise T) r0 msg1 = (Inr [], r1) \<and>
        hs_write (tcp_noise T) r1 [] = (Inr msg2, r2) \<and> hs_read (tcp_noise T) i1 msg2 = (Inr [], i2) \<and>
        hs_write (tcp_noise T) i2 [] = (Inr msg3, i3) \<and> hs_read (tcp_noise T) r2 msg3 = (Inr [], r3) \<and>
        hs_remote_static (tcp_noise T) r3 = Some static \<and>
        length msg1 \<le> 128 \<and> length msg2 \<le> 128 \<and> length msg3 \<le> 128 \<and>
        into_session T i3 = Inr si \<and> into_session T r3 = Inr sr \<and> fwd si sr \<and> fwd sr si)"

definition tcp_noise_contract ::
  "('g, 'h, 's) tcp_ctx \<Rightarrow> (bytes \<Rightarrow> bytes) \<Rightarrow> ('s \<Rightarrow> 's \<Rightarrow> bool) \<Rightarrow> bool" where
  "tcp_noise_contract T pub fwd \<longleftrightarrow>
     (\<forall>e e' client server. length client = 32 \<longrightarrow> length server = 32 \<longrightarrow>
        (\<exists>i0 r0. hs_initiator (tcp_noise T) e client (pub server) = Inr i0 \<and>
           hs_responder (tcp_noise T) e' server = Inr r0 \<and> xk_sessions T fwd i0 r0 (pub client)))"

definition preamble_contract :: "'g mimicry_profile \<Rightarrow> bool" where
  "preamble_contract P \<longleftrightarrow> (\<forall>g. length (fst (preamble P g)) = preamble_skip P)"

definition frame_total :: "'g mimicry_profile \<Rightarrow> nat \<Rightarrow> bool" where
  "frame_total P n \<longleftrightarrow> (\<forall>b g. length b \<le> n \<longrightarrow> (\<exists>w g'. frame_out P b g = (Inr w, g')))"

text \<open>Concrete arguments for evaluation; a session is a pair of counters.\<close>

definition duplex :: "(nat \<times> nat) session_api" where
  "duplex =
     \<lparr>encrypt = (\<lambda>(s, r) p. (Inr (of_nat s # p), (Suc s, r))),
      decrypt = (\<lambda>(s, r) c. case c of
          [] \<Rightarrow> (Inl ''short'', (s, r))
        | x # p \<Rightarrow> if x = of_nat r then (Inr p, (s, Suc r)) else (Inl ''bad'', (s, r)))\<rparr>"

definition duplex_fwd :: "nat \<times> nat \<Rightarrow> nat \<times> nat \<Rightarrow> bool" where
  "duplex_fwd a b \<longleftrightarrow> fst a = snd b"

definition demo_tcp :: "(nat, bytes \<times> nat \<times> bytes option, nat \<times> nat) tcp_ctx" where
  "demo_tcp =
     \<lparr>tcp_noise = demo_noise, into_session = (\<lambda>_. Inr (0, 0)), tcp_profile = short_frames, tcp_session = duplex\<rparr>"

subsection \<open>Evaluating the steps\<close>

lemma wire_try_simps [simp]: "wire_try (Inr x) st = (Ok x, st)" "wire_try (Inl e) st = (Err (Wire e), st)"
  by (simp_all add: wire_try_def)

lemma hs_try_simps [simp]: "hs_try (Inr m, hs) st = (Ok (m, hs), st)" "hs_try (Inl e, hs) st = (Err (Wire e), st)"
  by (simp_all add: hs_try_def)

lemma io_ret_simp [simp]: "io_ret x st = (Ok x, st)"
  by (simp add: io_ret_def)

lemma send_raw_try_Ok:
  "frame_out P b g = (Inr w, g') \<Longrightarrow> tx_cap st = None \<Longrightarrow> send_raw_try P g b st = (Ok g', st\<lparr>tx := tx st @ w\<rparr>)"
  by (simp add: send_raw_try_def send_raw_def write_all_uncapped)

lemma recv_raw_try_Ok:
  assumes "frame_contract P" and "frame_out P r g = (Inr w, g')" and "buf @ flat st = w @ rest"
  obtains st' buf' where "recv_raw_try P buf st = (Ok (r, buf'), st')" and "buf' @ flat st' = rest"
    and "rx_end st' = rx_end st" and "tx st' = tx st" and "tx_cap st' = tx_cap st"
  using recv_raw_complete [OF assms] by (auto simp: recv_raw_try_def)

lemma recv_raw_try_Blocked:
  assumes "frame_contract P" and "frame_out P r g = (Inr w, g')" and "flat st = []" and "rx_end st = Open"
  shows "recv_raw_try P [] st = (Blocked, st)"
  using frame_contractD(4) [OF assms(1,2)] assms(3,4) take_chunk_None [of READ_CHUNK "rx st"]
  by (simp add: recv_raw_try_def recv_raw.simps read_some_def flat_def)

lemma write_preamble:
  "tx_cap st = None \<Longrightarrow>
     (if pre \<noteq> [] then io_try (write_all pre) else io_ret ()) st = (Ok (), st\<lparr>tx := tx st @ pre\<rparr>)"
  by (simp add: io_try_def write_all_uncapped)

lemma skip_preamble_Ok:
  assumes "flat st = pre @ rest" and "length pre = n"
  obtains st' where "skip_preamble n st = (Ok (), st')" and "flat st' = rest" and "rx_end st' = rx_end st"
    and "tx st' = tx st" and "tx_cap st' = tx_cap st"
proof (cases "n = 0")
  case True
  then show ?thesis using that assms by (simp add: skip_preamble_def)
next
  case False
  obtain st' where "read_exact n st = (Ok pre, st')" and "flat st' = rest \<and> rx_end st' = rx_end st \<and>
    tx st' = tx st \<and> tx_cap st' = tx_cap st"
    using read_exact_flat [OF assms] by blast
  then show ?thesis using that False by (simp add: skip_preamble_def)
qed

lemma skip_preamble_eof:
  "length (flat st) < n \<Longrightarrow> rx_end st = Eof \<Longrightarrow> fst (skip_preamble n st) = Err Closed"
  by (auto simp: skip_preamble_def read_exact_def)

text \<open>A complete dialogue: what both ends write, and the sessions they end with.\<close>

definition dialogue ::
  "('g, 'h, 's) tcp_ctx \<Rightarrow> nat \<Rightarrow> nat \<Rightarrow> 'g \<Rightarrow> 'g \<Rightarrow> bytes \<Rightarrow> bytes \<Rightarrow> bytes \<Rightarrow> bytes \<Rightarrow>
   bytes \<Rightarrow> bytes \<Rightarrow> bytes \<Rightarrow> bytes \<Rightarrow> 's \<Rightarrow> 's \<Rightarrow> bool" where
  "dialogue T e e' g g' client server_pub server static w1 w2 w3 pre si sr \<longleftrightarrow>
     (\<exists>i0 r0 msg1 i1 r1 msg2 r2 i2 msg3 i3 r3 g1 g2 g3 h1.
        hs_initiator (tcp_noise T) e client server_pub = Inr i0 \<and> hs_responder (tcp_noise T) e' server = Inr r0 \<and>
        hs_write (tcp_noise T) i0 [] = (Inr msg1, i1) \<and> hs_read (tcp_noise T) r0 msg1 = (Inr [], r1) \<and>
        hs_write (tcp_noise T) r1 [] = (Inr msg2, r2) \<and> hs_read (tcp_noise T) i1 msg2 = (Inr [], i2) \<and>
        hs_write (tcp_noise T) i2 [] = (Inr msg3, i3) \<and> hs_read (tcp_noise T) r2 msg3 = (Inr [], r3) \<and>
        hs_remote_static (tcp_noise T) r3 = Some static \<and>
        into_session T i3 = Inr si \<and> into_session T r3 = Inr sr \<and>
        preamble (tcp_profile T) g = (pre, g1) \<and> frame_out (tcp_profile T) msg1 g1 = (Inr w1, g2) \<and>
        frame_out (tcp_profile T) msg3 g2 = (Inr w3, g3) \<and> frame_out (tcp_profile T) msg2 g' = (Inr w2, h1))"

lemma dialogue_exists:
  assumes "tcp_noise_contract T pub fwd" and "frame_total (tcp_profile T) 128"
    and "length client = 32" and "length server = 32"
  shows "\<exists>w1 w2 w3 pre si sr. dialogue T e e' g g' client (pub server) server (pub client) w1 w2 w3 pre si sr \<and>
    pre = fst (preamble (tcp_profile T) g) \<and> fwd si sr \<and> fwd sr si"
proof -
  obtain i0 r0 where a: "hs_initiator (tcp_noise T) e client (pub server) = Inr i0"
    "hs_responder (tcp_noise T) e' server = Inr r0" and x: "xk_sessions T fwd i0 r0 (pub client)"
    using assms(1,3,4) unfolding tcp_noise_contract_def by metis
  obtain msg1 i1 r1 msg2 r2 i2 msg3 i3 r3 si sr where
    b: "hs_write (tcp_noise T) i0 [] = (Inr msg1, i1)" "hs_read (tcp_noise T) r0 msg1 = (Inr [], r1)"
      "hs_write (tcp_noise T) r1 [] = (Inr msg2, r2)" "hs_read (tcp_noise T) i1 msg2 = (Inr [], i2)"
      "hs_write (tcp_noise T) i2 [] = (Inr msg3, i3)" "hs_read (tcp_noise T) r2 msg3 = (Inr [], r3)"
      "hs_remote_static (tcp_noise T) r3 = Some (pub client)"
    and l: "length msg1 \<le> 128" "length msg2 \<le> 128" "length msg3 \<le> 128"
    and c: "into_session T i3 = Inr si" "into_session T r3 = Inr sr" and f: "fwd si sr" "fwd sr si"
    using x unfolding xk_sessions_def by blast
  obtain pre g1 where p: "preamble (tcp_profile T) g = (pre, g1)" by fastforce
  obtain w1 g2 where "frame_out (tcp_profile T) msg1 g1 = (Inr w1, g2)"
    using assms(2) l(1) unfolding frame_total_def by metis
  moreover obtain w3 g3 where "frame_out (tcp_profile T) msg3 g2 = (Inr w3, g3)"
    using assms(2) l(3) unfolding frame_total_def by metis
  moreover obtain w2 h1 where "frame_out (tcp_profile T) msg2 g' = (Inr w2, h1)"
    using assms(2) l(2) unfolding frame_total_def by metis
  ultimately have "dialogue T e e' g g' client (pub server) server (pub client) w1 w2 w3 pre si sr"
    unfolding dialogue_def using a b c p by blast
  moreover have "pre = fst (preamble (tcp_profile T) g)" using p by simp
  ultimately show ?thesis using f by blast
qed

lemma dialogue_client:
  assumes fc: "frame_contract (tcp_profile T)"
    and d: "dialogue T e e' g g' client server_pub server static w1 w2 w3 pre si sr"
    and st: "tx_cap st = None"
  shows "flat st = w2 @ rest \<Longrightarrow> \<exists>st' buf.
      client_handshake_in_place T e g client server_pub st = (Ok (si, buf), st') \<and> buf @ flat st' = rest \<and>
      tx st' = tx st @ pre @ w1 @ w3"
    and "flat st = [] \<Longrightarrow> rx_end st = Open \<Longrightarrow> \<exists>st'.
      client_handshake_in_place T e g client server_pub st = (Blocked, st') \<and> tx st' = tx st @ pre @ w1"
proof -
  obtain i0 r0 msg1 i1 r1 msg2 r2 i2 msg3 i3 r3 g1 g2 g3 h1 where
    h: "hs_initiator (tcp_noise T) e client server_pub = Inr i0" "hs_responder (tcp_noise T) e' server = Inr r0"
      "hs_write (tcp_noise T) i0 [] = (Inr msg1, i1)" "hs_read (tcp_noise T) r0 msg1 = (Inr [], r1)"
      "hs_write (tcp_noise T) r1 [] = (Inr msg2, r2)" "hs_read (tcp_noise T) i1 msg2 = (Inr [], i2)"
      "hs_write (tcp_noise T) i2 [] = (Inr msg3, i3)" "hs_read (tcp_noise T) r2 msg3 = (Inr [], r3)"
      "into_session T i3 = Inr si" "preamble (tcp_profile T) g = (pre, g1)"
      "frame_out (tcp_profile T) msg1 g1 = (Inr w1, g2)" "frame_out (tcp_profile T) msg3 g2 = (Inr w3, g3)"
      "frame_out (tcp_profile T) msg2 g' = (Inr w2, h1)"
    using d unfolding dialogue_def by blast
  let ?st = "st\<lparr>tx := (tx st @ pre) @ w1\<rparr>"
  note ev = client_handshake_in_place_def io_bind_def h write_preamble [OF st]
    send_raw_try_Ok [OF h(11)] send_raw_try_Ok [OF h(12)] st
  {
    assume "flat st = w2 @ rest"
    then have "[] @ flat ?st = w2 @ rest" by simp
    from recv_raw_try_Ok [OF fc h(13) this] obtain st' buf where
      "recv_raw_try (tcp_profile T) [] ?st = (Ok (msg2, buf), st')" "buf @ flat st' = rest"
      "tx st' = tx ?st" "tx_cap st' = tx_cap ?st" by metis
    then show "\<exists>st' buf. client_handshake_in_place T e g client server_pub st = (Ok (si, buf), st') \<and>
        buf @ flat st' = rest \<and> tx st' = tx st @ pre @ w1 @ w3"
      by (simp add: ev)
  next
    assume "flat st = []" and "rx_end st = Open"
    then have "recv_raw_try (tcp_profile T) [] ?st = (Blocked, ?st)"
      by (intro recv_raw_try_Blocked [OF fc h(13)]) simp_all
    then show "\<exists>st'. client_handshake_in_place T e g client server_pub st = (Blocked, st') \<and> tx st' = tx st @ pre @ w1"
      by (simp add: ev)
  }
qed

lemma dialogue_server:
  assumes fc: "frame_contract (tcp_profile T)" and pc: "length pre = preamble_skip (tcp_profile T)"
    and d: "dialogue T e e' g g' client server_pub server static w1 w2 w3 pre si sr"
    and cap: "tx_cap st = None"
  shows "flat st = pre @ w1 @ w3 @ rest \<Longrightarrow> \<exists>st' buf.
      server_handshake_in_place T e' g' server st = (Ok (sr, Some static, buf), st') \<and> buf @ flat st' = rest \<and>
      tx st' = tx st @ w2"
    and "flat st = pre @ w1 \<Longrightarrow> rx_end st = Open \<Longrightarrow> \<exists>st'.
      server_handshake_in_place T e' g' server st = (Blocked, st') \<and> tx st' = tx st @ w2"
proof -
  obtain i0 r0 msg1 i1 r1 msg2 r2 i2 msg3 i3 r3 g1 g2 g3 h1 where
    h: "hs_responder (tcp_noise T) e' server = Inr r0" "hs_read (tcp_noise T) r0 msg1 = (Inr [], r1)"
      "hs_write (tcp_noise T) r1 [] = (Inr msg2, r2)" "hs_read (tcp_noise T) r2 msg3 = (Inr [], r3)"
      "hs_remote_static (tcp_noise T) r3 = Some static" "into_session T r3 = Inr sr"
      "frame_out (tcp_profile T) msg1 g1 = (Inr w1, g2)" "frame_out (tcp_profile T) msg3 g2 = (Inr w3, g3)"
      "frame_out (tcp_profile T) msg2 g' = (Inr w2, h1)"
    using d unfolding dialogue_def by blast
  have first: "\<exists>st1 buf1. skip_preamble (preamble_skip (tcp_profile T)) st = (Ok (), st1) \<and>
      (\<exists>st2. recv_raw_try (tcp_profile T) [] st1 = (Ok (msg1, buf1), st2) \<and> buf1 @ flat st2 = more \<and>
         rx_end st2 = rx_end st \<and> tx st2 = tx st \<and> tx_cap st2 = None)" if "flat st = pre @ w1 @ more" for more
    by (metis (no_types, lifting) skip_preamble_Ok [OF that pc] recv_raw_try_Ok [OF fc h(7)] append_Nil cap)
  note ev = server_handshake_in_place_def io_bind_def h send_raw_try_Ok [OF h(9)]
  {
    assume "flat st = pre @ w1 @ w3 @ rest"
    from first [OF this] obtain st1 buf1 st2 where s:
      "skip_preamble (preamble_skip (tcp_profile T)) st = (Ok (), st1)"
      "recv_raw_try (tcp_profile T) [] st1 = (Ok (msg1, buf1), st2)" "tx st2 = tx st" "tx_cap st2 = None"
      and b: "buf1 @ flat (st2\<lparr>tx := tx st2 @ w2\<rparr>) = w3 @ rest" by auto
    from recv_raw_try_Ok [OF fc h(8) b] obtain st3 buf2 where
      "recv_raw_try (tcp_profile T) buf1 (st2\<lparr>tx := tx st2 @ w2\<rparr>) = (Ok (msg3, buf2), st3)"
      "buf2 @ flat st3 = rest" "tx st3 = tx (st2\<lparr>tx := tx st2 @ w2\<rparr>)" by metis
    then show "\<exists>st' buf. server_handshake_in_place T e' g' server st = (Ok (sr, Some static, buf), st') \<and>
        buf @ flat st' = rest \<and> tx st' = tx st @ w2"
      by (simp add: ev s)
  next
    assume "flat st = pre @ w1" and o: "rx_end st = Open"
    then obtain st1 st2 where s: "skip_preamble (preamble_skip (tcp_profile T)) st = (Ok (), st1)"
      "recv_raw_try (tcp_profile T) [] st1 = (Ok (msg1, []), st2)" "tx st2 = tx st" "tx_cap st2 = None"
      "flat st2 = []" "rx_end st2 = Open" using first [of "[]"] by auto
    then have "recv_raw_try (tcp_profile T) [] (st2\<lparr>tx := tx st2 @ w2\<rparr>) = (Blocked, st2\<lparr>tx := tx st2 @ w2\<rparr>)"
      by (intro recv_raw_try_Blocked [OF fc h(8)]) simp_all
    then show "\<exists>st'. server_handshake_in_place T e' g' server st = (Blocked, st') \<and> tx st' = tx st @ w2"
      using s by (simp add: ev)
  }
qed

subsection \<open>The concrete arguments keep the contracts\<close>

lemma demo_tcp_noise: "tcp_noise_contract demo_tcp id duplex_fwd"
  unfolding tcp_noise_contract_def xk_sessions_def
  by (simp add: demo_tcp_def demo_noise_def demo_write_def demo_read_def duplex_fwd_def)

lemma short_frames_total: "frame_total short_frames 128"
  by (simp add: frame_total_def short_frames_def)

lemma short_frames_preamble: "preamble_contract short_frames"
  by (simp add: preamble_contract_def short_frames_def)

subsection \<open>Properties\<close>

text \<open>
  The two ends complete the handshake with each other. There are messages such that the client,
  before any input, has written its preamble and first message and waits; the server, on these, has
  written the second message and waits; on the second message the client finishes, on the third the
  server does. The server learns the client's public key, the two sessions match in both
  directions, and bytes either side received beyond the handshake are in its leftover buffer or
  still in the stream, none lost. No other outcome is possible on such input, however it is cut
  into segments.
\<close>

theorem tcp_handshake_interop:
  assumes "tcp_noise_contract T pub fwd" and "frame_contract (tcp_profile T)" and "frame_total (tcp_profile T) 128"
    and "preamble_contract (tcp_profile T)" and "length client = 32" and "length server = 32"
  shows "\<exists>pre w1 w2 w3 si sr. fwd si sr \<and> fwd sr si \<and> (\<forall>st rest. tx_cap st = None \<longrightarrow>
    (flat st = [] \<and> rx_end st = Open \<longrightarrow>
       (\<exists>st'. client_handshake_in_place T e g client (pub server) st = (Blocked, st') \<and> tx st' = tx st @ pre @ w1)) \<and>
    (flat st = pre @ w1 \<and> rx_end st = Open \<longrightarrow>
       (\<exists>st'. server_handshake_in_place T e' g' server st = (Blocked, st') \<and> tx st' = tx st @ w2)) \<and>
    (flat st = w2 @ rest \<longrightarrow>
       (\<exists>st' buf. client_handshake_in_place T e g client (pub server) st = (Ok (si, buf), st') \<and>
          buf @ flat st' = rest \<and> tx st' = tx st @ pre @ w1 @ w3)) \<and>
    (flat st = pre @ w1 @ w3 @ rest \<longrightarrow>
       (\<exists>st' buf. server_handshake_in_place T e' g' server st = (Ok (sr, Some (pub client), buf), st') \<and>
          buf @ flat st' = rest \<and> tx st' = tx st @ w2)))"
proof -
  obtain w1 w2 w3 pre si sr where
    d: "dialogue T e e' g g' client (pub server) server (pub client) w1 w2 w3 pre si sr"
    and p: "pre = fst (preamble (tcp_profile T) g)" and f: "fwd si sr" "fwd sr si"
    using dialogue_exists [OF assms(1,3,5,6)] by blast
  have l: "length pre = preamble_skip (tcp_profile T)" using assms(4) p by (simp add: preamble_contract_def)
  note c = dialogue_client [OF assms(2) d] and s = dialogue_server [OF assms(2) l d]
  show ?thesis
    by (intro exI [of _ pre] exI [of _ w1] exI [of _ w2] exI [of _ w3] exI [of _ si] exI [of _ sr] conjI allI impI f;
        (elim conjE)?; intro c s; assumption)
qed

theorem tcp_handshake_interop_witness:
  "\<exists>pre w1 w2 w3 si sr. duplex_fwd si sr \<and> duplex_fwd sr si \<and> (\<forall>st rest. tx_cap st = None \<longrightarrow>
    (flat st = [] \<and> rx_end st = Open \<longrightarrow>
       (\<exists>st'. client_handshake_in_place demo_tcp 0 0 demo_key (id demo_key) st = (Blocked, st') \<and> tx st' = tx st @ pre @ w1)) \<and>
    (flat st = pre @ w1 \<and> rx_end st = Open \<longrightarrow>
       (\<exists>st'. server_handshake_in_place demo_tcp 0 0 demo_key st = (Blocked, st') \<and> tx st' = tx st @ w2)) \<and>
    (flat st = w2 @ rest \<longrightarrow>
       (\<exists>st' buf. client_handshake_in_place demo_tcp 0 0 demo_key (id demo_key) st = (Ok (si, buf), st') \<and>
          buf @ flat st' = rest \<and> tx st' = tx st @ pre @ w1 @ w3)) \<and>
    (flat st = pre @ w1 @ w3 @ rest \<longrightarrow>
       (\<exists>st' buf. server_handshake_in_place demo_tcp 0 0 demo_key st = (Ok (sr, Some (id demo_key), buf), st') \<and>
          buf @ flat st' = rest \<and> tx st' = tx st @ w2)))"
  by (rule tcp_handshake_interop [OF demo_tcp_noise])
    (simp_all add: demo_tcp_def short_frames_contract short_frames_total short_frames_preamble demo_key_def)

text \<open>
  A connection that closes within the preamble is reported as closed, not as an I/O error, and
  nothing has been written.
\<close>

theorem server_preamble_eof:
  assumes "hs_responder (tcp_noise T) ent priv = Inr hs" and "length (flat st) < preamble_skip (tcp_profile T)"
    and "rx_end st = Eof"
  shows "\<exists>st'. server_handshake_in_place T ent rng priv st = (Err Closed, st') \<and> tx st' = tx st"
proof -
  obtain r st' where s: "skip_preamble (preamble_skip (tcp_profile T)) st = (r, st')" by fastforce
  then have "r = Err Closed" using skip_preamble_eof [OF assms(2,3)] by simp
  moreover have "tx st' = tx st"
    using s assms(2,3) by (auto simp: skip_preamble_def read_exact_def split: if_splits)
  ultimately show ?thesis using assms(1) s by (simp add: server_handshake_in_place_def io_bind_def)
qed

theorem server_preamble_eof_witness:
  "\<exists>st'. server_handshake_in_place demo_tcp 0 0 demo_key (new_stream [[7]] Eof) = (Err Closed, st') \<and>
     tx st' = tx (new_stream [[7]] Eof)"
  by (rule server_preamble_eof [where hs = "(demo_key, 0, None)"])
    (simp_all add: demo_tcp_def demo_noise_def short_frames_def new_stream_def flat_def)

end
