(* ===== verification/Tcp_Link.thy ===== *)
theory Tcp_Link
  imports Handshake_IO
begin

text \<open>
  One end of an established TCP connection, as the pump loops of \<^verbatim>\<open>src/client.rs\<close> and
  \<^verbatim>\<open>src/server.rs\<close> own it: the stream, the session, the accumulation buffer, the generator, and the
  outbound channel they drain. Sending applies jitter first; how long it waits has no effect here, the
  generator moves on. \<open>frames\<close> relates envelopes to the bytes that carry them, from the
  sender's side and \<open>receives\<close> from the receiver's; \<open>duplex_contract\<close> adds to the session's contract that its two
  directions are independent.
\<close>

record ('x, 'g, 's) link =
  lk_stream :: stream
  lk_session :: 's
  lk_buf :: bytes
  lk_rng :: 'g
  lk_queue :: "'x envelope list"

definition link_send ::
  "('g, 'h, 's) tcp_ctx \<Rightarrow> 'x serde \<Rightarrow> 'x envelope \<Rightarrow> ('x, 'g, 's) link \<Rightarrow>
   (obfs_error, unit) res \<times> ('x, 'g, 's) link" where
  "link_send T J env l =
     (case jitter (tcp_profile T) (lk_rng l) of
        (delay, g) \<Rightarrow>
          (case send_frame (tcp_profile T) (tcp_session T) J (lk_stream l) (lk_session l) env g of
             (r, st, ses, g') \<Rightarrow> (r, l\<lparr>lk_stream := st, lk_session := ses, lk_rng := g'\<rparr>)))"

definition link_recv ::
  "('g, 'h, 's) tcp_ctx \<Rightarrow> 'x serde \<Rightarrow> ('x, 'g, 's) link \<Rightarrow>
   (obfs_error, 'x envelope) res \<times> ('x, 'g, 's) link" where
  "link_recv T J l =
     (case recv_frame (tcp_profile T) (tcp_session T) J (lk_stream l) (lk_session l) (lk_buf l) of
        (r, st, ses, buf) \<Rightarrow> (r, l\<lparr>lk_stream := st, lk_session := ses, lk_buf := buf\<rparr>))"

definition unread :: "('x, 'g, 's) link \<Rightarrow> bytes" where
  "unread l = lk_buf l @ flat (lk_stream l)"

text \<open>What the network does to a stream: input arrives or ends, or the peer stops taking output.\<close>

definition net_input :: "bytes list \<Rightarrow> rx_status \<Rightarrow> stream \<Rightarrow> stream" where
  "net_input cs e st = (if rx_end st = Open then arrive cs e st else st)"

definition net_limit :: "nat \<Rightarrow> stream \<Rightarrow> stream" where
  "net_limit n st = (if tx_cap st = None then st\<lparr>tx_cap := Some n\<rparr> else st)"

subsection \<open>Bytes on the wire\<close>

inductive frames ::
  "('g, 'h, 's) tcp_ctx \<Rightarrow> 'x serde \<Rightarrow> 's \<Rightarrow> 'x envelope list \<Rightarrow> bytes \<Rightarrow> 's \<Rightarrow> bool" for T J where
  no_frame: "frames T J a [] [] a"
| one_more: "to_vec J env = Inr p \<Longrightarrow> encrypt (tcp_session T) a p = (Inr c, a1) \<Longrightarrow>
    frame_out (tcp_profile T) c g = (Inr w, g') \<Longrightarrow> frames T J a1 envs w' a2 \<Longrightarrow>
    frames T J a (env # envs) (w @ w') a2"

inductive receives ::
  "('g, 'h, 's) tcp_ctx \<Rightarrow> 'x serde \<Rightarrow> 's \<Rightarrow> 'x envelope list \<Rightarrow> bytes \<Rightarrow> 's \<Rightarrow> bool" for T J where
  none: "receives T J x [] [] x"
| next_one: "frame_out (tcp_profile T) c g = (Inr w, g') \<Longrightarrow> decrypt (tcp_session T) x c = (Inr p, x1) \<Longrightarrow>
    from_slice J p = Inr env \<Longrightarrow> receives T J x1 envs w' x2 \<Longrightarrow> receives T J x (env # envs) (w @ w') x2"

inductive_cases receives_NilE: "receives T J x [] w x'"
inductive_cases receives_ConsE: "receives T J x (env # envs) w x'"
inductive_cases frames_NilE: "frames T J a [] w a'"
inductive_cases frames_ConsE: "frames T J a (env # envs) w a'"

definition duplex_contract :: "'s session_api \<Rightarrow> ('s \<Rightarrow> 's \<Rightarrow> bool) \<Rightarrow> bool" where
  "duplex_contract S fwd \<longleftrightarrow>
     session_contract S fwd \<and>
     (\<forall>a b p r a'. fwd b a \<longrightarrow> encrypt S a p = (r, a') \<longrightarrow> fwd b a') \<and>
     (\<forall>a b c r a'. fwd a b \<longrightarrow> decrypt S a c = (r, a') \<longrightarrow> fwd a' b)"

text \<open>An envelope that every session can send: it can be encoded, encrypted and framed.\<close>

definition sendable :: "('g, 'h, 's) tcp_ctx \<Rightarrow> 'x serde \<Rightarrow> 'x envelope \<Rightarrow> bool" where
  "sendable T J env \<longleftrightarrow>
     serde_ok J env \<and>
     (\<forall>p. to_vec J env = Inr p \<longrightarrow>
        (\<forall>a. \<exists>c a'. encrypt (tcp_session T) a p = (Inr c, a') \<and>
           (\<forall>g. \<exists>w g'. frame_out (tcp_profile T) c g = (Inr w, g'))))"

lemma duplex_session: "duplex_contract S fwd \<Longrightarrow> session_contract S fwd"
  unfolding duplex_contract_def by (rule conjunct1)

lemma frames_append: "frames T J a es w a1 \<Longrightarrow> frames T J a1 fs v a2 \<Longrightarrow> frames T J a (es @ fs) (w @ v) a2"
proof (induction rule: frames.induct)
  case (one_more env p a c a1 g w g' envs w' a2)
  then show ?case using frames.one_more [OF one_more(1-3)] by simp
qed simp

lemma receives_append: "receives T J x es w x1 \<Longrightarrow> receives T J x1 fs v x2 \<Longrightarrow> receives T J x (es @ fs) (w @ v) x2"
proof (induction rule: receives.induct)
  case (next_one c g w g' x p x1 env envs w' x2)
  then show ?case using receives.next_one [OF next_one(1-3)] by simp
qed simp

lemma frames_receives:
  assumes "session_contract (tcp_session T) fwd"
  shows "frames T J a es w a' \<Longrightarrow> list_all (serde_ok J) es \<Longrightarrow> fwd a x \<Longrightarrow> \<exists>x'. receives T J x es w x' \<and> fwd a' x'"
proof (induction arbitrary: x rule: frames.induct)
  case (no_frame a)
  show ?case by (rule exI [of _ x], rule conjI, rule receives.none, rule no_frame.prems(2))
next
  case (one_more env p a c a1 g w g' envs w' a2)
  obtain x1 where x1: "decrypt (tcp_session T) x c = (Inr p, x1)" "fwd a1 x1"
    using session_contractD [of "tcp_session T" fwd, OF assms one_more.prems(2) one_more(2)] by blast
  moreover obtain x' where x': "receives T J x1 envs w' x'" "fwd a2 x'" using one_more.IH one_more.prems(1) x1(2) by auto
  moreover have "from_slice J p = Inr env" using one_more(1) one_more.prems(1) by (auto simp: serde_ok_def)
  ultimately show ?case using receives.next_one [OF one_more(3) x1(1) _ x'(1)] by blast
qed

lemma frames_single:
  assumes "to_vec J env = Inr p" and "encrypt (tcp_session T) a p = (Inr c, a')"
    and "frame_out (tcp_profile T) c g = (Inr w, g')"
  shows "frames T J a [env] w a'"
  using one_more [OF assms no_frame] by simp

lemma link_send_Ok:
  assumes "link_send T J env l = (Ok u, l')"
  shows "\<exists>w. frames T J (lk_session l) [env] w (lk_session l') \<and> tx (lk_stream l') = tx (lk_stream l) @ w"
proof -
  obtain d g where j: "jitter (tcp_profile T) (lk_rng l) = (d, g)" by fastforce
  obtain st ses g' where s: "send_frame (tcp_profile T) (tcp_session T) J (lk_stream l) (lk_session l) env g = (Ok u, st, ses, g')"
    and l': "l' = l\<lparr>lk_stream := st, lk_session := ses, lk_rng := g'\<rparr>"
    using assms j by (auto simp: link_send_def split: prod.splits)
  obtain p c w where "to_vec J env = Inr p" "encrypt (tcp_session T) (lk_session l) p = (Inr c, ses)"
    "frame_out (tcp_profile T) c g = (Inr w, g')" and t: "tx st = tx (lk_stream l) @ w"
    using send_frame_Ok [OF s] by blast
  from frames_single [OF this(1-3)] show ?thesis using l' t by auto
qed

lemma link_send_sendable:
  assumes "sendable T J env" and "tx_cap (lk_stream l) = None"
  obtains w ses g where "link_send T J env l =
      (Ok (), l\<lparr>lk_stream := (lk_stream l)\<lparr>tx := tx (lk_stream l) @ w\<rparr>, lk_session := ses, lk_rng := g\<rparr>)"
    and "frames T J (lk_session l) [env] w ses"
    and "\<And>fwd x. duplex_contract (tcp_session T) fwd \<Longrightarrow> fwd x (lk_session l) \<Longrightarrow> fwd x ses"
proof -
  obtain p where p: "to_vec J env = Inr p" using assms(1) serde_okE unfolding sendable_def by metis
  obtain c a' where c: "encrypt (tcp_session T) (lk_session l) p = (Inr c, a')"
    and f: "\<And>g. \<exists>w g'. frame_out (tcp_profile T) c g = (Inr w, g')"
    using assms(1) p unfolding sendable_def by meson
  obtain d g where j: "jitter (tcp_profile T) (lk_rng l) = (d, g)" by fastforce
  obtain w g' where w: "frame_out (tcp_profile T) c g = (Inr w, g')" using f by blast
  have "link_send T J env l =
      (Ok (), l\<lparr>lk_stream := (lk_stream l)\<lparr>tx := tx (lk_stream l) @ w\<rparr>, lk_session := a', lk_rng := g'\<rparr>)"
    by (simp add: link_send_def send_frame_def j p c w write_all_uncapped assms(2))
  moreover have "frames T J (lk_session l) [env] w a'" by (rule frames_single [OF p c w])
  moreover have "fwd x a'" if "duplex_contract (tcp_session T) fwd" and "fwd x (lk_session l)" for fwd x
    using that c unfolding duplex_contract_def by blast
  ultimately show thesis by (rule that)
qed

lemma link_recv_frames:
  assumes f: "frames T J a (env # envs) w a2" and "frame_contract (tcp_profile T)"
    and d: "duplex_contract (tcp_session T) fwd" and "serde_ok J env" and fwd: "fwd a (lk_session l)"
    and u: "unread l = w @ rest"
  obtains st ses buf a1 w' where
    "link_recv T J l = (Ok env, l\<lparr>lk_stream := st, lk_session := ses, lk_buf := buf\<rparr>)"
    and "tx st = tx (lk_stream l)" and "tx_cap st = tx_cap (lk_stream l)"
    and "unread (l\<lparr>lk_stream := st, lk_session := ses, lk_buf := buf\<rparr>) = w' @ rest"
    and "frames T J a1 envs w' a2" and "fwd a1 ses" and "\<And>x. fwd (lk_session l) x \<Longrightarrow> fwd ses x"
proof -
  from f obtain p c a1 g w1 g' w' where p: "to_vec J env = Inr p"
    and c: "encrypt (tcp_session T) a p = (Inr c, a1)" and w1: "frame_out (tcp_profile T) c g = (Inr w1, g')"
    and r: "frames T J a1 envs w' a2" and w: "w = w1 @ w'" by (rule frames_ConsE) auto
  obtain ses where s: "decrypt (tcp_session T) (lk_session l) c = (Inr p, ses)" "fwd a1 ses"
    using d session_contractD [of "tcp_session T" fwd, OF _ fwd c] unfolding duplex_contract_def by blast
  have j: "from_slice J p = Inr env" using assms(4) p by (auto simp: serde_ok_def)
  have "lk_buf l @ flat (lk_stream l) = w1 @ w' @ rest" using u w by (simp add: unread_def)
  from recv_frame_complete [OF assms(2) w1 s(1) j this] obtain st buf where
    "recv_frame (tcp_profile T) (tcp_session T) J (lk_stream l) (lk_session l) (lk_buf l) = (Ok env, st, ses, buf)"
    and "buf @ flat st = w' @ rest" and "tx st = tx (lk_stream l)" and "tx_cap st = tx_cap (lk_stream l)" by auto
  moreover have "fwd ses x" if "fwd (lk_session l) x" for x using that d s(1) unfolding duplex_contract_def by blast
  ultimately show thesis using that r s(2) by (simp add: link_recv_def unread_def)
qed

lemma link_recv_receives:
  assumes r: "receives T J (lk_session l) (env # envs) w x2" and "frame_contract (tcp_profile T)" and u: "unread l = w @ rest"
  obtains st ses buf w' where
    "link_recv T J l = (Ok env, l\<lparr>lk_stream := st, lk_session := ses, lk_buf := buf\<rparr>)"
    and "tx st = tx (lk_stream l)" and "tx_cap st = tx_cap (lk_stream l)"
    and "unread (l\<lparr>lk_stream := st, lk_session := ses, lk_buf := buf\<rparr>) = w' @ rest" and "receives T J ses envs w' x2"
proof -
  from r obtain c g w1 g' p x1 w' where w1: "frame_out (tcp_profile T) c g = (Inr w1, g')"
    and d: "decrypt (tcp_session T) (lk_session l) c = (Inr p, x1)" and j: "from_slice J p = Inr env"
    and r': "receives T J x1 envs w' x2" and w: "w = w1 @ w'" by (rule receives_ConsE) auto
  have "lk_buf l @ flat (lk_stream l) = w1 @ w' @ rest" using u w by (simp add: unread_def)
  from recv_frame_complete [OF assms(2) w1 d j this] show thesis
    using that r' by (auto simp: link_recv_def unread_def)
qed

lemma receives_unique:
  assumes "receives T J x [] w x'"
  shows "w = [] \<and> x' = x"
  using assms by (auto elim: receives_NilE)

subsection \<open>Concrete arguments\<close>

lemma duplex_contract_duplex: "duplex_contract duplex duplex_fwd"
  by (auto simp: duplex_contract_def session_contract_def duplex_def duplex_fwd_def split: list.splits if_splits prod.splits)

lemma demo_sendable:
  "length p < 255 \<Longrightarrow> to_vec plain_serde env = Inr p \<Longrightarrow> serde_ok plain_serde env \<Longrightarrow> sendable demo_tcp plain_serde env"
  by (auto simp: sendable_def demo_tcp_def duplex_def short_frames_def split: prod.splits)

end
