(* ===== verification/Tcp_Server.thy ===== *)
theory Tcp_Server
  imports Tcp_Link Verifier Socket_Addr
begin

text \<open>
  The TCP server, \<^verbatim>\<open>src/server.rs\<close>, as a state machine.

  Each accepted connection is a task. It is in its handshake (\<open>Shaking\<close>, with the stream as accepted
  plus what has arrived since; the task restarts the deterministic handshake on it, which is what
  resuming it gives), in its pump loop (\<open>Up\<close>, with the client's static key), or it has returned
  (\<open>Gone\<close>). \<open>Poll i\<close> lets task \<open>i\<close> run the handshake as far as it goes, or one round of the loop,
  whose \<^verbatim>\<open>select!\<close> prefers the outbound channel. Other events: the listener accepts, fails or is
  stopped; the network delivers input or stops taking output; a source publishes an event, which the
  subscription tasks forward, except those that lag. \<open>ts_handled\<close> lists the requests the service has
  handled.
\<close>

datatype ('x, 'g, 's) tcp_task =
    Shaking stream nat 'g
  | Up bytes "('x, 'g, 's) link"
  | Gone

record ('x, 'g, 's) tcp_server =
  ts_listening :: bool
  ts_tasks :: "('x, 'g, 's) tcp_task list"
  ts_subs :: "subscription list"
  ts_handled :: "'x request list"
  ts_entropy :: nat

record ('x, 'g, 'h, 's) tcp_server_cfg =
  tc_ctx :: "('g, 'h, 's) tcp_ctx"
  tc_json :: "'x serde"
  tc_service :: "'x service"
  tc_gate :: "bytes \<Rightarrow> string + unit"
  tc_priv :: bytes
  tc_rng :: "nat \<Rightarrow> 'g"

datatype 'x tcp_event =
    Accept stream
  | AcceptError
  | Stop
  | Input nat "bytes list" rx_status
  | Limit nat nat
  | Poll nat
  | TcpPublish nat "'x event" "nat list"

definition set_task ::
  "nat \<Rightarrow> ('x, 'g, 's) tcp_task \<Rightarrow> ('x, 'g, 's) tcp_server \<Rightarrow> ('x, 'g, 's) tcp_server" where
  "set_task i t s = s\<lparr>ts_tasks := (ts_tasks s)[i := t]\<rparr>"

text \<open>Send one frame; the loop is left when that fails.\<close>

definition reply ::
  "('x, 'g, 'h, 's) tcp_server_cfg \<Rightarrow> nat \<Rightarrow> bytes \<Rightarrow> 'x envelope \<Rightarrow> ('x, 'g, 's) link \<Rightarrow>
   ('x, 'g, 's) tcp_server \<Rightarrow> ('x, 'g, 's) tcp_server" where
  "reply K i key env l s =
     (case link_send (tc_ctx K) (tc_json K) env l of
        (Ok _, l') \<Rightarrow> set_task i (Up key l') s
      | _ \<Rightarrow> set_task i Gone s)"

definition handle_subscribe ::
  "('x, 'g, 'h, 's) tcp_server_cfg \<Rightarrow> nat \<Rightarrow> bytes \<Rightarrow> string \<Rightarrow> ('x, 'g, 's) link \<Rightarrow>
   ('x, 'g, 's) tcp_server \<Rightarrow> ('x, 'g, 's) tcp_server" where
  "handle_subscribe K i key topic l s =
     (case svc_event_source (tc_service K) topic of
        Some src \<Rightarrow>
          set_task i (Up key l) (s\<lparr>ts_subs := ts_subs s @ [\<lparr>sub_source = src, sub_topic = topic, sub_conn = i\<rparr>]\<rparr>)
      | None \<Rightarrow>
          set_task i (Up key (l\<lparr>lk_queue := lk_queue l @
            [SubscribeError topic (diag_error (tc_service K) ''METHOD_NOT_FOUND'' ''no event source for topic'')]\<rparr>)) s)"

definition handle_frame ::
  "('x, 'g, 'h, 's) tcp_server_cfg \<Rightarrow> nat \<Rightarrow> bytes \<Rightarrow> 'x envelope \<Rightarrow> ('x, 'g, 's) link \<Rightarrow>
   ('x, 'g, 's) tcp_server \<Rightarrow> ('x, 'g, 's) tcp_server" where
  "handle_frame K i key env l s =
     (case env of
        Ping \<Rightarrow> reply K i key Pong l s
      | Request req \<Rightarrow>
          reply K i key (Response (svc_handle (tc_service K) (ts_handled s) req)) l
            (s\<lparr>ts_handled := ts_handled s @ [req]\<rparr>)
      | Subscribe topic _ capability \<Rightarrow>
          (case svc_verify_topic (tc_service K) capability topic of
             Inl err \<Rightarrow> reply K i key (SubscribeError topic (deny_diag (tc_service K) err)) l s
           | Inr _ \<Rightarrow> handle_subscribe K i key topic l s)
      | Unsubscribe _ \<Rightarrow> set_task i (Up key l) s
      | _ \<Rightarrow> set_task i (Up key l) s)"

definition pump_round ::
  "('x, 'g, 'h, 's) tcp_server_cfg \<Rightarrow> nat \<Rightarrow> bytes \<Rightarrow> ('x, 'g, 's) link \<Rightarrow>
   ('x, 'g, 's) tcp_server \<Rightarrow> ('x, 'g, 's) tcp_server" where
  "pump_round K i key l s =
     (case lk_queue l of
        env # q \<Rightarrow> reply K i key env (l\<lparr>lk_queue := q\<rparr>) s
      | [] \<Rightarrow>
          (case link_recv (tc_ctx K) (tc_json K) l of
             (Ok env, l') \<Rightarrow> handle_frame K i key env l' s
           | (Err _, _) \<Rightarrow> set_task i Gone s
           | (Blocked, l') \<Rightarrow> set_task i (Up key l') s))"

definition shake ::
  "('x, 'g, 'h, 's) tcp_server_cfg \<Rightarrow> nat \<Rightarrow> stream \<Rightarrow> nat \<Rightarrow> 'g \<Rightarrow>
   ('x, 'g, 's) tcp_server \<Rightarrow> ('x, 'g, 's) tcp_server" where
  "shake K i st ent g s =
     (case server_handshake_in_place (tc_ctx K) ent g (tc_priv K) st of
        (Ok (session, Some key, leftover), st') \<Rightarrow>
          (case tc_gate K key of
             Inr _ \<Rightarrow>
               set_task i (Up key \<lparr>lk_stream = st', lk_session = session, lk_buf = leftover,
                                   lk_rng = tc_rng K (ts_entropy s), lk_queue = []\<rparr>)
                 (s\<lparr>ts_entropy := Suc (ts_entropy s)\<rparr>)
           | Inl _ \<Rightarrow> set_task i Gone s)
      | (Ok (_, None, _), _) \<Rightarrow> set_task i Gone s
      | (Err _, _) \<Rightarrow> set_task i Gone s
      | (Blocked, _) \<Rightarrow> s)"

definition handle_connection ::
  "('x, 'g, 'h, 's) tcp_server_cfg \<Rightarrow> nat \<Rightarrow> ('x, 'g, 's) tcp_server \<Rightarrow> ('x, 'g, 's) tcp_server" where
  "handle_connection K i s =
     (if i < length (ts_tasks s)
      then (case ts_tasks s ! i of
              Shaking st ent g \<Rightarrow> shake K i st ent g s
            | Up key l \<Rightarrow> pump_round K i key l s
            | Gone \<Rightarrow> s)
      else s)"

definition on_stream :: "(stream \<Rightarrow> stream) \<Rightarrow> nat \<Rightarrow> ('x, 'g, 's) tcp_server \<Rightarrow> ('x, 'g, 's) tcp_server" where
  "on_stream f i s =
     (if i < length (ts_tasks s)
      then set_task i
             (case ts_tasks s ! i of
                Shaking st ent g \<Rightarrow> Shaking (f st) ent g
              | Up key l \<Rightarrow> Up key (l\<lparr>lk_stream := f (lk_stream l)\<rparr>)
              | Gone \<Rightarrow> Gone) s
      else s)"

text \<open>A subscription task puts an event on its connection's channel; that fails once the connection is gone.\<close>

definition push_event :: "nat \<Rightarrow> 'x event \<Rightarrow> ('x, 'g, 's) tcp_server \<Rightarrow> ('x, 'g, 's) tcp_server" where
  "push_event i ev s =
     (if i < length (ts_tasks s)
      then set_task i
             (case ts_tasks s ! i of Up key l \<Rightarrow> Up key (l\<lparr>lk_queue := lk_queue l @ [Event ev]\<rparr>) | t \<Rightarrow> t) s
      else s)"

fun forward_event ::
  "nat \<Rightarrow> 'x event \<Rightarrow> nat list \<Rightarrow> nat \<Rightarrow> subscription list \<Rightarrow> ('x, 'g, 's) tcp_server \<Rightarrow>
   ('x, 'g, 's) tcp_server" where
  "forward_event src ev lagging n [] s = s"
| "forward_event src ev lagging n (sub # rest) s =
     forward_event src ev lagging (Suc n) rest
       (if sub_source sub = src \<and> n \<notin> set lagging \<and> ev_topic ev = sub_topic sub
        then push_event (sub_conn sub) ev s
        else s)"

definition accept_loop ::
  "('x, 'g, 'h, 's) tcp_server_cfg \<Rightarrow> stream \<Rightarrow> ('x, 'g, 's) tcp_server \<Rightarrow> ('x, 'g, 's) tcp_server" where
  "accept_loop K st s =
     (if ts_listening s
      then s\<lparr>ts_tasks := ts_tasks s @ [Shaking st (ts_entropy s) (tc_rng K (ts_entropy s))],
             ts_entropy := Suc (ts_entropy s)\<rparr>
      else s)"

definition tcp_step ::
  "('x, 'g, 'h, 's) tcp_server_cfg \<Rightarrow> ('x, 'g, 's) tcp_server \<Rightarrow> 'x tcp_event \<Rightarrow> ('x, 'g, 's) tcp_server" where
  "tcp_step K s e =
     (case e of
        Accept st \<Rightarrow> accept_loop K st s
      | AcceptError \<Rightarrow> s\<lparr>ts_listening := False\<rparr>
      | Stop \<Rightarrow> s\<lparr>ts_listening := False\<rparr>
      | Input i cs e \<Rightarrow> on_stream (net_input cs e) i s
      | Limit i n \<Rightarrow> on_stream (net_limit n) i s
      | Poll i \<Rightarrow> handle_connection K i s
      | TcpPublish src ev lagging \<Rightarrow> forward_event src ev lagging 0 (ts_subs s) s)"

record obfs_serve_handle =
  local_addr :: socket_addr

definition tcp_start :: "('x, 'g, 's) tcp_server" where
  "tcp_start = \<lparr>ts_listening = True, ts_tasks = [], ts_subs = [], ts_handled = [], ts_entropy = 0\<rparr>"

definition serve_obfs ::
  "io_error + unit \<Rightarrow> io_error + socket_addr \<Rightarrow> obfs_error + (obfs_serve_handle \<times> ('x, 'g, 's) tcp_server)" where
  "serve_obfs bind addr =
     (case bind of
        Inl e \<Rightarrow> Inl (Io e)
      | Inr _ \<Rightarrow>
          (case addr of
             Inl e \<Rightarrow> Inl (Io e)
           | Inr a \<Rightarrow> Inr (\<lparr>local_addr = a\<rparr>, tcp_start)))"

subsection \<open>Invariant\<close>

text \<open>
  Every connection that is served belongs to a key the gate accepts; every subscription was
  authorised and comes from the source of its topic; a connection's outbound channel holds events
  only of topics that connection subscribed to.
\<close>

definition up_links :: "('x, 'g, 's) tcp_server \<Rightarrow> nat \<Rightarrow> bytes \<Rightarrow> ('x, 'g, 's) link \<Rightarrow> bool" where
  "up_links s i key l \<longleftrightarrow> i < length (ts_tasks s) \<and> ts_tasks s ! i = Up key l"

definition keys_accepted :: "('x, 'g, 'h, 's) tcp_server_cfg \<Rightarrow> ('x, 'g, 's) tcp_server \<Rightarrow> bool" where
  "keys_accepted K s \<longleftrightarrow> (\<forall>i key l. up_links s i key l \<longrightarrow> tc_gate K key = Inr ())"

definition subs_granted :: "('x, 'g, 'h, 's) tcp_server_cfg \<Rightarrow> ('x, 'g, 's) tcp_server \<Rightarrow> bool" where
  "subs_granted K s \<longleftrightarrow>
     (\<forall>sub \<in> set (ts_subs s). (\<exists>cap. svc_verify_topic (tc_service K) cap (sub_topic sub) = Inr ()) \<and>
        svc_event_source (tc_service K) (sub_topic sub) = Some (sub_source sub) \<and> sub_conn sub < length (ts_tasks s))"

definition events_wanted :: "('x, 'g, 's) tcp_server \<Rightarrow> bool" where
  "events_wanted s \<longleftrightarrow>
     (\<forall>i key l ev. up_links s i key l \<longrightarrow> Event ev \<in> set (lk_queue l) \<longrightarrow>
        (\<exists>sub \<in> set (ts_subs s). sub_conn sub = i \<and> sub_topic sub = ev_topic ev))"

definition tcp_inv :: "('x, 'g, 'h, 's) tcp_server_cfg \<Rightarrow> ('x, 'g, 's) tcp_server \<Rightarrow> bool" where
  "tcp_inv K s \<longleftrightarrow> keys_accepted K s \<and> subs_granted K s \<and> events_wanted s"

lemma ts_tasks_set_task [simp]: "ts_tasks (set_task i t s) = (ts_tasks s)[i := t]"
  by (simp add: set_task_def)

lemma set_task_frame [simp]:
  "ts_subs (set_task i t s) = ts_subs s" "ts_handled (set_task i t s) = ts_handled s"
  "ts_entropy (set_task i t s) = ts_entropy s" "ts_listening (set_task i t s) = ts_listening s"
  by (simp_all add: set_task_def)

lemma up_links_set_task:
  "up_links (set_task i t s) j key l \<longleftrightarrow>
     (if j = i then i < length (ts_tasks s) \<and> t = Up key l else up_links s j key l)"
  by (auto simp: up_links_def)

text \<open>
  Changing one task keeps the invariant when an \<open>Up\<close> task keeps its accepted key and queues only
  events it was already queueing, or is fresh.
\<close>

lemma tcp_inv_set_task:
  assumes "tcp_inv K s"
    and "\<And>key l. t = Up key l \<Longrightarrow> tc_gate K key = Inr () \<and>
      (\<forall>ev. Event ev \<in> set (lk_queue l) \<longrightarrow> (\<exists>sub \<in> set (ts_subs s). sub_conn sub = i \<and> sub_topic sub = ev_topic ev))"
  shows "tcp_inv K (set_task i t s)"
  using assms
  by (auto simp: tcp_inv_def keys_accepted_def subs_granted_def events_wanted_def up_links_set_task split: if_splits,
      blast)

lemma tcp_inv_cong:
  assumes "ts_tasks s' = ts_tasks s" and "ts_subs s' = ts_subs s"
  shows "tcp_inv K s' \<longleftrightarrow> tcp_inv K s"
  using assms by (simp add: tcp_inv_def keys_accepted_def subs_granted_def events_wanted_def up_links_def)

lemma link_ops_queue:
  "link_send T J env l = (r, l') \<Longrightarrow> lk_queue l' = lk_queue l"
  "link_recv T J l = (r', l') \<Longrightarrow> lk_queue l' = lk_queue l"
  by (auto simp: link_send_def link_recv_def split: prod.splits)

text \<open>What a link may hold while its task is being polled.\<close>

definition link_ok :: "('x, 'g, 'h, 's) tcp_server_cfg \<Rightarrow> nat \<Rightarrow> bytes \<Rightarrow> ('x, 'g, 's) link \<Rightarrow> ('x, 'g, 's) tcp_server \<Rightarrow> bool" where
  "link_ok K i key l s \<longleftrightarrow> i < length (ts_tasks s) \<and> tc_gate K key = Inr () \<and>
     (\<forall>ev. Event ev \<in> set (lk_queue l) \<longrightarrow> (\<exists>sub \<in> set (ts_subs s). sub_conn sub = i \<and> sub_topic sub = ev_topic ev))"

lemma link_ok_mono: "link_ok K i key l s \<Longrightarrow> set (lk_queue l') \<subseteq> set (lk_queue l) \<Longrightarrow> link_ok K i key l' s"
  by (auto simp: link_ok_def)

lemma tcp_inv_put: "tcp_inv K s \<Longrightarrow> link_ok K i key l s \<Longrightarrow> tcp_inv K (set_task i (Up key l) s)"
  by (rule tcp_inv_set_task) (auto simp: link_ok_def)

lemma tcp_inv_gone: "tcp_inv K s \<Longrightarrow> tcp_inv K (set_task i Gone s)"
  by (rule tcp_inv_set_task) auto

lemma tcp_inv_reply: "tcp_inv K s \<Longrightarrow> link_ok K i key l s \<Longrightarrow> tcp_inv K (reply K i key env l s)"
  by (auto simp: reply_def tcp_inv_gone split: prod.splits res.splits
      intro!: tcp_inv_put link_ok_mono [of K i key l] dest!: link_ops_queue(1))

lemma tcp_inv_subscribe:
  assumes "tcp_inv K s" and "link_ok K i key l s" and "svc_verify_topic (tc_service K) cap topic = Inr ()"
  shows "tcp_inv K (handle_subscribe K i key topic l s)"
proof (cases "svc_event_source (tc_service K) topic")
  case None
  have "link_ok K i key (l\<lparr>lk_queue := lk_queue l @ [SubscribeError topic d]\<rparr>) s" for d
    using assms(2) by (auto simp: link_ok_def)
  then show ?thesis using None assms(1) by (simp add: handle_subscribe_def tcp_inv_put)
next
  case (Some src)
  let ?s = "s\<lparr>ts_subs := ts_subs s @ [\<lparr>sub_source = src, sub_topic = topic, sub_conn = i\<rparr>]\<rparr>"
  have "tcp_inv K ?s"
    using assms Some
    by (auto simp: tcp_inv_def keys_accepted_def subs_granted_def events_wanted_def up_links_def link_ok_def)
  moreover have "link_ok K i key l ?s" using assms(2) by (auto simp: link_ok_def)
  ultimately show ?thesis using Some by (simp add: handle_subscribe_def tcp_inv_put)
qed

lemma tcp_inv_frame:
  assumes "tcp_inv K s" and "link_ok K i key l s"
  shows "tcp_inv K (handle_frame K i key env l s)"
proof -
  have "tcp_inv K (s\<lparr>ts_handled := h\<rparr>)" and "link_ok K i key l (s\<lparr>ts_handled := h\<rparr>)" for h
    using assms tcp_inv_cong [of "s\<lparr>ts_handled := h\<rparr>" s K] by (simp_all add: link_ok_def)
  then show ?thesis
    using assms tcp_inv_subscribe [OF assms]
    by (auto simp: handle_frame_def tcp_inv_reply tcp_inv_put split: envelope.splits sum.splits)
qed

lemma tcp_inv_round: "tcp_inv K s \<Longrightarrow> link_ok K i key l s \<Longrightarrow> tcp_inv K (pump_round K i key l s)"
  by (auto simp: pump_round_def tcp_inv_gone split: list.splits prod.splits res.splits
      intro!: tcp_inv_reply tcp_inv_frame tcp_inv_put link_ok_mono [of K i key l] dest!: link_ops_queue(2))

lemma tcp_inv_shake: "tcp_inv K s \<Longrightarrow> tcp_inv K (shake K i st ent g s)"
  using tcp_inv_cong [of "s\<lparr>ts_entropy := Suc (ts_entropy s)\<rparr>" s K]
  by (auto simp: shake_def tcp_inv_gone split: prod.splits res.splits option.splits sum.splits intro!: tcp_inv_set_task)

lemma tcp_inv_link_ok: "tcp_inv K s \<Longrightarrow> i < length (ts_tasks s) \<Longrightarrow> ts_tasks s ! i = Up key l \<Longrightarrow> link_ok K i key l s"
  by (auto simp: tcp_inv_def keys_accepted_def events_wanted_def up_links_def link_ok_def)

lemma tcp_inv_connection: "tcp_inv K s \<Longrightarrow> tcp_inv K (handle_connection K i s)"
  by (auto simp: handle_connection_def tcp_inv_shake tcp_inv_round tcp_inv_link_ok split: tcp_task.splits)

lemma tcp_inv_stream: "tcp_inv K s \<Longrightarrow> tcp_inv K (on_stream f i s)"
  using tcp_inv_link_ok [of K s i]
  by (auto simp: on_stream_def link_ok_def split: tcp_task.splits intro!: tcp_inv_set_task)

lemma push_event_frame [simp]:
  "ts_subs (push_event i ev s) = ts_subs s" "length (ts_tasks (push_event i ev s)) = length (ts_tasks s)"
  by (simp_all add: push_event_def)

lemma tcp_inv_push:
  assumes "tcp_inv K s" and "sub \<in> set (ts_subs s)" and "sub_topic sub = ev_topic ev"
  shows "tcp_inv K (push_event (sub_conn sub) ev s)"
  using assms tcp_inv_link_ok [of K s "sub_conn sub"]
  by (auto simp: push_event_def link_ok_def split: tcp_task.splits intro!: tcp_inv_set_task)

lemma tcp_inv_forward: "set subs \<subseteq> set (ts_subs s) \<Longrightarrow> tcp_inv K s \<Longrightarrow> tcp_inv K (forward_event src ev lagging n subs s)"
  by (induction subs arbitrary: n s) (auto simp: tcp_inv_push)

lemma up_links_snoc: "ts_tasks s' = ts_tasks s @ [Shaking st n g] \<Longrightarrow> up_links s' i key l \<longleftrightarrow> up_links s i key l"
  by (auto simp: up_links_def nth_append)

lemma tcp_inv_accept: "tcp_inv K s \<Longrightarrow> tcp_inv K (accept_loop K st s)"
  by (auto simp: accept_loop_def tcp_inv_def keys_accepted_def subs_granted_def events_wanted_def up_links_snoc)

lemma tcp_inv_step: "tcp_inv K s \<Longrightarrow> tcp_inv K (tcp_step K s e)"
  using tcp_inv_cong [of "s\<lparr>ts_listening := False\<rparr>" s K]
  by (cases e) (auto simp: tcp_step_def tcp_inv_accept tcp_inv_stream tcp_inv_connection tcp_inv_forward)

interpretation tcp: step_invariant "tcp_step K" "\<lambda>_. True" "tcp_inv K"
  by unfold_locales (rule tcp_inv_step)

lemma tcp_inv_start: "tcp_inv K tcp_start"
  by (simp add: tcp_start_def tcp_inv_def keys_accepted_def subs_granted_def events_wanted_def up_links_def)

subsection \<open>What reaches the service\<close>

lemma reply_handled [simp]: "ts_handled (reply K i key env l s) = ts_handled s"
  by (auto simp: reply_def split: prod.splits res.splits)

lemma subscribe_handled [simp]: "ts_handled (handle_subscribe K i key topic l s) = ts_handled s"
  by (auto simp: handle_subscribe_def split: option.splits)

lemma frame_handled:
  "ts_handled (handle_frame K i key env l s) = ts_handled s @ (case env of Request req \<Rightarrow> [req] | _ \<Rightarrow> [])"
  by (auto simp: handle_frame_def split: envelope.splits sum.splits)

lemma round_handled:
  "ts_handled (pump_round K i key l s) = ts_handled s \<or>
   (\<exists>req. lk_queue l = [] \<and> fst (link_recv (tc_ctx K) (tc_json K) l) = Ok (Request req) \<and>
      ts_handled (pump_round K i key l s) = ts_handled s @ [req])"
  by (auto simp: pump_round_def frame_handled split: list.splits prod.splits res.splits envelope.splits)

lemma shake_handled [simp]: "ts_handled (shake K i st ent g s) = ts_handled s"
  by (auto simp: shake_def split: prod.splits res.splits option.splits sum.splits)

lemma push_handled [simp]: "ts_handled (push_event i ev s) = ts_handled s"
  by (simp add: push_event_def)

lemma forward_handled [simp]: "ts_handled (forward_event src ev lagging n subs s) = ts_handled s"
  by (induction subs arbitrary: n s) auto

lemma stream_handled [simp]: "ts_handled (on_stream f i s) = ts_handled s"
  by (simp add: on_stream_def)

lemma step_handled:
  "ts_handled (tcp_step K s e) = ts_handled s \<or>
   (\<exists>i key l req. e = Poll i \<and> up_links s i key l \<and> lk_queue l = [] \<and>
      fst (link_recv (tc_ctx K) (tc_json K) l) = Ok (Request req) \<and> ts_handled (tcp_step K s e) = ts_handled s @ [req])"
proof (cases e)
  case (Poll i)
  show ?thesis
  proof (cases "i < length (ts_tasks s)")
    case True
    then show ?thesis
      using Poll round_handled [of K i _ _ s]
      by (cases "ts_tasks s ! i") (auto simp: tcp_step_def handle_connection_def up_links_def)
  qed (simp add: Poll tcp_step_def handle_connection_def)
qed (auto simp: tcp_step_def accept_loop_def)

subsection \<open>Requests are answered in order\<close>

fun answers :: "'x service \<Rightarrow> 'x request list \<Rightarrow> 'x request list \<Rightarrow> 'x response list" where
  "answers svc log [] = []"
| "answers svc log (r # rs) = svc_handle svc log r # answers svc (log @ [r]) rs"

lemma length_answers [simp]: "length (answers svc log rs) = length rs"
  by (induction rs arbitrary: log) auto

lemma serve_one:
  assumes fc: "frame_contract (tcp_profile (tc_ctx K))" and dc: "duplex_contract (tcp_session (tc_ctx K)) fwd"
    and "serde_ok (tc_json K) (Request r)"
    and send: "sendable (tc_ctx K) (tc_json K) (Response (svc_handle (tc_service K) (ts_handled s) r))"
    and fr: "frames (tc_ctx K) (tc_json K) a (Request r # envs) w a'"
    and up: "up_links s i key l" and q: "lk_queue l = []" and cap: "tx_cap (lk_stream l) = None"
    and u: "unread l = w @ rest" and fwd: "fwd a (lk_session l)"
  obtains l' a1 w' v where
    "tcp_step K s (Poll i) = set_task i (Up key l') (s\<lparr>ts_handled := ts_handled s @ [r]\<rparr>)"
    and "lk_queue l' = []" and "tx_cap (lk_stream l') = None" and "unread l' = w' @ rest"
    and "frames (tc_ctx K) (tc_json K) a1 envs w' a'" and "fwd a1 (lk_session l')"
    and "tx (lk_stream l') = tx (lk_stream l) @ v"
    and "\<And>x. fwd (lk_session l) x \<Longrightarrow> \<exists>x'. receives (tc_ctx K) (tc_json K) x
          [Response (svc_handle (tc_service K) (ts_handled s) r)] v x' \<and> fwd (lk_session l') x'"
proof -
  from link_recv_frames [OF fr fc dc assms(3) fwd u]
  obtain st ses buf a1 w' where rc: "link_recv (tc_ctx K) (tc_json K) l =
      (Ok (Request r), l\<lparr>lk_stream := st, lk_session := ses, lk_buf := buf\<rparr>)"
    and t: "tx st = tx (lk_stream l)" "tx_cap st = tx_cap (lk_stream l)"
    and u': "unread (l\<lparr>lk_stream := st, lk_session := ses, lk_buf := buf\<rparr>) = w' @ rest"
    and f': "frames (tc_ctx K) (tc_json K) a1 envs w' a'" "fwd a1 ses"
    and keep: "\<And>x. fwd (lk_session l) x \<Longrightarrow> fwd ses x" by metis
  let ?l = "l\<lparr>lk_stream := st, lk_session := ses, lk_buf := buf\<rparr>"
  have "tx_cap (lk_stream ?l) = None" using t cap by simp
  from link_send_sendable [OF send this] obtain v ses' g where
    sd: "link_send (tc_ctx K) (tc_json K) (Response (svc_handle (tc_service K) (ts_handled s) r)) ?l =
      (Ok (), ?l\<lparr>lk_stream := (lk_stream ?l)\<lparr>tx := tx (lk_stream ?l) @ v\<rparr>, lk_session := ses', lk_rng := g\<rparr>)"
    and fv: "frames (tc_ctx K) (tc_json K) (lk_session ?l) [Response (svc_handle (tc_service K) (ts_handled s) r)] v ses'"
    and k': "\<And>x. fwd x (lk_session ?l) \<Longrightarrow> fwd x ses'" using dc by metis
  let ?l' = "?l\<lparr>lk_stream := (lk_stream ?l)\<lparr>tx := tx (lk_stream ?l) @ v\<rparr>, lk_session := ses', lk_rng := g\<rparr>"
  show thesis
  proof (rule that [of ?l'])
    show "tcp_step K s (Poll i) = set_task i (Up key ?l') (s\<lparr>ts_handled := ts_handled s @ [r]\<rparr>)"
      using up q by (simp add: tcp_step_def handle_connection_def up_links_def pump_round_def rc handle_frame_def reply_def sd)
    show "\<exists>x'. receives (tc_ctx K) (tc_json K) x [Response (svc_handle (tc_service K) (ts_handled s) r)] v x' \<and>
        fwd (lk_session ?l') x'" if "fwd (lk_session l) x" for x
    proof -
      have "fwd (lk_session ?l) x"
        and "list_all (serde_ok (tc_json K)) [Response (svc_handle (tc_service K) (ts_handled s) r)]"
        using keep [OF that] send by (simp_all add: sendable_def)
      from frames_receives [of "tc_ctx K" fwd, OF duplex_session [OF dc] fv this(2,1)] show ?thesis by simp
    qed
    show "unread ?l' = w' @ rest" using u' by (simp add: unread_def)
  qed (use q t cap f' k' in simp_all)
qed

text \<open>A request that survives the coder and whose answers can be sent.\<close>

definition servable :: "('x, 'g, 'h, 's) tcp_server_cfg \<Rightarrow> 'x request \<Rightarrow> bool" where
  "servable K r \<longleftrightarrow>
     serde_ok (tc_json K) (Request r) \<and>
     (\<forall>log. sendable (tc_ctx K) (tc_json K) (Response (svc_handle (tc_service K) log r)))"

lemma serve_many:
  assumes fc: "frame_contract (tcp_profile (tc_ctx K))" and dc: "duplex_contract (tcp_session (tc_ctx K)) fwd"
  shows "list_all (servable K) rs \<Longrightarrow>
    frames (tc_ctx K) (tc_json K) a (map Request rs) w a' \<Longrightarrow> up_links s i key l \<Longrightarrow> lk_queue l = [] \<Longrightarrow>
    tx_cap (lk_stream l) = None \<Longrightarrow> unread l = w @ rest \<Longrightarrow> fwd a (lk_session l) \<Longrightarrow>
    \<exists>l' v. up_links (foldl (tcp_step K) s (replicate (length rs) (Poll i))) i key l' \<and>
      ts_handled (foldl (tcp_step K) s (replicate (length rs) (Poll i))) = ts_handled s @ rs \<and>
      unread l' = rest \<and> tx (lk_stream l') = tx (lk_stream l) @ v \<and>
      (\<forall>x. fwd (lk_session l) x \<longrightarrow> (\<exists>x'. receives (tc_ctx K) (tc_json K) x
         (map Response (answers (tc_service K) (ts_handled s) rs)) v x' \<and> fwd (lk_session l') x'))"
proof (induction rs arbitrary: s a w l)
  case Nil
  then have "w = []" by (auto elim: frames_NilE)
  moreover have "\<exists>x'. receives (tc_ctx K) (tc_json K) x [] [] x' \<and> fwd (lk_session l) x'" if "fwd (lk_session l) x" for x
    by (rule exI [of _ x], rule conjI, rule receives.none, rule that)
  ultimately show ?case using Nil by auto
next
  case (Cons r rs)
  have "serde_ok (tc_json K) (Request r)" and rs: "list_all (servable K) rs"
    and "sendable (tc_ctx K) (tc_json K) (Response (svc_handle (tc_service K) (ts_handled s) r))"
    using Cons.prems(1) by (simp_all add: servable_def [of K r])
  from serve_one [OF fc dc this(1,3) Cons.prems(2) [simplified] Cons.prems(3-7)]
  obtain l1 a1 w1 v1 where step: "tcp_step K s (Poll i) = set_task i (Up key l1) (s\<lparr>ts_handled := ts_handled s @ [r]\<rparr>)"
    and l1: "lk_queue l1 = []" "tx_cap (lk_stream l1) = None" "unread l1 = w1 @ rest" "fwd a1 (lk_session l1)"
    and f1: "frames (tc_ctx K) (tc_json K) a1 (map Request rs) w1 a'"
    and t1: "tx (lk_stream l1) = tx (lk_stream l) @ v1"
    and x1: "\<And>x. fwd (lk_session l) x \<Longrightarrow> \<exists>x'. receives (tc_ctx K) (tc_json K) x
          [Response (svc_handle (tc_service K) (ts_handled s) r)] v1 x' \<and> fwd (lk_session l1) x'" by metis
  let ?s = "set_task i (Up key l1) (s\<lparr>ts_handled := ts_handled s @ [r]\<rparr>)"
  have up1: "up_links ?s i key l1" using Cons.prems(3) by (simp add: up_links_def)
  obtain l' v where r: "up_links (foldl (tcp_step K) ?s (replicate (length rs) (Poll i))) i key l'"
    "ts_handled (foldl (tcp_step K) ?s (replicate (length rs) (Poll i))) = ts_handled ?s @ rs"
    "unread l' = rest" "tx (lk_stream l') = tx (lk_stream l1) @ v"
    and xr: "\<And>x. fwd (lk_session l1) x \<Longrightarrow> \<exists>x'. receives (tc_ctx K) (tc_json K) x
         (map Response (answers (tc_service K) (ts_handled ?s) rs)) v x' \<and> fwd (lk_session l') x'"
    using Cons.IH [OF rs f1 up1 l1] by blast
  have "\<exists>x'. receives (tc_ctx K) (tc_json K) x (map Response (answers (tc_service K) (ts_handled s) (r # rs))) (v1 @ v) x' \<and>
      fwd (lk_session l') x'" if fx: "fwd (lk_session l) x" for x
  proof -
    obtain y where y: "receives (tc_ctx K) (tc_json K) x [Response (svc_handle (tc_service K) (ts_handled s) r)] v1 y"
      "fwd (lk_session l1) y" using x1 [OF fx] by blast
    obtain z where "receives (tc_ctx K) (tc_json K) y (map Response (answers (tc_service K) (ts_handled ?s) rs)) v z"
      "fwd (lk_session l') z" using xr [OF y(2)] by blast
    with receives_append [OF y(1) this(1)] show ?thesis by auto
  qed
  then show ?case using step r t1 by (intro exI [of _ l'] exI [of _ "v1 @ v"]) simp
qed

subsection \<open>Properties\<close>

text \<open>
  In every interleaving of accepting, network, connection and subscription steps from the start,
  each served connection belongs to a static key the gate accepts, each subscription was authorised
  by the service and listens to the source of its topic, and a connection has events to send only of
  topics it subscribed to.
\<close>

theorem tcp_server_invariant: "tcp_inv K (foldl (tcp_step K) tcp_start es)"
  by (rule tcp.run_inv [OF tcp_inv_start]) (simp add: list_all_iff)

text \<open>
  C7. Fail closed: at any point of any run, a step leaves the list of handled requests alone, or it is
  a round of a connection whose key the gate accepts, and it adds the one request that this
  connection's next frame decrypts to.
\<close>

theorem tcp_service_authenticated:
  "let s = foldl (tcp_step K) tcp_start es; s' = tcp_step K s e
   in ts_handled s' = ts_handled s \<or>
      (\<exists>i key l req. e = Poll i \<and> up_links s i key l \<and> tc_gate K key = Inr () \<and>
         fst (link_recv (tc_ctx K) (tc_json K) l) = Ok (Request req) \<and> ts_handled s' = ts_handled s @ [req])"
proof -
  have "tcp_inv K (foldl (tcp_step K) tcp_start es)"
    by (rule tcp.run_inv [OF tcp_inv_start]) (simp add: list_all_iff)
  then show ?thesis
    using step_handled [of K "foldl (tcp_step K) tcp_start es" e]
    unfolding Let_def tcp_inv_def keys_accepted_def by blast
qed

text \<open>
  C8. Requests are answered, all of them and in order. If a client has written the frames of some
  requests to a served connection, in whatever segments they arrived, then as many rounds of the
  connection hand exactly these requests to the service, and write bytes that a client with the
  matching session reads back as the service's answers, in the order of the requests. Input behind
  the requests is left for later rounds.
\<close>

theorem tcp_requests_answered:
  assumes "frame_contract (tcp_profile (tc_ctx K))" and "duplex_contract (tcp_session (tc_ctx K)) fwd"
    and "list_all (servable K) rs" and "frames (tc_ctx K) (tc_json K) a (map Request rs) w a'"
    and "up_links s i key l" and "lk_queue l = []" and "tx_cap (lk_stream l) = None" and "unread l = w @ rest"
    and "fwd a (lk_session l)" and "fwd (lk_session l) x"
  shows "let s' = foldl (tcp_step K) s (replicate (length rs) (Poll i))
    in \<exists>l' v x'. up_links s' i key l' \<and> ts_handled s' = ts_handled s @ rs \<and> unread l' = rest \<and>
         tx (lk_stream l') = tx (lk_stream l) @ v \<and>
         receives (tc_ctx K) (tc_json K) x (map Response (answers (tc_service K) (ts_handled s) rs)) v x'"
  using serve_many [OF assms(1,2), OF assms(3-9)] assms(10) unfolding Let_def by blast

definition echo_cfg :: "(unit, nat, bytes \<times> nat \<times> bytes option, nat \<times> nat) tcp_server_cfg" where
  "echo_cfg =
     \<lparr>tc_ctx = demo_tcp, tc_json = plain_serde,
      tc_service = \<lparr>svc_handle = (\<lambda>log r. \<lparr>resp_id = req_id r, resp_body = ()\<rparr>), svc_verify_topic = (\<lambda>_ _. Inr ()),
        svc_event_source = (\<lambda>_. None), diag_error = (\<lambda>_ _. ())\<rparr>,
      tc_gate = (\<lambda>_. Inr ()), tc_priv = replicate 32 1, tc_rng = id\<rparr>"

definition echo_link :: "(unit, nat, nat \<times> nat) link" where
  "echo_link = \<lparr>lk_stream = new_stream [[3, 0], [2, 97]] Open, lk_session = (0, 0), lk_buf = [], lk_rng = 0, lk_queue = []\<rparr>"

lemma plain_to_vec_eq: "to_vec plain_serde = plain_to_vec"
  by (simp add: plain_serde_def)

lemma echo_servable: "servable echo_cfg \<lparr>req_id = ''a'', req_body = ()\<rparr>"
  using demo_sendable [of "[3, 97]" "Response \<lparr>resp_id = ''a'', resp_body = ()\<rparr>"]
  by (simp add: servable_def echo_cfg_def plain_to_vec_eq)

lemma echo_frames:
  "frames demo_tcp plain_serde (0, 0) (map Request [\<lparr>req_id = ''a'', req_body = ()\<rparr>]) [3, 0, 2, 97] (1, 0)"
  using frames_single [where T = demo_tcp and J = plain_serde and env = "Request \<lparr>req_id = ''a'', req_body = ()\<rparr>"
      and p = "[2, 97]" and a = "(0, 0)" and c = "[0, 2, 97]" and a' = "(1, 0)" and g = 0 and w = "[3, 0, 2, 97]" and g' = 0]
  by (simp add: plain_serde_def demo_tcp_def duplex_def short_frames_def)

theorem tcp_requests_answered_witness:
  "let s = tcp_start\<lparr>ts_tasks := [Up [] echo_link]\<rparr>;
       s' = foldl (tcp_step echo_cfg) s (replicate (length [\<lparr>req_id = ''a'', req_body = ()\<rparr>]) (Poll 0))
   in \<exists>l' v x'. up_links s' 0 [] l' \<and> ts_handled s' = ts_handled s @ [\<lparr>req_id = ''a'', req_body = ()\<rparr>] \<and> unread l' = [] \<and>
        tx (lk_stream l') = tx (lk_stream echo_link) @ v \<and>
        receives (tc_ctx echo_cfg) (tc_json echo_cfg) (1, 0)
          (map Response (answers (tc_service echo_cfg) (ts_handled s) [\<lparr>req_id = ''a'', req_body = ()\<rparr>])) v x'"
  unfolding Let_def
proof (rule tcp_requests_answered [unfolded Let_def, where fwd = duplex_fwd and a = "(0, 0)" and w = "[3, 0, 2, 97]"
      and a' = "(1, 0)"])
  show "frame_contract (tcp_profile (tc_ctx echo_cfg))" and "duplex_contract (tcp_session (tc_ctx echo_cfg)) duplex_fwd"
    by (simp_all add: echo_cfg_def demo_tcp_def short_frames_contract duplex_contract_duplex)
  show "frames (tc_ctx echo_cfg) (tc_json echo_cfg) (0, 0) (map Request [\<lparr>req_id = ''a'', req_body = ()\<rparr>]) [3, 0, 2, 97] (1, 0)"
    using echo_frames by (simp add: echo_cfg_def)
qed (simp_all add: echo_servable up_links_def echo_link_def unread_def new_stream_def flat_def duplex_fwd_def)

end
