(* ===== verification/Proxy_Tunnel.thy ===== *)
theory Proxy_Tunnel
  imports Async_IO
begin

text \<open>
  What a proxy negotiation promises the code that dials through it, as an interface: it is an
  \<open>io_action\<close>, and it is \<open>io_local\<close>: it reads exactly the proxy's reply and nothing of what follows,
  so that what the target sends next is neither lost nor able to change the outcome. A chain of
  negotiations then has both properties, whichever kinds of proxies it goes through.
\<close>

record proxy_auth =
  auth_user :: string
  auth_pass :: string

definition io_local :: "('e, 'a) io \<Rightarrow> bool" where
  "io_local m \<longleftrightarrow>
     (\<forall>st st' x c r st2 w.
        m st = (Ok x, st') \<longrightarrow> tx_cap st = None \<longrightarrow> flat st = c @ flat st' \<longrightarrow> tx st' = tx st @ w \<longrightarrow>
        flat st2 = c @ r \<longrightarrow> tx_cap st2 = None \<longrightarrow>
        tx_cap st' = None \<and>
        (\<exists>st2'. m st2 = (Ok x, st2') \<and> flat st2' = r \<and> tx st2' = tx st2 @ w \<and> tx_cap st2' = None))"

lemma io_localI:
  assumes "\<And>st st' x c r st2 w. m st = (Ok x, st') \<Longrightarrow> tx_cap st = None \<Longrightarrow> flat st = c @ flat st' \<Longrightarrow>
      tx st' = tx st @ w \<Longrightarrow> flat st2 = c @ r \<Longrightarrow> tx_cap st2 = None \<Longrightarrow>
      tx_cap st' = None \<and> (\<exists>st2'. m st2 = (Ok x, st2') \<and> flat st2' = r \<and> tx st2' = tx st2 @ w \<and> tx_cap st2' = None)"
  shows "io_local m"
  using assms unfolding io_local_def by blast

lemma io_localD:
  assumes "io_local m" and "m st = (Ok x, st')" and "tx_cap st = None" and "flat st = c @ flat st'"
    and "tx st' = tx st @ w" and "flat st2 = c @ r" and "tx_cap st2 = None"
  shows "tx_cap st' = None"
    and "\<exists>st2'. m st2 = (Ok x, st2') \<and> flat st2' = r \<and> tx st2' = tx st2 @ w \<and> tx_cap st2' = None"
  using assms unfolding io_local_def by blast+

lemma io_local_ret [io_actions]: "io_local (io_ret x)"
  by (rule io_localI) (auto simp: io_ret_def)

lemma io_local_fail [io_actions]: "io_local (io_fail e)"
  by (rule io_localI) (auto simp: io_fail_def)

lemma io_local_if [io_actions]: "io_local m \<Longrightarrow> io_local n \<Longrightarrow> io_local (if b then m else n)"
  by simp

lemma io_local_write_all [io_actions]: "io_local (write_all bs)"
  by (rule io_localI) (auto simp: write_all_def)

lemma io_local_read_exact [io_actions]: "io_local (read_exact n)"
proof (rule io_localI)
  fix st st' :: stream and x c r st2 w
  assume m: "read_exact n st = (Ok x, st')" and cap: "tx_cap st = None" and f: "flat st = c @ flat st'"
    and t: "tx st' = tx st @ w" and f2: "flat st2 = c @ r" and cap2: "tx_cap st2 = None"
  have n: "n \<le> length (flat st)" and x: "x = take n (flat st)" and st': "st' = st\<lparr>rx := drop_chunks n (rx st)\<rparr>"
    using m by (auto simp: read_exact_def split: if_splits rx_status.splits)
  have "flat st' = drop n (flat st)" using n st' by (simp add: flat_read_exact_Ok)
  then have "c @ drop n (flat st) = take n (flat st) @ drop n (flat st)"
    using f by (metis append_take_drop_id)
  then have "c = take n (flat st)" by (simp only: append_same_eq)
  then have "length c = n" and "x = c" using n x by simp_all
  then show "tx_cap st' = None \<and>
      (\<exists>st2'. read_exact n st2 = (Ok x, st2') \<and> flat st2' = r \<and> tx st2' = tx st2 @ w \<and> tx_cap st2' = None)"
    using read_exact_flat [OF f2, of n] cap cap2 st' t by auto
qed

lemma io_local_try [io_actions]:
  assumes "io_local m"
  shows "io_local (io_try m)"
proof (rule io_localI)
  fix st st' :: stream and x c r st2 w
  assume m: "io_try m st = (Ok x, st')" and o: "tx_cap st = None" "flat st = c @ flat st'" "tx st' = tx st @ w"
    "flat st2 = c @ r" "tx_cap st2 = None"
  have m': "m st = (Ok x, st')" using m by (cases "m st"; cases "fst (m st)") (auto simp: io_try_eq)
  show "tx_cap st' = None \<and>
      (\<exists>st2'. io_try m st2 = (Ok x, st2') \<and> flat st2' = r \<and> tx st2' = tx st2 @ w \<and> tx_cap st2' = None)"
    using io_localD [OF assms m' o] by (auto simp: io_try_eq)
qed

lemma io_local_bind [io_actions]:
  assumes m: "io_action m" "io_local m" and f: "\<And>x. io_action (f x)" "\<And>x. io_local (f x)"
  shows "io_local (io_bind m f)"
proof (rule io_localI)
  fix st st' :: stream and y c r st2 w
  assume b: "io_bind m f st = (Ok y, st')" and cap: "tx_cap st = None" and fl: "flat st = c @ flat st'"
    and t: "tx st' = tx st @ w" and fl2: "flat st2 = c @ r" and cap2: "tx_cap st2 = None"
  obtain x s where ms: "m st = (Ok x, s)" and fs: "f x s = (Ok y, st')"
    using b by (auto simp: io_bind_def split: prod.splits res.splits)
  obtain c1 where c1: "flat st = c1 @ flat s" using io_actionD(2) [OF m(1), of st] ms by auto
  obtain c2 where c2: "flat s = c2 @ flat st'" using io_actionD(2) [OF f(1), of s x] fs by auto
  obtain w1 where w1: "tx s = tx st @ w1" using io_actionD(3) [OF m(1), of st] ms by auto
  obtain w2 where w2: "tx st' = tx s @ w2" using io_actionD(3) [OF f(1), of x s] fs by auto
  have c: "c = c1 @ c2" and w: "w = w1 @ w2" using fl c1 c2 t w1 w2 by simp_all
  have "flat st2 = c1 @ c2 @ r" using fl2 c by simp
  note L = io_localD [OF m(2) ms cap c1 w1 this cap2]
  obtain s2 where s2: "m st2 = (Ok x, s2)" "flat s2 = c2 @ r" "tx s2 = tx st2 @ w1" "tx_cap s2 = None"
    using L(2) by blast
  note R = io_localD [OF f(2) fs L(1) c2 w2 s2(2,4)]
  show "tx_cap st' = None \<and>
      (\<exists>st2'. io_bind m f st2 = (Ok y, st2') \<and> flat st2' = r \<and> tx st2' = tx st2 @ w \<and> tx_cap st2' = None)"
    using R s2 w by (auto simp: io_bind_simps)
qed

subsection \<open>Transcripts\<close>

text \<open>
  The transcripts of an action: \<open>accepts m c w x\<close> says that on input that starts with \<open>c\<close> the action
  succeeds with \<open>x\<close>, having consumed exactly \<open>c\<close> and written \<open>w\<close>. For local actions the transcripts
  say all there is about success, and those of a bind are the concatenations of its parts.
\<close>

definition accepts :: "('e, 'a) io \<Rightarrow> bytes \<Rightarrow> bytes \<Rightarrow> 'a \<Rightarrow> bool" where
  "accepts m c w x \<longleftrightarrow>
     (\<forall>st r. tx_cap st = None \<longrightarrow> flat st = c @ r \<longrightarrow>
        (\<exists>st'. m st = (Ok x, st') \<and> flat st' = r \<and> tx st' = tx st @ w \<and> tx_cap st' = None))"

named_theorems transcripts \<open>the transcripts of actions\<close>

lemma acceptsD:
  "accepts m c w x \<Longrightarrow> tx_cap st = None \<Longrightarrow> flat st = c @ r \<Longrightarrow>
     \<exists>st'. m st = (Ok x, st') \<and> flat st' = r \<and> tx st' = tx st @ w \<and> tx_cap st' = None"
  unfolding accepts_def by blast

lemma run_accepts:
  assumes "io_local m" and "m st = (Ok x, st')" and "tx_cap st = None" and "flat st = c @ flat st'" and "tx st' = tx st @ w"
  shows "accepts m c w x"
  using io_localD(2) [OF assms] unfolding accepts_def by blast

lemma accepts_iff_run:
  assumes a: "io_action m" and l: "io_local m" and cap: "tx_cap st = None"
  shows "(\<exists>st'. m st = (Ok x, st') \<and> flat st' = r \<and> tx st' = tx st @ w) \<longleftrightarrow> (\<exists>c. flat st = c @ r \<and> accepts m c w x)"
proof
  assume "\<exists>st'. m st = (Ok x, st') \<and> flat st' = r \<and> tx st' = tx st @ w"
  then obtain st' where s: "m st = (Ok x, st')" "flat st' = r" "tx st' = tx st @ w" by blast
  obtain c where "flat st = c @ flat st'" using io_actionD(2) [OF a, of st] s(1) by auto
  then show "\<exists>c. flat st = c @ r \<and> accepts m c w x" using run_accepts [OF l s(1) cap _ s(3)] s(2) by blast
next
  assume "\<exists>c. flat st = c @ r \<and> accepts m c w x"
  then obtain c where "flat st = c @ r" and "accepts m c w x" by blast
  from acceptsD [OF this(2) cap this(1)] show "\<exists>st'. m st = (Ok x, st') \<and> flat st' = r \<and> tx st' = tx st @ w" by blast
qed

definition input :: "bytes \<Rightarrow> stream" where
  "input c = \<lparr>rx = [c], rx_end = Open, tx = [], tx_cap = None\<rparr>"

lemma input_simps [simp]: "flat (input c) = c" "tx (input c) = []" "tx_cap (input c) = None"
  by (simp_all add: input_def flat_def)

lemma accepts_run: "accepts m c w x \<Longrightarrow> \<exists>st'. m (input c) = (Ok x, st') \<and> flat st' = [] \<and> tx st' = w"
  using acceptsD [of m c w x "input c" "[]"] by auto

lemma accepts_ret [transcripts]: "accepts (io_ret x) c w y \<longleftrightarrow> c = [] \<and> w = [] \<and> x = y"
proof
  assume "accepts (io_ret x) c w y"
  from accepts_run [OF this] show "c = [] \<and> w = [] \<and> x = y" by (auto simp: io_ret_def)
qed (simp add: accepts_def io_ret_def)

lemma accepts_fail [transcripts]: "\<not> accepts (io_fail e) c w y"
  using accepts_run [of "io_fail e" c w y] by (auto simp: io_fail_def)

lemma accepts_write [transcripts]: "accepts (io_try (write_all bs)) c w y \<longleftrightarrow> c = [] \<and> w = bs"
proof
  assume "accepts (io_try (write_all bs)) c w y"
  from accepts_run [OF this] show "c = [] \<and> w = bs" by (auto simp: io_try_def write_all_uncapped)
qed (simp add: accepts_def io_try_def write_all_uncapped)

lemma accepts_read [transcripts]: "accepts (io_try (read_exact n)) c w y \<longleftrightarrow> length c = n \<and> w = [] \<and> y = c"
proof
  assume "accepts (io_try (read_exact n)) c w y"
  from accepts_run [OF this] show "length c = n \<and> w = [] \<and> y = c"
    by (auto simp: io_try_def read_exact_def flat_read_exact_Ok split: if_splits rx_status.splits)
next
  assume "length c = n \<and> w = [] \<and> y = c"
  then show "accepts (io_try (read_exact n)) c w y"
    unfolding accepts_def
  proof (intro allI impI)
    fix st r assume "tx_cap st = None" and "flat st = c @ r"
    then show "\<exists>st'. io_try (read_exact n) st = (Ok y, st') \<and> flat st' = r \<and> tx st' = tx st @ w \<and> tx_cap st' = None"
      using read_exact_flat [of st c r n] \<open>length c = n \<and> w = [] \<and> y = c\<close> by (auto simp: io_try_def)
  qed
qed

lemma accepts_if [transcripts]: "accepts (if b then m else n) c w x \<longleftrightarrow> (if b then accepts m c w x else accepts n c w x)"
  by simp

lemma accepts_bind:
  assumes m: "io_action m" "io_local m" and f: "\<And>x. io_action (f x)" "\<And>x. io_local (f x)"
  shows "accepts (io_bind m f) c w y \<longleftrightarrow>
    (\<exists>c1 c2 w1 w2 x. c = c1 @ c2 \<and> w = w1 @ w2 \<and> accepts m c1 w1 x \<and> accepts (f x) c2 w2 y)"
proof
  assume "accepts (io_bind m f) c w y"
  from accepts_run [OF this]
  obtain st' where b: "io_bind m f (input c) = (Ok y, st')" and fl: "flat st' = []" "tx st' = w" by blast
  obtain x s where ms: "m (input c) = (Ok x, s)" and fs: "f x s = (Ok y, st')"
    using b by (auto simp: io_bind_def split: prod.splits res.splits)
  obtain c1 where c1: "flat (input c) = c1 @ flat s" using io_actionD(2) [OF m(1), of "input c"] ms by auto
  obtain c2 where c2: "flat s = c2 @ flat st'" using io_actionD(2) [OF f(1), of s x] fs by auto
  obtain w1 where w1: "tx s = tx (input c) @ w1" using io_actionD(3) [OF m(1), of "input c"] ms by auto
  obtain w2 where w2: "tx st' = tx s @ w2" using io_actionD(3) [OF f(1), of x s] fs by auto
  have a: "accepts m c1 w1 x" by (rule run_accepts [OF m(2) ms _ c1 w1]) simp
  have "tx_cap s = None" using io_localD(1) [OF m(2) ms _ c1 w1 c1] by simp
  then have "accepts (f x) c2 w2 y" by (rule run_accepts [OF f(2) fs _ c2 w2])
  then show "\<exists>c1 c2 w1 w2 x. c = c1 @ c2 \<and> w = w1 @ w2 \<and> accepts m c1 w1 x \<and> accepts (f x) c2 w2 y"
    using a c1 c2 w1 w2 fl by (intro exI [of _ c1] exI [of _ c2] exI [of _ w1] exI [of _ w2] exI [of _ x]) simp
next
  assume "\<exists>c1 c2 w1 w2 x. c = c1 @ c2 \<and> w = w1 @ w2 \<and> accepts m c1 w1 x \<and> accepts (f x) c2 w2 y"
  then obtain c1 c2 w1 w2 x where e: "c = c1 @ c2" "w = w1 @ w2"
    and am: "accepts m c1 w1 x" and af: "accepts (f x) c2 w2 y" by blast
  show "accepts (io_bind m f) c w y"
    unfolding accepts_def
  proof (intro allI impI)
    fix st r assume cap: "tx_cap st = None" and "flat st = c @ r"
    then have "flat st = c1 @ c2 @ r" using e by simp
    from acceptsD [OF am cap this] obtain s where s: "m st = (Ok x, s)" "flat s = c2 @ r"
      "tx s = tx st @ w1" "tx_cap s = None" by blast
    from acceptsD [OF af s(4,2)] show "\<exists>st'. io_bind m f st = (Ok y, st') \<and> flat st' = r \<and>
        tx st' = tx st @ w \<and> tx_cap st' = None"
      using s e by (auto simp: io_bind_simps)
  qed
qed

lemma accepts_then_read [transcripts]:
  assumes "\<And>x. io_action (f x)" "\<And>x. io_local (f x)"
  shows "accepts (io_bind (io_try (read_exact n)) f) c w y \<longleftrightarrow>
    n \<le> length c \<and> accepts (f (take n c)) (drop n c) w y"
proof -
  have "accepts (io_bind (io_try (read_exact n)) f) c w y \<longleftrightarrow>
      (\<exists>c1 c2. c = c1 @ c2 \<and> length c1 = n \<and> accepts (f c1) c2 w y)"
    by (simp add: accepts_bind assms io_actions accepts_read)
  also have "\<dots> \<longleftrightarrow> n \<le> length c \<and> accepts (f (take n c)) (drop n c) w y"
    by (metis append_eq_conv_conj append_take_drop_id le_add1 length_append length_take min.absorb2)
  finally show ?thesis .
qed

lemma accepts_then_write [transcripts]:
  assumes "\<And>x. io_action (f x)" "\<And>x. io_local (f x)"
  shows "accepts (io_bind (io_try (write_all bs)) f) c w y \<longleftrightarrow> (\<exists>w'. w = bs @ w' \<and> accepts (f ()) c w' y)"
  by (auto simp: accepts_bind assms io_actions accepts_write)

text \<open>
  The chain of negotiations along a list of hops: each hop, of some kind and with its credentials,
  is asked to connect to the address that follows it; an address that does not parse ends the chain
  with its error.
\<close>

type_synonym 'k tunnel_fn = "'k \<Rightarrow> string \<Rightarrow> u16 \<Rightarrow> proxy_auth option \<Rightarrow> (obfs_error, unit) io"

fun tunnel_chain ::
  "'k tunnel_fn \<Rightarrow> ('k \<times> proxy_auth option \<times> (obfs_error + (string \<times> u16))) list \<Rightarrow> (obfs_error, unit) io" where
  "tunnel_chain tun [] = io_ret ()"
| "tunnel_chain tun ((k, auth, Inl e) # hops) = io_fail e"
| "tunnel_chain tun ((k, auth, Inr (host, port)) # hops) =
     io_bind (tun k host port auth) (\<lambda>_. tunnel_chain tun hops)"

locale tunnel =
  fixes tun :: "'k tunnel_fn"
  assumes tun_action: "io_action (tun k host port auth)"
    and tun_local: "io_local (tun k host port auth)"
begin

lemma chain_action: "io_action (tunnel_chain tun hops)"
proof (induction hops)
  case (Cons hop hops)
  then show ?case
    by (cases "(tun, hop # hops)" rule: tunnel_chain.cases) (auto intro!: io_actions tun_action)
qed (simp add: io_actions)

lemma chain_local: "io_local (tunnel_chain tun hops)"
proof (induction hops)
  case (Cons hop hops)
  then show ?case
    by (cases "(tun, hop # hops)" rule: tunnel_chain.cases) (auto intro!: io_actions tun_action tun_local chain_action)
qed (simp add: io_actions)

lemma accepts_chain_Cons:
  "accepts (tunnel_chain tun ((k, auth, Inr (host, port)) # hops)) c w () \<longleftrightarrow>
     (\<exists>c1 c2 w1 w2. c = c1 @ c2 \<and> w = w1 @ w2 \<and>
        accepts (tun k host port auth) c1 w1 () \<and> accepts (tunnel_chain tun hops) c2 w2 ())"
  by (simp add: accepts_bind tun_action tun_local chain_action chain_local)

end

end
