(* ===== verification/Proxy_Socks5.thy ===== *)
theory Proxy_Socks5
  imports Proxy_Tunnel Rust_Std
begin

text \<open>
  The SOCKS5 dialer, \<^verbatim>\<open>src/proxy/socks5.rs\<close>: greeting, method selection, username and password
  sub-negotiation, CONNECT request and reply. \<open>connect\<close> is \<^verbatim>\<open>TcpStream::connect\<close>.
\<close>

definition io_err :: "string \<Rightarrow> obfs_error" where
  "io_err msg = io_other msg"

definition socks_methods :: "proxy_auth option \<Rightarrow> bytes" where
  "socks_methods auth = (if auth \<noteq> None then [0x00, 0x02] else [0x00])"

definition socks_greeting :: "proxy_auth option \<Rightarrow> bytes" where
  "socks_greeting auth = [0x05, of_nat (length (socks_methods auth))] @ socks_methods auth"

definition socks_sub :: "proxy_auth \<Rightarrow> bytes" where
  "socks_sub creds =
     [0x01, of_nat (length (str_bytes (auth_user creds)))] @ str_bytes (auth_user creds) @
     [of_nat (length (str_bytes (auth_pass creds)))] @ str_bytes (auth_pass creds)"

definition socks_auth :: "u8 \<Rightarrow> proxy_auth option \<Rightarrow> (obfs_error, unit) io" where
  "socks_auth selected auth =
     (if selected = 0x02
      then (case auth of
              None \<Rightarrow> io_fail (io_err ''SOCKS5: server requires auth but none provided'')
            | Some creds \<Rightarrow>
                if 255 < length (str_bytes (auth_user creds)) \<or> 255 < length (str_bytes (auth_pass creds))
                then io_fail (io_err ''SOCKS5: username or password too long'')
                else
                  io_bind (io_try (write_all (socks_sub creds))) (\<lambda>_.
                  io_bind (io_try (read_exact 2)) (\<lambda>auth_reply.
                    if auth_reply ! 1 \<noteq> 0x00 then io_fail (io_err ''SOCKS5: authentication failed'')
                    else io_ret ())))
      else io_ret ())"

definition socks_request :: "string \<Rightarrow> u16 \<Rightarrow> bytes" where
  "socks_request host port =
     [0x05, 0x01, 0x00, 0x03, of_nat (length (str_bytes host))] @ str_bytes host @
     [ucast (drop_bit 8 port), ucast (port AND 0xFF)]"

definition socks_reply_msg :: "u8 \<Rightarrow> string" where
  "socks_reply_msg rep =
     (if rep = 0x01 then ''general SOCKS server failure''
      else if rep = 0x02 then ''connection not allowed by ruleset''
      else if rep = 0x03 then ''network unreachable''
      else if rep = 0x04 then ''host unreachable''
      else if rep = 0x05 then ''connection refused''
      else if rep = 0x06 then ''TTL expired''
      else if rep = 0x07 then ''command not supported''
      else if rep = 0x08 then ''address type not supported''
      else ''unknown error'')"

definition consume_bnd_addr :: "u8 \<Rightarrow> (obfs_error, unit) io" where
  "consume_bnd_addr atyp =
     (if atyp = 0x01 then io_bind (io_try (read_exact 6)) (\<lambda>_. io_ret ())
      else if atyp = 0x03 then
        io_bind (io_try (read_exact 1)) (\<lambda>len_buf.
        io_bind (io_try (read_exact (unat (len_buf ! 0) + 2))) (\<lambda>_. io_ret ()))
      else if atyp = 0x04 then io_bind (io_try (read_exact 18)) (\<lambda>_. io_ret ())
      else io_fail (io_err ''SOCKS5: unknown address type in reply''))"

definition socks_connect :: "string \<Rightarrow> u16 \<Rightarrow> (obfs_error, unit) io" where
  "socks_connect target_host target_port =
     (if 255 < length (str_bytes target_host) then io_fail (io_err ''SOCKS5: target hostname too long'')
      else
        io_bind (io_try (write_all (socks_request target_host target_port))) (\<lambda>_.
        io_bind (io_try (read_exact 4)) (\<lambda>reply_hdr.
          if reply_hdr ! 0 \<noteq> 0x05 then io_fail (io_err ''SOCKS5: invalid reply version'')
          else if reply_hdr ! 1 \<noteq> 0x00
          then io_fail (io_err (''SOCKS5: CONNECT failed: '' @ socks_reply_msg (reply_hdr ! 1)))
          else consume_bnd_addr (reply_hdr ! 3))))"

definition tunnel_socks5 :: "string \<Rightarrow> u16 \<Rightarrow> proxy_auth option \<Rightarrow> (obfs_error, unit) io" where
  "tunnel_socks5 target_host target_port auth =
     io_bind (io_try (write_all (socks_greeting auth))) (\<lambda>_.
     io_bind (io_try (read_exact 2)) (\<lambda>method_reply.
       if method_reply ! 0 \<noteq> 0x05 then io_fail (io_err ''SOCKS5: invalid greeting reply version'')
       else if method_reply ! 1 = 0xFF
       then io_fail (io_err ''SOCKS5: no acceptable authentication method'')
       else
         io_bind (socks_auth (method_reply ! 1) auth) (\<lambda>_.
         socks_connect target_host target_port)))"

definition dial_socks5 ::
  "(string \<Rightarrow> io_error + stream) \<Rightarrow> string \<Rightarrow> string \<Rightarrow> u16 \<Rightarrow> proxy_auth option \<Rightarrow> (obfs_error, stream) res" where
  "dial_socks5 connect proxy_addr target_host target_port auth =
     (case connect proxy_addr of
        Inl e \<Rightarrow> Err (Io e)
      | Inr st \<Rightarrow>
          (case tunnel_socks5 target_host target_port auth st of
             (Ok _, st') \<Rightarrow> Ok st'
           | (Err e, _) \<Rightarrow> Err e
           | (Blocked, _) \<Rightarrow> Blocked))"

subsection \<open>The grammar of a successful negotiation\<close>

text \<open>
  What the proxy must answer and what the client writes, as relations on byte strings: a bound
  address of the announced type, the reply to the credentials, the whole conversation.
\<close>

definition bnd_addr :: "u8 \<Rightarrow> bytes \<Rightarrow> bool" where
  "bnd_addr atyp b \<longleftrightarrow>
     (atyp = 0x01 \<and> length b = 6) \<or>
     (atyp = 0x03 \<and> (\<exists>n t. b = n # t \<and> length t = unat n + 2)) \<or>
     (atyp = 0x04 \<and> length b = 18)"

definition auth_exchange :: "u8 \<Rightarrow> proxy_auth option \<Rightarrow> bytes \<Rightarrow> bytes \<Rightarrow> bool" where
  "auth_exchange m auth c w \<longleftrightarrow>
     (if m = 0x02
      then (\<exists>creds ver. auth = Some creds \<and> length (auth_user creds) \<le> 255 \<and> length (auth_pass creds) \<le> 255 \<and>
              c = [ver, 0x00] \<and> w = socks_sub creds)
      else c = [] \<and> w = [])"

definition socks_conversation :: "string \<Rightarrow> u16 \<Rightarrow> proxy_auth option \<Rightarrow> bytes \<Rightarrow> bytes \<Rightarrow> bool" where
  "socks_conversation host port auth c w \<longleftrightarrow>
     length host \<le> 255 \<and>
     (\<exists>m c' w' rsv atyp b.
        c = [0x05, m] @ c' @ [0x05, 0x00, rsv, atyp] @ b \<and> w = socks_greeting auth @ w' @ socks_request host port \<and>
        m \<noteq> 0xFF \<and> auth_exchange m auth c' w' \<and> bnd_addr atyp b)"

lemma take_two: "2 \<le> length c \<longleftrightarrow> (\<exists>a b r. c = a # b # r)"
  by (cases c; cases "tl c") auto

lemma take_four: "4 \<le> length c \<longleftrightarrow> (\<exists>a b d e r. c = a # b # d # e # r)"
  by (auto simp: numeral_eq_Suc Suc_le_length_iff)

lemma socks_auth_action [io_actions]: "io_action (socks_auth m auth)" "io_local (socks_auth m auth)"
  by (auto simp: socks_auth_def intro!: io_actions split: option.splits)

lemma consume_action [io_actions]: "io_action (consume_bnd_addr a)" "io_local (consume_bnd_addr a)"
  by (auto simp: consume_bnd_addr_def intro!: io_actions)

lemma socks_connect_action [io_actions]: "io_action (socks_connect h p)" "io_local (socks_connect h p)"
  by (auto simp: socks_connect_def intro!: io_actions)

lemma tunnel_socks5_action [io_actions]: "io_action (tunnel_socks5 h p auth)" "io_local (tunnel_socks5 h p auth)"
  by (auto simp: tunnel_socks5_def intro!: io_actions)

lemma accepts_consume [transcripts]: "accepts (consume_bnd_addr a) c w () \<longleftrightarrow> bnd_addr a c \<and> w = []"
  by (cases c) (auto simp: consume_bnd_addr_def bnd_addr_def io_actions transcripts)

lemma accepts_auth [transcripts]: "accepts (socks_auth m auth) c w () \<longleftrightarrow> auth_exchange m auth c w"
  by (auto simp: socks_auth_def auth_exchange_def io_actions transcripts take_two split: option.splits)

lemma accepts_connect [transcripts]:
  "accepts (socks_connect h p) c w () \<longleftrightarrow> length h \<le> 255 \<and>
     (\<exists>rsv atyp b. c = [0x05, 0x00, rsv, atyp] @ b \<and> w = socks_request h p \<and> bnd_addr atyp b)"
  by (auto simp: socks_connect_def io_actions transcripts take_four)

lemma accepts_socks5: "accepts (tunnel_socks5 h p auth) c w () \<longleftrightarrow> socks_conversation h p auth c w"
proof -
  have "accepts (tunnel_socks5 h p auth) c w () \<longleftrightarrow>
      (\<exists>m r w'. c = 0x05 # m # r \<and> w = socks_greeting auth @ w' \<and> m \<noteq> 0xFF \<and>
         accepts (io_bind (socks_auth m auth) (\<lambda>_. socks_connect h p)) r w' ())"
    by (auto simp: tunnel_socks5_def io_actions transcripts take_two)
  also have "\<dots> \<longleftrightarrow> socks_conversation h p auth c w"
    unfolding socks_conversation_def by (fastforce simp: accepts_bind io_actions transcripts)
  finally show ?thesis .
qed

lemma socks5_reply_error:
  assumes "flat st = [0x05, m] @ [0x05, rep, rsv, atyp] @ rest" and "tx_cap st = None" and "m \<noteq> 0x02" and "m \<noteq> 0xFF"
    and "length h \<le> 255" and "rep \<noteq> 0x00"
  shows "\<exists>st'. tunnel_socks5 h p auth st =
      (Err (Io (IoError Other (''SOCKS5: CONNECT failed: '' @ socks_reply_msg rep))), st') \<and> flat st' = rest"
proof -
  let ?st = "st\<lparr>tx := tx st @ socks_greeting auth\<rparr>"
  have "flat ?st = [0x05, m] @ [0x05, rep, rsv, atyp] @ rest" and "length [0x05, m] = 2" using assms(1) by simp_all
  from read_exact_flat [OF this] obtain s1 where s1: "read_exact 2 ?st = (Ok [0x05, m], s1)"
    "flat s1 = [0x05, rep, rsv, atyp] @ rest" "tx_cap s1 = None" using assms(2) by auto
  let ?s1 = "s1\<lparr>tx := tx s1 @ socks_request h p\<rparr>"
  have "flat ?s1 = [0x05, rep, rsv, atyp] @ rest" and "length [0x05, rep, rsv, atyp] = 4" using s1 by simp_all
  from read_exact_flat [OF this] obtain s2 where s2: "read_exact 4 ?s1 = (Ok [0x05, rep, rsv, atyp], s2)"
    "flat s2 = rest" by auto
  show ?thesis
    using assms s1 s2
    by (auto simp: tunnel_socks5_def socks_auth_def socks_connect_def io_bind_def io_try_def write_all_uncapped
        io_ret_def io_fail_def io_err_def io_other_def)
qed

subsection \<open>Properties\<close>

text \<open>
  C27. The dialer implements the SOCKS5 conversation, no more and no less. It succeeds, leaving \<open>rest\<close>
  unread and having written \<open>w\<close>, exactly if the input is a conversation of the grammar followed by
  \<open>rest\<close>: a method reply, the reply to the credentials if the proxy asked for them, a success reply
  with a bound address. The host name must fit its length byte.
\<close>

theorem socks5_refines_grammar:
  assumes "tx_cap st = None"
  shows "(\<exists>st'. tunnel_socks5 h p auth st = (Ok (), st') \<and> flat st' = rest \<and> tx st' = tx st @ w) \<longleftrightarrow>
    (\<exists>c. flat st = c @ rest \<and> socks_conversation h p auth c w)"
  using accepts_iff_run [OF tunnel_socks5_action assms] by (simp add: accepts_socks5)

theorem socks5_refines_grammar_witness:
  "\<exists>st'. tunnel_socks5 ''a'' 443 None (input [5, 0, 5, 0, 0, 1, 0, 0, 0, 0, 0, 0, 22]) = (Ok (), st') \<and>
     flat st' = [22] \<and> tx st' = tx (input [5, 0, 5, 0, 0, 1, 0, 0, 0, 0, 0, 0, 22]) @ [5, 1, 0, 5, 1, 0, 3, 1, 97, 1, 187]"
proof -
  have "socks_conversation ''a'' 443 None [5, 0, 5, 0, 0, 1, 0, 0, 0, 0, 0, 0] [5, 1, 0, 5, 1, 0, 3, 1, 97, 1, 187]"
    unfolding socks_conversation_def
    by (intro conjI exI [of _ 0] exI [of _ "[]"] exI [of _ 1] exI [of _ "[0, 0, 0, 0, 0, 0]"])
      (simp_all add: socks_greeting_def socks_methods_def socks_request_def auth_exchange_def bnd_addr_def)
  then have "\<exists>c. flat (input [5, 0, 5, 0, 0, 1, 0, 0, 0, 0, 0, 0, 22]) = c @ [22] \<and>
      socks_conversation ''a'' 443 None c [5, 1, 0, 5, 1, 0, 3, 1, 97, 1, 187]"
    by (intro exI [of _ "[5, 0, 5, 0, 0, 1, 0, 0, 0, 0, 0, 0]"]) simp
  then show ?thesis
    using socks5_refines_grammar [of "input [5, 0, 5, 0, 0, 1, 0, 0, 0, 0, 0, 0, 22]"] by simp
qed

text \<open>
  C28. Credentials are sent only on request: as long as the proxy does not select the username and
  password method, a run with some credentials cannot be told from a run with any others, in its
  result, in what it wrote and in what it read.
\<close>

theorem socks5_credentials_secret:
  assumes "flat st = ver # m # rest" and "m \<noteq> 0x02" and "tx_cap st = None"
  shows "tunnel_socks5 h p (Some creds) st = tunnel_socks5 h p (Some creds') st"
proof -
  have g: "socks_greeting (Some creds) = socks_greeting (Some creds')"
    by (simp add: socks_greeting_def socks_methods_def)
  let ?st = "st\<lparr>tx := tx st @ socks_greeting (Some creds')\<rparr>"
  have "flat ?st = [ver, m] @ rest" and "length [ver, m] = 2" using assms(1) by simp_all
  from read_exact_flat [OF this] obtain s1 where "read_exact 2 ?st = (Ok [ver, m], s1)" by auto
  then show ?thesis
    using assms by (simp add: tunnel_socks5_def g io_bind_def io_try_def write_all_uncapped socks_auth_def)
qed

theorem socks5_credentials_secret_witness:
  "tunnel_socks5 ''a'' 80 (Some \<lparr>auth_user = ''u'', auth_pass = ''p''\<rparr>) (input [5, 0, 5, 1, 0, 1]) =
   tunnel_socks5 ''a'' 80 (Some \<lparr>auth_user = ''x'', auth_pass = ''secret''\<rparr>) (input [5, 0, 5, 1, 0, 1])"
  by (rule socks5_credentials_secret [of _ 5 0 "[5, 1, 0, 1]"]) simp_all

text \<open>
  A refused connection is reported with the reason the proxy gave, and the reply header is
  consumed; codes beyond those of the standard are reported as unknown.
\<close>

theorem socks5_refusal_reported:
  assumes "flat st = [0x05, m] @ [0x05, rep, rsv, atyp] @ rest" and "tx_cap st = None" and "m \<noteq> 0x02" and "m \<noteq> 0xFF"
    and "length h \<le> 255" and "rep \<noteq> 0x00"
  shows "\<exists>st'. tunnel_socks5 h p auth st =
      (Err (Io (IoError Other (''SOCKS5: CONNECT failed: '' @ socks_reply_msg rep))), st') \<and> flat st' = rest"
  using socks5_reply_error [OF assms] .

theorem socks5_refusal_reported_witness:
  "\<exists>st'. tunnel_socks5 ''a'' 80 None (input ([5, 0] @ [5, 5, 0, 1] @ [])) =
      (Err (Io (IoError Other (''SOCKS5: CONNECT failed: '' @ socks_reply_msg 5))), st') \<and> flat st' = []"
  by (rule socks5_refusal_reported [of _ 0 5 0 1 "[]"]) simp_all

end
