(* ===== verification/Proxy_Http.thy ===== *)
theory Proxy_Http
  imports Proxy_Socks5
begin

text \<open>
  The HTTP CONNECT dialer, \<^verbatim>\<open>src/proxy/http_connect.rs\<close>: the request with Basic credentials, the
  response read byte by byte up to the blank line, the status line; and the Base64 encoder.
\<close>

subsection \<open>Base64\<close>

definition CHARS :: string where
  "CHARS = ''ABCDEFGHIJKLMNOPQRSTUVWXYZabcdefghijklmnopqrstuvwxyz0123456789+/''"

fun chunks3 :: "bytes \<Rightarrow> bytes list" where
  "chunks3 (a # b # c # rest) = [a, b, c] # chunks3 rest"
| "chunks3 [] = []"
| "chunks3 chunk = [chunk]"

definition base64_chunk :: "bytes \<Rightarrow> string" where
  "base64_chunk chunk =
     (let b0 = (ucast (chunk ! 0) :: u32);
          b1 = (ucast (if 1 < length chunk then chunk ! 1 else 0) :: u32);
          b2 = (ucast (if 2 < length chunk then chunk ! 2 else 0) :: u32);
          n = push_bit 16 b0 OR push_bit 8 b1 OR b2
      in [CHARS ! unat (drop_bit 18 n),
          CHARS ! unat (drop_bit 12 n AND 0x3F),
          if 1 < length chunk then CHARS ! unat (drop_bit 6 n AND 0x3F) else CHR ''='',
          if 2 < length chunk then CHARS ! unat (n AND 0x3F) else CHR ''=''])"

definition base64_encode :: "bytes \<Rightarrow> string" where
  "base64_encode xs = concat (map base64_chunk (chunks3 xs))"

subsection \<open>The tunnel\<close>

definition MAX_RESPONSE :: nat where "MAX_RESPONSE = 8192"

definition header_end :: bytes where
  "header_end = str_bytes (crlf @ crlf)"

definition http_request :: "string \<Rightarrow> u16 \<Rightarrow> proxy_auth option \<Rightarrow> string" where
  "http_request host port auth =
     ''CONNECT '' @ host @ '':'' @ u16_to_string port @ '' HTTP/1.1'' @ crlf @
     ''Host: '' @ host @ '':'' @ u16_to_string port @ crlf @
     (case auth of
        None \<Rightarrow> []
      | Some creds \<Rightarrow>
          ''Proxy-Authorization: Basic '' @
          base64_encode (str_bytes (auth_user creds @ '':'' @ auth_pass creds)) @ crlf) @
     crlf"

function read_response :: "bytes \<Rightarrow> (obfs_error, bytes) io" where
  "read_response response_buf =
     io_bind (io_try (read_exact 1)) (\<lambda>byte.
       if MAX_RESPONSE < length (response_buf @ [byte ! 0])
       then io_fail (io_err ''HTTP CONNECT: response header too large'')
       else if ends_with (response_buf @ [byte ! 0]) header_end then io_ret (response_buf @ [byte ! 0])
       else read_response (response_buf @ [byte ! 0]))"
  by pat_completeness auto
termination
  by (relation "measure (\<lambda>buf. MAX_RESPONSE - length buf)") auto

declare read_response.simps [simp del]

definition check_response :: "bytes \<Rightarrow> obfs_error + unit" where
  "check_response response_buf =
     (case from_utf8 response_buf of
        None \<Rightarrow> Inl (io_err ''HTTP CONNECT: non-UTF8 response'')
      | Some response_str \<Rightarrow>
          (case first_line response_str of
             None \<Rightarrow> Inl (io_err ''HTTP CONNECT: empty response'')
           | Some status_line \<Rightarrow>
               (case splitn 3 (CHR '' '') status_line of
                  _ # code_str # _ \<Rightarrow>
                    (case parse_u16 code_str of
                       None \<Rightarrow> Inl (io_err ''HTTP CONNECT: non-numeric status code'')
                     | Some status_code \<Rightarrow>
                         if status_code \<noteq> 200
                         then Inl (io_err (''HTTP CONNECT: proxy returned status '' @ u16_to_string status_code))
                         else Inr ())
                | _ \<Rightarrow> Inl (io_err ''HTTP CONNECT: malformed status line''))))"

definition tunnel_http_connect :: "string \<Rightarrow> u16 \<Rightarrow> proxy_auth option \<Rightarrow> (obfs_error, unit) io" where
  "tunnel_http_connect target_host target_port auth =
     io_bind (io_try (write_all (str_bytes (http_request target_host target_port auth)))) (\<lambda>_.
     io_bind (read_response []) (\<lambda>response_buf.
       case check_response response_buf of Inl e \<Rightarrow> io_fail e | Inr _ \<Rightarrow> io_ret ()))"

definition dial_http_connect ::
  "(string \<Rightarrow> io_error + stream) \<Rightarrow> string \<Rightarrow> string \<Rightarrow> u16 \<Rightarrow> proxy_auth option \<Rightarrow> (obfs_error, stream) res" where
  "dial_http_connect connect proxy_addr target_host target_port auth =
     (case connect proxy_addr of
        Inl e \<Rightarrow> Err (Io e)
      | Inr st \<Rightarrow>
          (case tunnel_http_connect target_host target_port auth st of
             (Ok _, st') \<Rightarrow> Ok st'
           | (Err e, _) \<Rightarrow> Err e
           | (Blocked, _) \<Rightarrow> Blocked))"

subsection \<open>Reference definitions\<close>

text \<open>
  For comparison: a decoder of Base64 as the standard describes it; the lines of a CONNECT request;
  the header blocks, which are the bytes up to the first blank line where these are not too many; and
  the blocks whose status is 200, the number written in decimal as the second word of the first line.
\<close>

fun index_of :: "char \<Rightarrow> string \<Rightarrow> nat option" where
  "index_of c [] = None"
| "index_of c (x # xs) = (if x = c then Some 0 else map_option Suc (index_of c xs))"

definition sextet :: "char \<Rightarrow> u32" where
  "sextet c = (case index_of c CHARS of None \<Rightarrow> 0 | Some i \<Rightarrow> of_nat i)"

definition decode_quad :: "char \<Rightarrow> char \<Rightarrow> char \<Rightarrow> char \<Rightarrow> bytes" where
  "decode_quad c0 c1 c2 c3 =
     (let n = push_bit 18 (sextet c0) OR push_bit 12 (sextet c1) OR push_bit 6 (sextet c2) OR sextet c3
      in take (if c2 = CHR ''='' then 1 else if c3 = CHR ''='' then 2 else 3)
           [ucast (drop_bit 16 n), ucast (drop_bit 8 n), ucast n])"

fun base64_decode :: "string \<Rightarrow> bytes" where
  "base64_decode (c0 # c1 # c2 # c3 # rest) = decode_quad c0 c1 c2 c3 @ base64_decode rest"
| "base64_decode _ = []"

definition request_lines :: "string \<Rightarrow> u16 \<Rightarrow> proxy_auth option \<Rightarrow> string list" where
  "request_lines host port auth =
     (let authority = host @ '':'' @ u16_to_string port
      in [''CONNECT '' @ authority @ '' HTTP/1.1'', ''Host: '' @ authority] @
         map (\<lambda>a. ''Proxy-Authorization: Basic '' @ base64_encode (str_bytes (auth_user a @ '':'' @ auth_pass a)))
           (case auth of None \<Rightarrow> [] | Some a \<Rightarrow> [a]) @
         [[]])"

definition connect_request :: "string \<Rightarrow> u16 \<Rightarrow> proxy_auth option \<Rightarrow> bytes" where
  "connect_request host port auth = concat (map (\<lambda>line. str_bytes line @ [13, 10]) (request_lines host port auth))"

definition header_block :: "bytes \<Rightarrow> bool" where
  "header_block c \<longleftrightarrow>
     suffix [13, 10, 13, 10] c \<and> (\<forall>p. strict_prefix p c \<longrightarrow> \<not> suffix [13, 10, 13, 10] p) \<and> length c \<le> 8192"

definition status_200 :: "bytes \<Rightarrow> bool" where
  "status_200 c \<longleftrightarrow>
     utf8_valid c \<and> (\<exists>line code. opening_line (bytes_str c) line \<and> second_word line code \<and> decimal code 200)"

subsection \<open>Base64 is correct\<close>

lemma length_CHARS [simp]: "length CHARS = 64"
  by (simp add: CHARS_def)

lemma distinct_CHARS: "distinct CHARS"
  by (simp add: CHARS_def)

lemma eq_not_in_CHARS: "CHR ''='' \<notin> set CHARS"
  by (simp add: CHARS_def)

lemma index_of_nth: "distinct xs \<Longrightarrow> i < length xs \<Longrightarrow> index_of (xs ! i) xs = Some i"
  by (induction xs arbitrary: i) (auto simp: nth_Cons split: nat.splits)

lemma sextet_nth: "unat x < 64 \<Longrightarrow> sextet (CHARS ! unat (x :: u32)) = x"
  by (simp add: sextet_def index_of_nth distinct_CHARS)

lemma CHARS_nth_neq: "i < 64 \<Longrightarrow> CHARS ! i \<noteq> CHR ''=''"
  using eq_not_in_CHARS nth_mem [of i CHARS] by (metis length_CHARS)

lemma sextet_eq: "sextet (CHR ''='') = 0"
  by (simp add: sextet_def CHARS_def)

lemma unat_and_3F: "unat (x AND 0x3F :: u32) < 64"
proof -
  have "x AND 0x3F \<le> (0x3F :: u32)" by (rule word_and_le1)
  then have "unat (x AND 0x3F) \<le> unat (0x3F :: u32)" by (simp only: word_le_nat_alt)
  then show ?thesis by simp
qed

definition triple :: "u8 \<Rightarrow> u8 \<Rightarrow> u8 \<Rightarrow> u32" where
  "triple a b c = push_bit 16 (ucast a) OR push_bit 8 (ucast b) OR ucast c"

lemma u32_3F: "(0x3F :: u32) = mask 6"
  by (simp add: mask_eq_exp_minus_1)

lemma bit_triple:
  "bit (triple a b c) i \<longleftrightarrow>
     (if i < 8 then bit c i else if i < 16 then bit b (i - 8) else i < 24 \<and> bit a (i - 16))"
proof -
  have u8: "bit x i \<Longrightarrow> i < 8" for x :: u8 and i using bit_imp_le_length [of x i] by simp
  show ?thesis by (auto simp: triple_def bit_simps dest: u8)
qed

lemma triple_sextets:
  "push_bit 18 (drop_bit 18 (triple a b c)) OR push_bit 12 (drop_bit 12 (triple a b c) AND 0x3F) OR
   push_bit 6 (drop_bit 6 (triple a b c) AND 0x3F) OR (triple a b c AND 0x3F) = triple a b c"
  unfolding u32_3F
proof (rule bit_word_eqI)
  fix n assume "n < LENGTH(32)"
  consider "n < 6" | "6 \<le> n" "n < 12" | "12 \<le> n" "n < 18" | "18 \<le> n" by linarith
  then show "bit (push_bit 18 (drop_bit 18 (triple a b c)) OR push_bit 12 (drop_bit 12 (triple a b c) AND mask 6) OR
      push_bit 6 (drop_bit 6 (triple a b c) AND mask 6) OR (triple a b c AND mask 6)) n \<longleftrightarrow> bit (triple a b c) n"
    using \<open>n < LENGTH(32)\<close> by cases (auto simp: bit_simps)
qed

lemma triple_top: "drop_bit 18 (triple a b c) = drop_bit 18 (triple a b c) AND 0x3F"
  unfolding u32_3F by (rule bit_word_eqI) (auto simp: bit_simps bit_triple)

lemma triple_bytes:
  "ucast (drop_bit 16 (triple a b c)) = a" "ucast (drop_bit 8 (triple a b c)) = b" "ucast (triple a b c) = c"
  by (rule bit_word_eqI; auto simp: bit_simps bit_triple)+

lemma triple_pad:
  "triple a b 0 AND 0x3F = 0" "drop_bit 6 (triple a 0 0) AND 0x3F = 0"
  unfolding u32_3F by (rule bit_word_eqI; auto simp: bit_simps bit_triple)+

lemma base64_chunk_triple:
  "base64_chunk [a, b, c] = map (\<lambda>x. CHARS ! unat x)
     [drop_bit 18 (triple a b c), drop_bit 12 (triple a b c) AND 0x3F, drop_bit 6 (triple a b c) AND 0x3F, triple a b c AND 0x3F]"
  "base64_chunk [a, b] = map (\<lambda>x. CHARS ! unat x)
     [drop_bit 18 (triple a b 0), drop_bit 12 (triple a b 0) AND 0x3F, drop_bit 6 (triple a b 0) AND 0x3F] @ ''=''"
  "base64_chunk [a] = map (\<lambda>x. CHARS ! unat x)
     [drop_bit 18 (triple a 0 0), drop_bit 12 (triple a 0 0) AND 0x3F] @ ''==''"
  by (simp_all add: base64_chunk_def triple_def Let_def)

lemma decode_quad_chunk:
  "decode_quad (CHARS ! unat (drop_bit 18 (triple a b c))) (CHARS ! unat (drop_bit 12 (triple a b c) AND 0x3F))
     (CHARS ! unat (drop_bit 6 (triple a b c) AND 0x3F)) (CHARS ! unat (triple a b c AND 0x3F)) = [a, b, c]"
  "decode_quad (CHARS ! unat (drop_bit 18 (triple a b 0))) (CHARS ! unat (drop_bit 12 (triple a b 0) AND 0x3F))
     (CHARS ! unat (drop_bit 6 (triple a b 0) AND 0x3F)) (CHR ''='') = [a, b]"
  "decode_quad (CHARS ! unat (drop_bit 18 (triple a 0 0))) (CHARS ! unat (drop_bit 12 (triple a 0 0) AND 0x3F))
     (CHR ''='') (CHR ''='') = [a]"
proof -
  have top: "unat (drop_bit 18 (triple a b c)) < 64" for a b c
    using unat_and_3F [of "drop_bit 18 (triple a b c)"] triple_top [of a b c] by simp
  note s = decode_quad_def Let_def sextet_nth [OF top] sextet_nth [OF unat_and_3F] CHARS_nth_neq [OF unat_and_3F]
    sextet_eq triple_bytes
  show "decode_quad (CHARS ! unat (drop_bit 18 (triple a b c))) (CHARS ! unat (drop_bit 12 (triple a b c) AND 0x3F))
      (CHARS ! unat (drop_bit 6 (triple a b c) AND 0x3F)) (CHARS ! unat (triple a b c AND 0x3F)) = [a, b, c]"
    using triple_sextets [of a b c] by (simp add: s)
  show "decode_quad (CHARS ! unat (drop_bit 18 (triple a b 0))) (CHARS ! unat (drop_bit 12 (triple a b 0) AND 0x3F))
      (CHARS ! unat (drop_bit 6 (triple a b 0) AND 0x3F)) (CHR ''='') = [a, b]"
    using triple_sextets [of a b 0] by (simp add: s triple_pad)
  show "decode_quad (CHARS ! unat (drop_bit 18 (triple a 0 0))) (CHARS ! unat (drop_bit 12 (triple a 0 0) AND 0x3F))
      (CHR ''='') (CHR ''='') = [a]"
    using triple_sextets [of a 0 0] by (simp add: s triple_pad)
qed

lemma base64_decode_encode: "base64_decode (base64_encode xs) = xs"
  by (induction xs rule: chunks3.induct)
    (simp_all add: base64_encode_def base64_chunk_triple decode_quad_chunk)

lemma length_base64: "length (base64_encode xs) = 4 * ((length xs + 2) div 3)"
  by (induction xs rule: chunks3.induct) (simp_all add: base64_encode_def base64_chunk_triple, presburger)

lemma base64_alphabet: "set (base64_encode xs) \<subseteq> insert (CHR ''='') (set CHARS)"
proof -
  have top: "unat (drop_bit 18 (triple a b c)) < 64" for a b c
    using unat_and_3F [of "drop_bit 18 (triple a b c)"] triple_top [of a b c] by simp
  have "CHARS ! unat (drop_bit 18 (triple a b c)) \<in> set CHARS" "CHARS ! unat (x AND 0x3F :: u32) \<in> set CHARS" for a b c x
    using top unat_and_3F by (auto intro!: nth_mem)
  then show ?thesis
    by (induction xs rule: chunks3.induct) (simp_all add: base64_encode_def base64_chunk_triple)
qed

subsection \<open>The response\<close>

lemma read_response_action [io_actions]: "io_action (read_response buf)"
proof (induction buf rule: read_response.induct)
  case (1 buf)
  have "io_action (if MAX_RESPONSE < length (buf @ [byte ! 0])
       then io_fail (io_err ''HTTP CONNECT: response header too large'')
       else if ends_with (buf @ [byte ! 0]) header_end then io_ret (buf @ [byte ! 0])
       else read_response (buf @ [byte ! 0]))" for byte
    using 1 [of byte] by (simp add: io_action_fail io_action_ret)
  then show ?case by (subst read_response.simps) (intro io_action_bind io_action_try io_action_read_exact)
qed

lemma read_response_local [io_actions]: "io_local (read_response buf)"
proof (induction buf rule: read_response.induct)
  case (1 buf)
  have "io_local (if MAX_RESPONSE < length (buf @ [byte ! 0])
       then io_fail (io_err ''HTTP CONNECT: response header too large'')
       else if ends_with (buf @ [byte ! 0]) header_end then io_ret (buf @ [byte ! 0])
       else read_response (buf @ [byte ! 0]))" for byte
    using 1 [of byte] by (simp add: io_local_fail io_local_ret)
  then show ?case
    by (subst read_response.simps, intro io_local_bind io_action_try io_action_read_exact io_local_try io_local_read_exact)
      (intro io_actions, assumption)
qed

definition response_from :: "bytes \<Rightarrow> bytes \<Rightarrow> bool" where
  "response_from buf c \<longleftrightarrow>
     c \<noteq> [] \<and> ends_with (buf @ c) header_end \<and>
     (\<forall>p. p \<noteq> [] \<longrightarrow> strict_prefix p c \<longrightarrow> \<not> ends_with (buf @ p) header_end) \<and> length (buf @ c) \<le> MAX_RESPONSE"

lemma strict_prefix_Cons_iff:
  "strict_prefix p (b # c) \<longleftrightarrow> p = [] \<or> (\<exists>q. p = b # q \<and> strict_prefix q c)"
  by (cases p) auto

lemma response_from_Cons:
  "response_from buf (b # c) \<longleftrightarrow>
     length (buf @ [b]) \<le> MAX_RESPONSE \<and>
     (if ends_with (buf @ [b]) header_end then c = [] else response_from (buf @ [b]) c)"
proof (cases "ends_with (buf @ [b]) header_end")
  case True
  then show ?thesis by (cases c) (auto simp: response_from_def strict_prefix_Cons_iff)
next
  case False
  then show ?thesis
    by (auto simp: response_from_def strict_prefix_Cons_iff) (metis append_Nil2)+
qed

lemma accepts_response [transcripts]:
  "accepts (read_response buf) c w x \<longleftrightarrow> w = [] \<and> x = buf @ c \<and> response_from buf c"
proof (induction buf arbitrary: c rule: read_response.induct)
  case (1 buf)
  show ?case
  proof (cases c)
    case Nil
    then show ?thesis
      by (subst read_response.simps) (simp add: transcripts io_actions response_from_def)
  next
    case (Cons b c')
    then show ?thesis
      using 1 [of "[b]" c']
      by (subst read_response.simps) (auto simp: transcripts io_actions response_from_Cons)
  qed
qed

lemma header_end_bytes: "header_end = [13, 10, 13, 10]"
  by (simp add: header_end_def crlf_def cr_def lf_def)

lemma header_block_iff:
  "header_block c \<longleftrightarrow>
     ends_with c header_end \<and> (\<forall>p. strict_prefix p c \<longrightarrow> \<not> ends_with p header_end) \<and> length c \<le> MAX_RESPONSE"
  by (simp add: header_block_def ends_with_iff header_end_bytes suffix_def MAX_RESPONSE_def)

lemma http_request_lines: "str_bytes (http_request h p auth) = connect_request h p auth"
  by (cases auth) (simp_all add: http_request_def connect_request_def request_lines_def crlf_def cr_def lf_def)

lemma check_response_200:
  assumes "header_block c"
  shows "check_response c = Inr () \<longleftrightarrow> status_200 c"
proof -
  have "10 \<in> set c" using assms by (auto simp: header_block_def suffix_def)
  then have "char_of (unat (10 :: u8)) \<in> set (bytes_str c)" unfolding bytes_str_def set_map by (rule imageI)
  then have lf: "lf \<in> set (bytes_str c)" by (simp add: lf_def char_of_def bit_0)
  have "check_response c = Inr () \<longleftrightarrow>
      utf8_valid c \<and> (\<exists>line first code more. first_line (bytes_str c) = Some line \<and>
        splitn 3 (CHR '' '') line = first # code # more \<and> parse_u16 code = Some 200)"
    by (auto simp: check_response_def from_utf8_def split: option.splits list.splits)
  also have "\<dots> \<longleftrightarrow> status_200 c"
    unfolding status_200_def opening_line_iff [OF lf] second_word_iff parse_u16_iff by auto
  finally show ?thesis .
qed

lemma response_from_Nil: "response_from [] c \<longleftrightarrow> header_block c"
proof -
  have "\<not> ends_with [] header_end" by (simp add: ends_with_def header_end_def crlf_def)
  then show ?thesis unfolding response_from_def header_block_iff by (auto, metis)
qed

lemma tunnel_http_action [io_actions]: "io_action (tunnel_http_connect h p auth)" "io_local (tunnel_http_connect h p auth)"
  by (auto simp: tunnel_http_connect_def intro!: io_actions split: sum.splits)

lemma accepts_http:
  "accepts (tunnel_http_connect h p auth) c w () \<longleftrightarrow>
     w = connect_request h p auth \<and> header_block c \<and> status_200 c"
proof -
  have a: "io_action (case check_response x of Inl e \<Rightarrow> io_fail e | Inr _ \<Rightarrow> io_ret ())"
    "io_local (case check_response x of Inl e \<Rightarrow> io_fail e | Inr _ \<Rightarrow> io_ret ())" for x
    by (auto intro!: io_actions split: sum.splits)
  have k: "accepts (case check_response x of Inl e \<Rightarrow> io_fail e | Inr _ \<Rightarrow> io_ret ()) c w () \<longleftrightarrow>
      c = [] \<and> w = [] \<and> check_response x = Inr ()" for x c w
    by (cases "check_response x") (simp_all add: transcripts)
  show ?thesis
    unfolding tunnel_http_connect_def
    by (auto simp: accepts_write accepts_bind a io_actions accepts_response k response_from_Nil check_response_200
        http_request_lines)
qed

lemma read_response_too_large:
  assumes "length (buf @ flat st) > MAX_RESPONSE" and "length buf \<le> MAX_RESPONSE"
    and "\<And>p. p \<noteq> [] \<Longrightarrow> prefix p (flat st) \<Longrightarrow> length (buf @ p) \<le> MAX_RESPONSE \<Longrightarrow> \<not> ends_with (buf @ p) header_end"
  shows "\<exists>st'. read_response buf st = (Err (io_err ''HTTP CONNECT: response header too large''), st') \<and>
    flat st' = drop (Suc MAX_RESPONSE - length buf) (flat st)"
  using assms
proof (induction buf arbitrary: st rule: read_response.induct)
  case (1 buf)
  obtain b r where f: "flat st = [b] @ r" using "1.prems"(1,2) by (cases "flat st") auto
  from read_exact_flat [OF this] obtain s where s: "read_exact 1 st = (Ok [b], s)" "flat s = r" by auto
  show ?case
  proof (cases "MAX_RESPONSE < length (buf @ [b])")
    case True
    then have "Suc MAX_RESPONSE - length buf = 1" using "1.prems"(2) by simp
    then show ?thesis
      using True s f by (subst read_response.simps) (simp add: io_bind_def io_try_def io_fail_def)
  next
    case False
    have ne: "\<not> ends_with (buf @ [b]) header_end" using "1.prems"(3) [of "[b]"] f False by simp
    have "\<exists>st'. read_response (buf @ [[b] ! 0]) s = (Err (io_err ''HTTP CONNECT: response header too large''), st') \<and>
        flat st' = drop (Suc MAX_RESPONSE - length (buf @ [[b] ! 0])) (flat s)"
    proof (rule "1.IH")
      show "MAX_RESPONSE < length ((buf @ [[b] ! 0]) @ flat s)" using "1.prems"(1) f s by simp
      show "\<not> ends_with ((buf @ [[b] ! 0]) @ p) header_end"
        if "p \<noteq> []" "prefix p (flat s)" "length ((buf @ [[b] ! 0]) @ p) \<le> MAX_RESPONSE" for p
        using "1.prems"(3) [of "b # p"] that f s by simp
    qed (use False ne in simp_all)
    moreover have "Suc MAX_RESPONSE - length buf = Suc (Suc MAX_RESPONSE - length (buf @ [b]))" using False by simp
    ultimately show ?thesis
      using False ne s f by (subst read_response.simps) (simp add: io_bind_def io_try_def)
  qed
qed

lemma check_response_status:
  assumes "utf8_valid (str_bytes resp)" and "resp = ver @ '' '' @ code @ '' '' @ reason @ crlf @ headers"
    and "CHR '' '' \<notin> set ver" and "CHR '' '' \<notin> set code" and "lf \<notin> set (ver @ code @ reason)"
  shows "check_response (str_bytes resp) =
    (case parse_u16 code of
       None \<Rightarrow> Inl (io_err ''HTTP CONNECT: non-numeric status code'')
     | Some n \<Rightarrow> if n = 200 then Inr () else Inl (io_err (''HTTP CONNECT: proxy returned status '' @ u16_to_string n)))"
proof -
  let ?line = "ver @ '' '' @ code @ '' '' @ reason"
  have lf: "CHR '' '' \<noteq> lf" "cr \<noteq> lf" by (simp_all add: lf_def cr_def)
  have "split_once lf ((?line @ [cr]) @ lf # headers) = Some (?line @ [cr], headers)"
    by (rule split_once_append) (use assms(5) lf in auto)
  then have l: "first_line resp = Some ?line"
    using assms(2) by (simp add: first_line_def strip_cr_def crlf_def butlast_append)
  have "splitn 3 (CHR '' '') ?line = [ver, code, reason]"
    using split_once_append [OF assms(3), of "code @ '' '' @ reason"] split_once_append [OF assms(4), of reason]
    by (simp add: numeral_3_eq_3 numeral_2_eq_2)
  then show ?thesis using assms(1) l by (simp add: check_response_def from_utf8_def split: option.splits)
qed

subsection \<open>Properties\<close>

text \<open>
  C29. The dialer implements HTTP CONNECT. It succeeds, leaving \<open>rest\<close> unread and having written \<open>w\<close>,
  exactly when \<open>w\<close> is the request, its lines being \<^verbatim>\<open>CONNECT host:port HTTP/1.1\<close>,
  \<^verbatim>\<open>Host: host:port\<close>, with credentials \<^verbatim>\<open>Proxy-Authorization: Basic\<close> and their Base64, and
  an empty one, each ended by CR LF; and when the input is a header block followed by \<open>rest\<close>, that is at
  most 8192 bytes up to and including the first CR LF CR LF, in UTF-8, with a first line whose second
  word is a decimal text of 200, as \<^verbatim>\<open>u16::from_str\<close> reads it, a plus sign and leading zeros included.
\<close>

theorem http_refines_grammar:
  assumes "tx_cap st = None"
  shows "(\<exists>st'. tunnel_http_connect h p auth st = (Ok (), st') \<and> flat st' = rest \<and> tx st' = tx st @ w) \<longleftrightarrow>
    w = connect_request h p auth \<and> (\<exists>c. flat st = c @ rest \<and> header_block c \<and> status_200 c)"
  using accepts_iff_run [OF tunnel_http_action assms] by (auto simp: accepts_http)

definition demo_response :: string where
  "demo_response = ''HTTP/1.1 200 OK'' @ crlf @ crlf"

lemma demo_response_block: "header_block (str_bytes demo_response)"
proof -
  have "\<not> ends_with p header_end" if "p \<in> set (butlast (prefixes (str_bytes demo_response)))" for p
    using that by (simp add: demo_response_def crlf_def cr_def lf_def header_end_def ends_with_def) auto
  moreover have "p \<in> set (butlast (prefixes c))" if "strict_prefix p c" for p c :: bytes
    using that by (cases c rule: rev_cases) (auto simp: prefix_snoc strict_prefix_def prefixes_snoc)
  ultimately show ?thesis
    by (simp add: header_block_iff MAX_RESPONSE_def)
      (simp add: demo_response_def crlf_def cr_def lf_def header_end_def ends_with_def)
qed

lemma demo_response_status: "status_200 (str_bytes demo_response)"
proof -
  have "check_response (str_bytes demo_response) = Inr ()"
    by (subst check_response_status [of _ "''HTTP/1.1''" "''200''" "''OK''" crlf])
      (simp_all add: demo_response_def crlf_def cr_def lf_def utf8_valid_ascii parse_u16_def is_digit_def)
  then show ?thesis using check_response_200 [OF demo_response_block] by simp
qed

theorem http_refines_grammar_witness:
  "\<exists>st'. tunnel_http_connect ''a'' 443 None (input (str_bytes demo_response @ [22])) = (Ok (), st') \<and>
     flat st' = [22] \<and> tx st' = tx (input (str_bytes demo_response @ [22])) @ connect_request ''a'' 443 None"
  using http_refines_grammar [of "input (str_bytes demo_response @ [22])" "''a''" 443 None "[22]"]
    demo_response_block demo_response_status by auto

text \<open>
  A proxy cannot make the client buffer more than the limit: if no blank line ends within the
  first 8192 bytes of a longer reply, the dialer gives up with an error, having read exactly 8193
  bytes.
\<close>

theorem http_response_bounded:
  assumes "tx_cap st = None" and "MAX_RESPONSE < length (flat st)"
    and "\<forall>p. prefix p (flat st) \<longrightarrow> length p \<le> MAX_RESPONSE \<longrightarrow> \<not> ends_with p header_end"
  shows "\<exists>st'. tunnel_http_connect h p auth st = (Err (io_err ''HTTP CONNECT: response header too large''), st') \<and>
    flat st' = drop 8193 (flat st)"
proof -
  let ?st = "st\<lparr>tx := tx st @ str_bytes (http_request h p auth)\<rparr>"
  have "\<exists>st'. read_response [] ?st = (Err (io_err ''HTTP CONNECT: response header too large''), st') \<and>
      flat st' = drop (Suc MAX_RESPONSE - length ([] :: bytes)) (flat ?st)"
    by (rule read_response_too_large) (use assms in auto)
  then show ?thesis
    using assms(1)
    by (auto simp: tunnel_http_connect_def io_bind_def io_try_def write_all_uncapped MAX_RESPONSE_def)
qed

theorem http_response_bounded_witness:
  "\<exists>st'. tunnel_http_connect ''a'' 80 None (input (replicate 9000 65)) =
     (Err (io_err ''HTTP CONNECT: response header too large''), st') \<and> flat st' = drop 8193 (replicate 9000 65)"
proof -
  have "\<not> ends_with p header_end" if "prefix p (replicate 9000 65)" for p :: bytes
  proof
    assume "ends_with p header_end"
    then have "10 \<in> set p" by (auto simp: ends_with_iff header_end_def crlf_def cr_def lf_def)
    then show False using set_mono_prefix [OF that] by auto
  qed
  then show ?thesis
    using http_response_bounded [of "input (replicate 9000 65)" "''a''" 80 None]
    by (simp add: MAX_RESPONSE_def del: replicate.simps)
qed

text \<open>
  C30. The Base64 encoder is right: the standard decoder gives back every byte sequence, the output
  has four characters for every three bytes begun, and it consists of the alphabet and padding.
\<close>

theorem base64_correct:
  "base64_decode (base64_encode xs) = xs \<and>
   length (base64_encode xs) = 4 * ((length xs + 2) div 3) \<and>
   set (base64_encode xs) \<subseteq> insert (CHR ''='') (set CHARS)"
  by (simp add: base64_decode_encode length_base64 base64_alphabet)

end
