(* ===== verification/Proxy.thy ===== *)
theory Proxy
  imports Proxy_Http
begin

text \<open>
  Dialing through a chain of proxies, \<^verbatim>\<open>src/proxy/mod.rs\<close>: the address parser, the list of hops, and
  the loop that asks each hop for the next one and the last hop for the target.
\<close>

subsection \<open>The code\<close>

datatype proxy_kind = Socks5 | HttpConnect

record hop =
  hop_kind :: proxy_kind
  hop_addr :: string
  hop_auth :: "proxy_auth option"

record proxy_config =
  proxy_kind_of :: proxy_kind
  proxy_addr :: string
  proxy_auth_of :: "proxy_auth option"
  proxy_chain :: "hop list"

definition parse_addr :: "string \<Rightarrow> obfs_error + (string \<times> u16)" where
  "parse_addr addr =
     (case rfind (CHR '':'') addr of
        None \<Rightarrow> Inl (io_other ''invalid proxy addr'')
      | Some colon \<Rightarrow>
          (case parse_u16 (drop (colon + 1) addr) of
             None \<Rightarrow> Inl (io_other ''invalid proxy port'')
           | Some port \<Rightarrow> Inr (take colon addr, port)))"

definition hops_of :: "proxy_config \<Rightarrow> hop list" where
  "hops_of proxy =
     \<lparr>hop_kind = proxy_kind_of proxy, hop_addr = proxy_addr proxy, hop_auth = proxy_auth_of proxy\<rparr> # proxy_chain proxy"

fun run_tunnel :: "proxy_kind tunnel_fn" where
  "run_tunnel Socks5 next_host next_port auth = tunnel_socks5 next_host next_port auth"
| "run_tunnel HttpConnect next_host next_port auth = tunnel_http_connect next_host next_port auth"

definition next_dest :: "hop list \<Rightarrow> string \<Rightarrow> u16 \<Rightarrow> obfs_error + (string \<times> u16)" where
  "next_dest rest target_host target_port =
     (case rest of [] \<Rightarrow> Inr (target_host, target_port) | h # _ \<Rightarrow> parse_addr (hop_addr h))"

fun tunnel_hops :: "hop list \<Rightarrow> string \<Rightarrow> u16 \<Rightarrow> (obfs_error, unit) io" where
  "tunnel_hops [] target_host target_port = io_ret ()"
| "tunnel_hops (h # rest) target_host target_port =
     (case next_dest rest target_host target_port of
        Inl e \<Rightarrow> io_fail e
      | Inr (next_host, next_port) \<Rightarrow>
          io_bind (run_tunnel (hop_kind h) next_host next_port (hop_auth h)) (\<lambda>_.
            tunnel_hops rest target_host target_port))"

definition dial ::
  "(string \<Rightarrow> io_error + stream) \<Rightarrow> proxy_config \<Rightarrow> string \<Rightarrow> u16 \<Rightarrow> (obfs_error, stream) res" where
  "dial connect proxy target_host target_port =
     (case connect (hop_addr (hops_of proxy ! 0)) of
        Inl e \<Rightarrow> Err (Io e)
      | Inr st \<Rightarrow>
          (case tunnel_hops (hops_of proxy) target_host target_port st of
             (Ok _, st') \<Rightarrow> Ok st'
           | (Err e, _) \<Rightarrow> Err e
           | (Blocked, _) \<Rightarrow> Blocked))"

subsection \<open>What a chain has to say\<close>

text \<open>
  An address is a host, a colon and a decimal port, and its host is all that precedes the last colon.
  One negotiation is a pair of what the proxy sends and what the client writes, and the conversation
  along a chain consists of those of the hops, one after the other, each for the address of the hop
  that follows, the last one for the target.
\<close>

definition names_addr :: "string \<Rightarrow> string \<Rightarrow> u16 \<Rightarrow> bool" where
  "names_addr addr host port \<longleftrightarrow> (\<exists>s. addr = host @ '':'' @ s \<and> CHR '':'' \<notin> set s \<and> decimal s (unat port))"

definition conversation :: "proxy_kind \<Rightarrow> string \<Rightarrow> u16 \<Rightarrow> proxy_auth option \<Rightarrow> bytes \<Rightarrow> bytes \<Rightarrow> bool" where
  "conversation k h p auth c w =
     (case k of
        Socks5 \<Rightarrow> socks_conversation h p auth c w
      | HttpConnect \<Rightarrow> w = connect_request h p auth \<and> header_block c \<and> status_200 c)"

inductive chain_conversation :: "hop list \<Rightarrow> string \<Rightarrow> u16 \<Rightarrow> bytes \<Rightarrow> bytes \<Rightarrow> bool" where
  last_hop: "conversation (hop_kind h) host port (hop_auth h) c w \<Longrightarrow> chain_conversation [h] host port c w"
| next_hop: "names_addr (hop_addr h') nh np \<Longrightarrow> conversation (hop_kind h) nh np (hop_auth h) c w \<Longrightarrow>
    chain_conversation (h' # rest) host port c' w' \<Longrightarrow> chain_conversation (h # h' # rest) host port (c @ c') (w @ w')"

inductive_simps chain_conversation_last [simp]: "chain_conversation [h] host port c w"
inductive_simps chain_conversation_next [simp]: "chain_conversation (h # h' # rest) host port c w"

fun destinations ::
  "hop list \<Rightarrow> string \<Rightarrow> u16 \<Rightarrow> (proxy_kind \<times> proxy_auth option \<times> (obfs_error + (string \<times> u16))) list" where
  "destinations [] host port = []"
| "destinations (h # rest) host port = (hop_kind h, hop_auth h, next_dest rest host port) # destinations rest host port"

subsection \<open>Lemmas\<close>

interpretation px: tunnel run_tunnel
proof
  show "io_action (run_tunnel k h p auth)" for k h p auth
    by (cases k) (simp_all add: tunnel_socks5_action tunnel_http_action)
  show "io_local (run_tunnel k h p auth)" for k h p auth
    by (cases k) (simp_all add: tunnel_socks5_action tunnel_http_action)
qed

lemma accepts_run_tunnel: "accepts (run_tunnel k h p auth) c w () \<longleftrightarrow> conversation k h p auth c w"
  by (cases k) (simp_all add: conversation_def accepts_socks5 accepts_http)

lemma tunnel_hops_chain: "tunnel_hops hops host port = tunnel_chain run_tunnel (destinations hops host port)"
  by (induction hops) (auto split: sum.splits)

lemma tunnel_hops_action: "io_action (tunnel_hops hops host port)" "io_local (tunnel_hops hops host port)"
  by (simp_all add: tunnel_hops_chain px.chain_action px.chain_local)

lemma parse_addr_iff: "parse_addr addr = Inr (host, port) \<longleftrightarrow> names_addr addr host port"
proof
  assume "parse_addr addr = Inr (host, port)"
  then obtain i where i: "rfind (CHR '':'') addr = Some i" "parse_u16 (drop (Suc i) addr) = Some port" "host = take i addr"
    by (auto simp: parse_addr_def split: option.splits)
  from rfind_Some [OF i(1)] i(2,3) id_take_nth_drop [of i addr]
  show "names_addr addr host port" unfolding names_addr_def parse_u16_iff by auto
qed (auto simp: names_addr_def parse_addr_def rfind_last simp flip: parse_u16_iff)

lemma parse_addr_errors:
  "parse_addr addr = Inl e \<longleftrightarrow>
     (if CHR '':'' \<notin> set addr then e = io_other ''invalid proxy addr''
      else (\<nexists>host port. names_addr addr host port) \<and> e = io_other ''invalid proxy port'')"
proof -
  have n: "(\<exists>host port. names_addr addr host port) \<longleftrightarrow> (\<exists>x. parse_addr addr = Inr x)"
    by (simp flip: parse_addr_iff)
  show ?thesis
  proof (cases "rfind (CHR '':'') addr")
    case None
    then have "parse_addr addr = Inl (io_other ''invalid proxy addr'')" by (simp add: parse_addr_def)
    then show ?thesis using None unfolding rfind_None by auto
  next
    case (Some i)
    then have "CHR '':'' \<in> set addr" using rfind_None [of "CHR '':''" addr] by auto
    then show ?thesis unfolding n using Some by (auto simp: parse_addr_def split: option.splits)
  qed
qed

lemma accepts_tunnel_hops:
  "hops \<noteq> [] \<Longrightarrow> accepts (tunnel_hops hops host port) c w () \<longleftrightarrow> chain_conversation hops host port c w"
proof (induction hops arbitrary: c w rule: induct_list012)
  case (2 h)
  then show ?case
    unfolding tunnel_hops_chain by (simp add: next_dest_def px.accepts_chain_Cons accepts_run_tunnel accepts_ret del: tunnel_chain.simps(3))
next
  case (3 h h' rest)
  show ?case
  proof (cases "parse_addr (hop_addr h')")
    case (Inl e)
    then have "\<not> names_addr (hop_addr h') nh np" for nh np using parse_addr_iff [of "hop_addr h'" nh np] by simp
    then show ?thesis using Inl by (simp add: next_dest_def accepts_fail)
  next
    case (Inr d)
    then have "names_addr (hop_addr h') nh np \<longleftrightarrow> d = (nh, np)" for nh np
      using parse_addr_iff [of "hop_addr h'" nh np] by simp
    then show ?thesis using Inr "3.IH"
      unfolding tunnel_hops_chain
      by (cases d) (simp add: next_dest_def px.accepts_chain_Cons accepts_run_tunnel del: tunnel_chain.simps(3), blast)
  qed
qed simp

lemma colon_not_digit: "\<not> is_digit (CHR '':'')"
  by (simp add: is_digit_def)

lemma parse_addr_print: "parse_addr (host @ '':'' @ u16_to_string port) = Inr (host, port)"
proof -
  have "CHR '':'' \<notin> set (u16_to_string port)"
    using dec_string_digits [of "unat port"] colon_not_digit by (auto simp: u16_to_string_def list_all_iff)
  then show ?thesis
    unfolding parse_addr_iff names_addr_def using parse_u16_to_string [of port] unfolding parse_u16_iff by blast
qed

subsection \<open>Properties\<close>

text \<open>
  C31. Addresses parse as they print, and the parser accepts one language with one meaning: a host,
  then the last colon of the text, then a port in decimal that fits 16 bits, where the decimal text may
  begin with a plus sign and with zeros, so that \<^verbatim>\<open>h:+80\<close> and \<^verbatim>\<open>h:080\<close> are addresses too. A text without a colon is an invalid
  address, and every other text outside the language has an invalid port.
\<close>

theorem parse_addr_round_trip:
  "parse_addr (host @ '':'' @ u16_to_string port) = Inr (host, port) \<and>
   (parse_addr addr = Inr (host, port) \<longleftrightarrow>
     (\<exists>s. addr = host @ '':'' @ s \<and> CHR '':'' \<notin> set s \<and> decimal s (unat port))) \<and>
   (parse_addr addr = Inl e \<longleftrightarrow>
     (if CHR '':'' \<notin> set addr then e = io_other ''invalid proxy addr''
      else (\<nexists>host port s. addr = host @ '':'' @ s \<and> CHR '':'' \<notin> set s \<and> decimal s (unat (port :: u16))) \<and>
        e = io_other ''invalid proxy port''))"
  using parse_addr_print [of host port] parse_addr_iff [of addr host port] parse_addr_errors [of addr e]
  unfolding names_addr_def by blast

text \<open>
  C26. Dialing through a chain, over whatever mixture of proxy kinds, succeeds exactly when the first
  proxy is reached and the bytes it sends are the replies of the hops in their order: the configured
  proxy and then its chain, each asked, in its own protocol and with its own credentials, for the
  address of the hop that follows it and the last one for the target. What follows them, the target's
  own bytes, is left on the stream untouched, and exactly the requests of the hops were written.
\<close>

theorem dial_refines_chain:
  assumes "connect (proxy_addr proxy) = Inr st" and "tx_cap st = None"
  shows "(\<exists>st'. dial connect proxy host port = Ok st' \<and> flat st' = rest \<and> tx st' = tx st @ w) \<longleftrightarrow>
    (\<exists>c. flat st = c @ rest \<and>
       chain_conversation
         (\<lparr>hop_kind = proxy_kind_of proxy, hop_addr = proxy_addr proxy, hop_auth = proxy_auth_of proxy\<rparr> # proxy_chain proxy)
         host port c w)"
proof -
  have "dial connect proxy host port = Ok st' \<longleftrightarrow> tunnel_hops (hops_of proxy) host port st = (Ok (), st')" for st'
    using assms(1) by (auto simp: dial_def hops_of_def split: prod.splits res.splits)
  then show ?thesis
    using accepts_iff_run [OF tunnel_hops_action assms(2)] accepts_tunnel_hops [of "hops_of proxy"]
    by (simp add: hops_of_def del: tunnel_hops.simps)
qed

definition demo_proxy :: proxy_config where
  "demo_proxy = \<lparr>proxy_kind_of = Socks5, proxy_addr = ''p:1'', proxy_auth_of = None,
     proxy_chain = [\<lparr>hop_kind = HttpConnect, hop_addr = ''q:2'', hop_auth = None\<rparr>]\<rparr>"

lemma demo_chain:
  "chain_conversation (hops_of demo_proxy) ''a'' 443 ([5, 0, 5, 0, 0, 1, 0, 0, 0, 0, 0, 0] @ str_bytes demo_response)
     ([5, 1, 0, 5, 1, 0, 3, 1, 113, 0, 2] @ connect_request ''a'' 443 None)"
proof -
  have s: "socks_conversation ''q'' 2 None [5, 0, 5, 0, 0, 1, 0, 0, 0, 0, 0, 0] [5, 1, 0, 5, 1, 0, 3, 1, 113, 0, 2]"
    unfolding socks_conversation_def
    by (intro conjI exI [of _ 0] exI [of _ "[]"] exI [of _ 1] exI [of _ "[0, 0, 0, 0, 0, 0]"])
      (simp_all add: socks_greeting_def socks_methods_def socks_request_def auth_exchange_def bnd_addr_def)
  have "parse_addr ''q:2'' = Inr (''q'', 2)"
    by (simp add: parse_addr_def parse_u16_def is_digit_def)
  then have a: "names_addr ''q:2'' ''q'' 2" by (simp only: parse_addr_iff)
  show ?thesis
    unfolding demo_proxy_def hops_of_def proxy_config.select_convs
    by (rule next_hop [OF _ _ last_hop, of _ "''q''" 2]) (simp_all add: a s conversation_def demo_response_block demo_response_status)
qed

theorem dial_refines_chain_witness:
  "\<exists>st'. dial (\<lambda>_. Inr (input (([5, 0, 5, 0, 0, 1, 0, 0, 0, 0, 0, 0] @ str_bytes demo_response) @ [22])))
       demo_proxy ''a'' 443 = Ok st' \<and> flat st' = [22]"
  using dial_refines_chain
      [of "\<lambda>_. Inr (input (([5, 0, 5, 0, 0, 1, 0, 0, 0, 0, 0, 0] @ str_bytes demo_response) @ [22]))" demo_proxy _ "''a''" 443 "[22]"
        "[5, 1, 0, 5, 1, 0, 3, 1, 113, 0, 2] @ connect_request ''a'' 443 None"]
    demo_chain [unfolded hops_of_def] by fastforce

end
