(* ===== verification/Tcp_Client.thy ===== *)
theory Tcp_Client
  imports Tcp_Link Pending_Calls Proxy
begin

text \<open>
  The TCP client, \<^verbatim>\<open>src/client.rs\<close>, as a state machine over the transport handle, its pump task and
  the calls in progress.

  The outbound channel is the queue of the link; its receiver lives until the pump task returns
  (\<open>Exited\<close>). The pump loops; once it has left the loop it marks the state as down, drains the table
  and returns, and each of these is a step of its own. A call of \<^verbatim>\<open>request\<close> first inserts itself into
  the table, then sends, then awaits its channel; call \<open>k\<close> owns channel \<open>k\<close>. A call of \<^verbatim>\<open>subscribe\<close>
  sends and then attaches to the broadcast. The handle can be dropped when no call is in progress.
  An interleaving is a list of events; steps that are not enabled do nothing.
\<close>

datatype 'x call_phase = Inserted | Awaiting | Done "'x core_error + 'x response"

record 'x call =
  call_req :: "'x request"
  call_phase :: "'x call_phase"

record ('x, 'g, 's) obfs_transport =
  ot_link :: "('x, 'g, 's) link"
  ot_pump :: pump_phase
  ot_state :: connection_state
  ot_table :: "'x call_table"
  ot_calls :: "'x call list"
  ot_subs :: "'x subscriber list"
  ot_capability :: "string option"
  ot_alive :: bool

datatype 'x client_event =
    Call "'x request"
  | CallSend nat
  | CallPoll nat
  | SubSend string
  | SubAttach nat
  | SubNext nat
  | PumpRound
  | PumpMark
  | PumpDrain
  | PumpExit
  | NetInput "bytes list" rx_status
  | NetLimit nat
  | DropHandle

subsection \<open>Connecting\<close>

definition open_stream ::
  "(string \<Rightarrow> io_error + stream) \<Rightarrow> string \<Rightarrow> proxy_config option \<Rightarrow> (obfs_error, stream) res" where
  "open_stream tcp addr proxy =
     (case proxy of
        Some proxy_cfg \<Rightarrow>
          (case parse_addr addr of
             Inl e \<Rightarrow> Err e
           | Inr (host, port) \<Rightarrow> dial tcp proxy_cfg host port)
      | None \<Rightarrow> (case tcp addr of Inl e \<Rightarrow> Err (Io e) | Inr st \<Rightarrow> Ok st))"

definition new_transport :: "stream \<Rightarrow> 's \<Rightarrow> bytes \<Rightarrow> 'g \<Rightarrow> string option \<Rightarrow> ('x, 'g, 's) obfs_transport" where
  "new_transport st session leftover g capability =
     \<lparr>ot_link = \<lparr>lk_stream = st, lk_session = session, lk_buf = leftover, lk_rng = g, lk_queue = []\<rparr>,
      ot_pump = Looping, ot_state = Connected, ot_table = new_table, ot_calls = [], ot_subs = [],
      ot_capability = capability, ot_alive = True\<rparr>"

definition connect ::
  "('g, 'h, 's) tcp_ctx \<Rightarrow> (string \<Rightarrow> io_error + stream) \<Rightarrow> nat \<Rightarrow> 'g \<Rightarrow> 'g \<Rightarrow> string \<Rightarrow> bytes \<Rightarrow> bytes \<Rightarrow>
   proxy_config option \<Rightarrow> string option \<Rightarrow> (obfs_error, ('x, 'g, 's) obfs_transport) res" where
  "connect T tcp ent g g' addr local_private server_public proxy capability =
     (case open_stream tcp addr proxy of
        Ok st \<Rightarrow>
          (case client_handshake_in_place T ent g local_private server_public st of
             (Ok (session, leftover), st') \<Rightarrow> Ok (new_transport st' session leftover g' capability)
           | (Err e, _) \<Rightarrow> Err e
           | (Blocked, _) \<Rightarrow> Blocked)
      | Err e \<Rightarrow> Err e
      | Blocked \<Rightarrow> Blocked)"

subsection \<open>Calls\<close>

definition set_phase :: "nat \<Rightarrow> 'x call_phase \<Rightarrow> ('x, 'g, 's) obfs_transport \<Rightarrow> ('x, 'g, 's) obfs_transport" where
  "set_phase k v c = c\<lparr>ot_calls := (ot_calls c)[k := (ot_calls c ! k)\<lparr>call_phase := v\<rparr>]\<rparr>"

definition on_table :: "'x table_op \<Rightarrow> ('x, 'g, 's) obfs_transport \<Rightarrow> ('x, 'g, 's) obfs_transport" where
  "on_table op c = c\<lparr>ot_table := table_step (ot_table c) op\<rparr>"

text \<open>Sending on the outbound channel fails exactly when its receiver is gone.\<close>

definition outbound_send :: "'x envelope \<Rightarrow> ('x, 'g, 's) obfs_transport \<Rightarrow> ('x, 'g, 's) obfs_transport option" where
  "outbound_send env c =
     (if ot_pump c = Exited then None
      else Some (c\<lparr>ot_link := (ot_link c)\<lparr>lk_queue := lk_queue (ot_link c) @ [env]\<rparr>\<rparr>))"

definition request_insert :: "'x request \<Rightarrow> ('x, 'g, 's) obfs_transport \<Rightarrow> ('x, 'g, 's) obfs_transport" where
  "request_insert req c =
     (if ot_alive c
      then (on_table (TInsert (req_id req)) c)\<lparr>ot_calls := ot_calls c @ [\<lparr>call_req = req, call_phase = Inserted\<rparr>]\<rparr>
      else c)"

definition request_send :: "nat \<Rightarrow> ('x, 'g, 's) obfs_transport \<Rightarrow> ('x, 'g, 's) obfs_transport" where
  "request_send k c =
     (if k < length (ot_calls c) \<and> call_phase (ot_calls c ! k) = Inserted
      then (let req = call_req (ot_calls c ! k)
            in case outbound_send (Request req) c of
                 None \<Rightarrow> set_phase k (Done (Inl Disconnected)) (on_table (TRemove (req_id req)) c)
               | Some c' \<Rightarrow> set_phase k Awaiting c')
      else c)"

definition request_poll :: "nat \<Rightarrow> ('x, 'g, 's) obfs_transport \<Rightarrow> ('x, 'g, 's) obfs_transport" where
  "request_poll k c =
     (if k < length (ot_calls c) \<and> call_phase (ot_calls c ! k) = Awaiting
      then (case outcome (ot_table c) k of
              Delivered resp \<Rightarrow> set_phase k (Done (Inr resp)) c
            | Dropped \<Rightarrow> set_phase k (Done (Inl Disconnected)) c
            | Waiting \<Rightarrow> c)
      else c)"

definition subscribe_send :: "string \<Rightarrow> ('x, 'g, 's) obfs_transport \<Rightarrow> ('x, 'g, 's) obfs_transport" where
  "subscribe_send topic c =
     (if ot_alive c
      then (case outbound_send (Subscribe topic None (ot_capability c)) c of
              None \<Rightarrow> c\<lparr>ot_subs := ot_subs c @ [Refused]\<rparr>
            | Some c' \<Rightarrow> c'\<lparr>ot_subs := ot_subs c' @ [Sent topic]\<rparr>)
      else c)"

definition subscribe_attach :: "nat \<Rightarrow> ('x, 'g, 's) obfs_transport \<Rightarrow> ('x, 'g, 's) obfs_transport" where
  "subscribe_attach k c =
     (if k < length (ot_subs c)
      then (case ot_subs c ! k of
              Sent topic \<Rightarrow> c\<lparr>ot_subs := (ot_subs c)[k := Attached topic [] []]\<rparr>
            | _ \<Rightarrow> c)
      else c)"

definition subscribe_recv :: "nat \<Rightarrow> ('x, 'g, 's) obfs_transport \<Rightarrow> 'x stream_item \<times> ('x, 'g, 's) obfs_transport" where
  "subscribe_recv k c =
     (if k < length (ot_subs c)
      then (case ot_subs c ! k of
              Attached topic past evs \<Rightarrow>
                (case next_item (ot_alive c \<or> ot_pump c \<noteq> Exited) past evs of
                   (item, past', evs') \<Rightarrow> (item, c\<lparr>ot_subs := (ot_subs c)[k := Attached topic past' evs']\<rparr>))
            | _ \<Rightarrow> (Pending_Item, c))
      else (Pending_Item, c))"

text \<open>
  A poll of the stream that \<^verbatim>\<open>subscribe\<close> returned, and the items of several polls. In the state machine a
  poll is one step per event that it takes from the receiver.
\<close>

definition subscribe_next :: "'x dedup \<Rightarrow> nat \<Rightarrow> ('x, 'g, 's) obfs_transport \<Rightarrow> 'x stream_item \<times> ('x, 'g, 's) obfs_transport" where
  "subscribe_next dedup_by_seq k c =
     (if k < length (ot_subs c)
      then (case ot_subs c ! k of
              Attached topic past evs \<Rightarrow>
                (case event_stream dedup_by_seq topic (ot_alive c \<or> ot_pump c \<noteq> Exited) past evs of
                   (item, past', evs') \<Rightarrow> (item, c\<lparr>ot_subs := (ot_subs c)[k := Attached topic past' evs']\<rparr>))
            | _ \<Rightarrow> (Pending_Item, c))
      else (Pending_Item, c))"

fun subscribe_polls :: "'x dedup \<Rightarrow> nat \<Rightarrow> nat \<Rightarrow> ('x, 'g, 's) obfs_transport \<Rightarrow> 'x stream_item list" where
  "subscribe_polls dedup_by_seq k 0 c = []"
| "subscribe_polls dedup_by_seq k (Suc n) c =
     (case subscribe_next dedup_by_seq k c of (item, c') \<Rightarrow> item # subscribe_polls dedup_by_seq k n c')"

definition state :: "('x, 'g, 's) obfs_transport \<Rightarrow> connection_state" where
  "state c = ot_state c"

subsection \<open>The pump\<close>

definition pump_frame ::
  "('g, 'h, 's) tcp_ctx \<Rightarrow> 'x serde \<Rightarrow> 'x envelope \<Rightarrow> ('x, 'g, 's) obfs_transport \<Rightarrow> ('x, 'g, 's) obfs_transport" where
  "pump_frame T J env c =
     (case env of
        Response resp \<Rightarrow> on_table (TResolve resp) c
      | Event ev \<Rightarrow> c\<lparr>ot_subs := broadcast ev (ot_subs c)\<rparr>
      | Ping \<Rightarrow> c\<lparr>ot_link := snd (link_send T J Pong (ot_link c))\<rparr>
      | Pong \<Rightarrow> c
      | _ \<Rightarrow> c)"

definition pump_select ::
  "('g, 'h, 's) tcp_ctx \<Rightarrow> 'x serde \<Rightarrow> ('x, 'g, 's) obfs_transport \<Rightarrow> ('x, 'g, 's) obfs_transport" where
  "pump_select T J c =
     (case lk_queue (ot_link c) of
        env # q \<Rightarrow>
          (case link_send T J env ((ot_link c)\<lparr>lk_queue := q\<rparr>) of
             (Ok _, l) \<Rightarrow> c\<lparr>ot_link := l\<rparr>
           | (_, l) \<Rightarrow> c\<lparr>ot_link := l, ot_pump := Broken\<rparr>)
      | [] \<Rightarrow>
          (case link_recv T J (ot_link c) of
             (Ok env, l) \<Rightarrow> pump_frame T J env (c\<lparr>ot_link := l\<rparr>)
           | (Err _, l) \<Rightarrow> c\<lparr>ot_link := l, ot_pump := Broken\<rparr>
           | (Blocked, l) \<Rightarrow> c\<lparr>ot_link := l\<rparr>))"

definition pump ::
  "('g, 'h, 's) tcp_ctx \<Rightarrow> 'x serde \<Rightarrow> 'x client_event \<Rightarrow> ('x, 'g, 's) obfs_transport \<Rightarrow> ('x, 'g, 's) obfs_transport" where
  "pump T J e c =
     (case (e, ot_pump c) of
        (PumpRound, Looping) \<Rightarrow> pump_select T J c
      | (PumpMark, Broken) \<Rightarrow> c\<lparr>ot_state := Down, ot_pump := Marked\<rparr>
      | (PumpDrain, Marked) \<Rightarrow> (on_table TDrain c)\<lparr>ot_pump := Drained\<rparr>
      | (PumpExit, Drained) \<Rightarrow> c\<lparr>ot_pump := Exited\<rparr>
      | _ \<Rightarrow> c)"

definition drop_handle :: "('x, 'g, 's) obfs_transport \<Rightarrow> ('x, 'g, 's) obfs_transport" where
  "drop_handle c =
     (if list_all (\<lambda>k. case call_phase k of Done _ \<Rightarrow> True | _ \<Rightarrow> False) (ot_calls c) then c\<lparr>ot_alive := False\<rparr> else c)"

definition client_step ::
  "('g, 'h, 's) tcp_ctx \<Rightarrow> 'x serde \<Rightarrow> ('x, 'g, 's) obfs_transport \<Rightarrow> 'x client_event \<Rightarrow> ('x, 'g, 's) obfs_transport" where
  "client_step T J c e =
     (case e of
        Call req \<Rightarrow> request_insert req c
      | CallSend k \<Rightarrow> request_send k c
      | CallPoll k \<Rightarrow> request_poll k c
      | SubSend topic \<Rightarrow> subscribe_send topic c
      | SubAttach k \<Rightarrow> subscribe_attach k c
      | SubNext k \<Rightarrow> snd (subscribe_recv k c)
      | NetInput cs r \<Rightarrow> c\<lparr>ot_link := (ot_link c)\<lparr>lk_stream := net_input cs r (lk_stream (ot_link c))\<rparr>\<rparr>
      | NetLimit n \<Rightarrow> c\<lparr>ot_link := (ot_link c)\<lparr>lk_stream := net_limit n (lk_stream (ot_link c))\<rparr>\<rparr>
      | DropHandle \<Rightarrow> drop_handle c
      | _ \<Rightarrow> pump T J e c)"

subsection \<open>Invariant\<close>

text \<open>
  The table is well formed; call \<open>k\<close> waits on channel \<open>k\<close>, inserted under its request's id; a call that
  has returned a response returned what was delivered on its channel, which answers its request, and
  one that has returned an error returned \<open>Disconnected\<close> and is no longer in the table; the state is
  down from the pump's marking on.
\<close>

definition call_ok :: "'x call_table \<Rightarrow> nat \<Rightarrow> 'x call \<Rightarrow> bool" where
  "call_ok t k cl \<longleftrightarrow>
     key_of t k = req_id (call_req cl) \<and>
     (case call_phase cl of
        Done (Inr r) \<Rightarrow> outcome t k = Delivered r \<and> resp_id r = req_id (call_req cl)
      | Done (Inl e) \<Rightarrow> e = Disconnected \<and> outcome t k \<noteq> Waiting
      | _ \<Rightarrow> True)"

definition client_inv :: "('x, 'g, 's) obfs_transport \<Rightarrow> bool" where
  "client_inv c \<longleftrightarrow>
     table_wf (ot_table c) \<and> length (ct_shots (ot_table c)) = length (ot_calls c) \<and>
     (\<forall>k < length (ot_calls c). call_ok (ot_table c) k (ot_calls c ! k)) \<and>
     (ot_state c = Down \<longleftrightarrow> ot_pump c \<in> {Marked, Drained, Exited})"

lemma set_phase_simps [simp]:
  "ot_table (set_phase k v c) = ot_table c" "ot_pump (set_phase k v c) = ot_pump c"
  "ot_state (set_phase k v c) = ot_state c" "length (ot_calls (set_phase k v c)) = length (ot_calls c)"
  "j < length (ot_calls c) \<Longrightarrow> ot_calls (set_phase k v c) ! j =
     (if j = k then (ot_calls c ! k)\<lparr>call_phase := v\<rparr> else ot_calls c ! j)"
  by (auto simp: set_phase_def)

lemma on_table_simps [simp]:
  "ot_table (on_table op c) = table_step (ot_table c) op" "ot_calls (on_table op c) = ot_calls c"
  "ot_pump (on_table op c) = ot_pump c" "ot_state (on_table op c) = ot_state c"
  by (simp_all add: on_table_def)

lemma client_inv_cong:
  assumes "ot_table c' = ot_table c" and "ot_calls c' = ot_calls c" and "ot_state c' = ot_state c"
    and "ot_pump c' = ot_pump c \<or> ot_pump c = Looping \<and> ot_pump c' = Broken \<or> ot_pump c = Drained \<and> ot_pump c' = Exited"
  shows "client_inv c \<Longrightarrow> client_inv c'"
  using assms by (auto simp: client_inv_def)

lemma call_ok_step:
  assumes "table_wf t" and "k < length (ct_shots t)" and "call_ok t k cl"
  shows "call_ok (table_step t op) k cl"
  using assms table_step_final [OF assms(1,2)] table_step_key [OF assms(2)]
  by (auto simp: call_ok_def split: call_phase.splits sum.splits)

lemma client_inv_table:
  assumes "client_inv c" and "\<And>key. op \<noteq> TInsert key"
  shows "client_inv (on_table op c)"
proof -
  have "length (ct_shots (table_step (ot_table c) op)) = length (ct_shots (ot_table c))"
    using assms(2) by (cases op) (auto simp: table_step_def)
  then show ?thesis using assms by (auto simp: client_inv_def table_step_wf call_ok_step)
qed

lemma client_inv_phase:
  assumes "client_inv c" and "k < length (ot_calls c)"
    and "call_ok (ot_table c) k ((ot_calls c ! k)\<lparr>call_phase := v\<rparr>)"
  shows "client_inv (set_phase k v c)"
  using assms by (auto simp: client_inv_def)

lemma client_inv_insert: "client_inv c \<Longrightarrow> client_inv (request_insert req c)"
proof (cases "ot_alive c")
  case True
  assume inv: "client_inv c"
  let ?t = "ot_table c"
  let ?t' = "table_step ?t (TInsert (req_id req))"
  have l: "length (ct_shots ?t) = length (ot_calls c)" and wf: "table_wf ?t" using inv by (simp_all add: client_inv_def)
  have "call_ok ?t' k ((ot_calls c @ [\<lparr>call_req = req, call_phase = Inserted\<rparr>]) ! k)" if "k < Suc (length (ot_calls c))" for k
  proof (cases "k = length (ot_calls c)")
    case True
    then show ?thesis using l insert_new_simps(5) [of "req_id req" ?t] by (simp add: call_ok_def table_step_def)
  next
    case False
    then show ?thesis using that inv l call_ok_step [OF wf, of k] by (simp add: client_inv_def nth_append)
  qed
  then show ?thesis
    using inv True l insert_new_wf [OF wf] insert_new_simps(1) [of "req_id req" ?t]
    by (simp add: request_insert_def client_inv_def table_step_def)
qed (simp add: request_insert_def)

lemma client_inv_outbound: "client_inv c \<Longrightarrow> outbound_send env c = Some c' \<Longrightarrow> client_inv c'"
  by (auto simp: outbound_send_def split: if_splits elim!: client_inv_cong [rotated 4])

lemma client_inv_send:
  assumes inv: "client_inv c"
  shows "client_inv (request_send k c)"
proof (cases "k < length (ot_calls c) \<and> call_phase (ot_calls c ! k) = Inserted")
  case True
  let ?req = "call_req (ot_calls c ! k)"
  show ?thesis
  proof (cases "outbound_send (Request ?req) c")
    case None
    let ?c = "on_table (TRemove (req_id ?req)) c"
    have c: "client_inv ?c" by (rule client_inv_table [OF inv]) simp
    have "fmlookup (ct_map (ot_table ?c)) (req_id ?req) = None" by (simp add: table_step_def lookup_take_out)
    moreover have key: "key_of (ot_table ?c) k = req_id ?req" and k: "k < length (ct_shots (ot_table ?c))"
      using c True by (auto simp: client_inv_def call_ok_def)
    ultimately have "outcome (ot_table ?c) k \<noteq> Waiting"
      using c unfolding client_inv_def table_wf_def by (metis option.distinct(1))
    then have "client_inv (set_phase k (Done (Inl Disconnected)) ?c)"
      using True key by (intro client_inv_phase [OF c]) (simp_all add: call_ok_def)
    then show ?thesis using True None by (simp add: request_send_def)
  next
    case (Some c')
    have c: "client_inv c'" by (rule client_inv_outbound [OF inv Some])
    have "ot_calls c' = ot_calls c" using Some by (auto simp: outbound_send_def split: if_splits)
    then have "client_inv (set_phase k Awaiting c')"
      using True c by (intro client_inv_phase) (auto simp: client_inv_def call_ok_def)
    then show ?thesis using True Some by (simp add: request_send_def)
  qed
next
  case False
  then have "request_send k c = c" by (auto simp: request_send_def)
  then show ?thesis using inv by simp
qed

lemma client_inv_poll:
  assumes inv: "client_inv c"
  shows "client_inv (request_poll k c)"
proof -
  have "key_of (ot_table c) k = req_id (call_req (ot_calls c ! k))" if "k < length (ot_calls c)"
    using inv that by (auto simp: client_inv_def call_ok_def)
  moreover have "resp_id r = key_of (ot_table c) k" if "k < length (ot_calls c)" and "outcome (ot_table c) k = Delivered r" for r
    using inv that by (auto simp: client_inv_def table_wf_def)
  ultimately show ?thesis
    using inv by (auto simp: request_poll_def call_ok_def split: shot_state.splits intro!: client_inv_phase)
qed

lemma client_inv_subscribe:
  assumes inv: "client_inv c"
  shows "client_inv (subscribe_send topic c)" "client_inv (subscribe_attach k c)" "client_inv (snd (subscribe_recv k c))"
proof -
  show "client_inv (subscribe_send topic c)"
    using inv by (auto simp: subscribe_send_def outbound_send_def elim!: client_inv_cong [rotated 4])
qed (use inv in \<open>auto simp: subscribe_attach_def subscribe_recv_def split: subscriber.splits prod.splits
    elim!: client_inv_cong [rotated 4]\<close>)

lemma client_inv_select: "client_inv c \<Longrightarrow> ot_pump c = Looping \<Longrightarrow> client_inv (pump_select T J c)"
  by (auto simp: pump_select_def pump_frame_def split: list.splits prod.splits res.splits envelope.splits
      intro!: client_inv_table elim!: client_inv_cong [rotated 4])

lemma client_inv_pump:
  assumes inv: "client_inv c"
  shows "client_inv (pump T J e c)"
proof -
  have "client_inv (c\<lparr>ot_state := Down, ot_pump := Marked\<rparr>)" if "ot_pump c = Broken"
    using inv that by (auto simp: client_inv_def)
  moreover have "client_inv ((on_table TDrain c)\<lparr>ot_pump := Drained\<rparr>)" if "ot_pump c = Marked"
    using client_inv_table [OF inv, of TDrain] that by (auto simp: client_inv_def)
  moreover have "client_inv (c\<lparr>ot_pump := Exited\<rparr>)" if "ot_pump c = Drained"
    using inv that by (auto elim!: client_inv_cong [rotated 4])
  ultimately show ?thesis
    using inv by (auto simp: pump_def client_inv_select split: client_event.splits pump_phase.splits)
qed

lemma client_inv_step: "client_inv c \<Longrightarrow> client_inv (client_step T J c e)"
  by (cases e) (auto simp: client_step_def client_inv_insert client_inv_send client_inv_poll client_inv_subscribe
      client_inv_pump drop_handle_def elim!: client_inv_cong [rotated 4])

lemma subscribe_next_steps:
  "\<exists>n. snd (subscribe_next D k c) = foldl (client_step T J) c (replicate n (SubNext k))"
proof (cases "k < length (ot_subs c) \<and> (\<exists>topic past evs. ot_subs c ! k = Attached topic past evs)")
  case False
  then have "snd (subscribe_next D k c) = c" by (auto simp: subscribe_next_def split: subscriber.split)
  then show ?thesis by (metis foldl_Nil replicate_0)
next
  case True
  then obtain topic past evs where "ot_subs c ! k = Attached topic past evs" and "k < length (ot_subs c)" by blast
  then show ?thesis
  proof (induction evs arbitrary: past c)
    case Nil
    then have "snd (subscribe_next D k c) = foldl (client_step T J) c (replicate 1 (SubNext k))"
      by (simp add: subscribe_next_def client_step_def subscribe_recv_def)
    then show ?case by blast
  next
    case (Cons ev evs)
    let ?c = "client_step T J c (SubNext k)"
    have s: "?c = c\<lparr>ot_subs := (ot_subs c)[k := Attached topic (past @ [ev]) evs]\<rparr>"
      using Cons.prems by (simp add: client_step_def subscribe_recv_def next_item_def)
    show ?case
    proof (cases "D topic past ev")
      case True
      then have "snd (subscribe_next D k c) = foldl (client_step T J) c (replicate 1 (SubNext k))"
        using Cons.prems s by (simp add: subscribe_next_def next_item_def)
      then show ?thesis by blast
    next
      case False
      then have "subscribe_next D k c = subscribe_next D k ?c"
        using Cons.prems by (simp add: subscribe_next_def s)
      moreover obtain n where "snd (subscribe_next D k ?c) = foldl (client_step T J) ?c (replicate n (SubNext k))"
        using Cons.IH [of ?c "past @ [ev]"] Cons.prems by (auto simp: s)
      ultimately have "snd (subscribe_next D k c) = foldl (client_step T J) c (replicate (Suc n) (SubNext k))" by simp
      then show ?thesis by blast
    qed
  qed
qed

interpretation client: step_invariant "client_step T J" "\<lambda>_. True" client_inv
  by unfold_locales (rule client_inv_step)

lemma client_inv_start: "client_inv (new_transport st ses leftover g cap)"
  by (simp add: client_inv_def new_transport_def) (simp add: new_table_def)

end
