(* ===== verification/Tcp_Client_Safety.thy ===== *)
theory Tcp_Client_Safety
  imports Tcp_Client
begin

text \<open>
  What the TCP client promises its callers: a call returns the response to its own request, losing
  the connection ends the calls that wait, and the pump ends only on an error; and the one
  interleaving in which a call waits forever.
\<close>

subsection \<open>What a step can change\<close>

lemma step_table: "ot_table (client_step T J c e) = ot_table c \<or> (\<exists>op. ot_table (client_step T J c e) = table_step (ot_table c) op)"
  by (cases e)
    (auto simp: client_step_def request_insert_def request_send_def outbound_send_def request_poll_def
      subscribe_send_def subscribe_attach_def subscribe_recv_def drop_handle_def pump_def pump_select_def pump_frame_def Let_def
      split: shot_state.splits subscriber.splits prod.splits pump_phase.splits list.splits res.splits envelope.splits option.splits)

lemma set_phase_calls: "ot_calls (set_phase k v c) = (ot_calls c)[k := (ot_calls c ! k)\<lparr>call_phase := v\<rparr>]"
  by (simp add: set_phase_def)

lemma pump_calls [simp]: "ot_calls (pump T J e c) = ot_calls c"
  by (auto simp: pump_def pump_select_def pump_frame_def
      split: client_event.splits pump_phase.splits list.splits prod.splits res.splits envelope.splits)

lemma step_calls:
  assumes "k < length (ot_calls c)"
  shows "k < length (ot_calls (client_step T J c e))"
    and "call_req (ot_calls (client_step T J c e) ! k) = call_req (ot_calls c ! k)"
    and "call_phase (ot_calls c ! k) \<noteq> Inserted \<Longrightarrow> e \<noteq> CallPoll k \<Longrightarrow>
      ot_calls (client_step T J c e) ! k = ot_calls c ! k"
  using assms
  by (cases e;
      auto simp: client_step_def request_insert_def request_send_def outbound_send_def request_poll_def set_phase_calls
        subscribe_send_def subscribe_attach_def subscribe_recv_def drop_handle_def Let_def nth_append nth_list_update
      split: shot_state.splits subscriber.splits prod.splits option.splits)+

lemma step_outcome:
  assumes "client_inv c" and "k < length (ot_calls c)" and "outcome (ot_table c) k \<noteq> Waiting"
  shows "outcome (ot_table (client_step T J c e)) k = outcome (ot_table c) k"
proof -
  have "table_wf (ot_table c)" and "k < length (ct_shots (ot_table c))" using assms by (auto simp: client_inv_def)
  then show ?thesis using step_table [of T J c e] table_step_final [OF _ _ assms(3)] by auto
qed

subsection \<open>Settled calls\<close>

fun result_of :: "'x shot_state \<Rightarrow> 'x core_error + 'x response" where
  "result_of (Delivered r) = Inr r"
| "result_of _ = Inl Disconnected"

definition settled_call :: "nat \<Rightarrow> 'x shot_state \<Rightarrow> ('x, 'g, 's) obfs_transport \<Rightarrow> bool" where
  "settled_call k v c \<longleftrightarrow>
     client_inv c \<and> k < length (ot_calls c) \<and> outcome (ot_table c) k = v \<and> v \<noteq> Waiting \<and>
     call_phase (ot_calls c ! k) \<in> {Awaiting, Done (result_of v)}"

lemma settled_call_poll:
  assumes "settled_call k v c"
  shows "call_phase (ot_calls (client_step T J c (CallPoll k)) ! k) = Done (result_of v)"
  using assms by (cases v) (auto simp: settled_call_def client_step_def request_poll_def)

lemma settled_call_step:
  assumes "settled_call k v c"
  shows "settled_call k v (client_step T J c e)"
proof (cases "e = CallPoll k")
  case True
  then show ?thesis
    using assms settled_call_poll [OF assms] step_outcome [of c k T J e] step_calls(1) [of k c T J e] client_inv_step [of c T J e]
    by (auto simp: settled_call_def)
next
  case False
  then show ?thesis
    using assms step_outcome [of c k T J e] step_calls(1) [of k c T J e] step_calls(3) [of k c e T J] client_inv_step [of c T J e]
    by (auto simp: settled_call_def)
qed

interpretation settled: step_invariant "client_step T J" "\<lambda>_. True" "settled_call k v"
  by unfold_locales (rule settled_call_step)

lemma drain_settles:
  assumes "client_inv c" and "ot_pump c = Marked" and "k < length (ot_calls c)" and "call_phase (ot_calls c ! k) = Awaiting"
  shows "settled_call k (if outcome (ot_table c) k = Waiting then Dropped else outcome (ot_table c) k) (client_step T J c PumpDrain)"
proof -
  have "table_wf (ot_table c)" and "k < length (ct_shots (ot_table c))" using assms by (auto simp: client_inv_def)
  then show ?thesis
    using assms client_inv_step [OF assms(1), of T J PumpDrain] outcome_drain [of "ot_table c" k]
    by (auto simp: settled_call_def client_step_def pump_def table_step_def)
qed

subsection \<open>A call that nobody will answer\<close>

definition fresh_id :: "string \<Rightarrow> 'x client_event \<Rightarrow> bool" where
  "fresh_id key e \<longleftrightarrow> (case e of Call req \<Rightarrow> req_id req \<noteq> key | _ \<Rightarrow> True)"

definition hanging :: "nat \<Rightarrow> string \<Rightarrow> ('x, 'g, 's) obfs_transport \<Rightarrow> bool" where
  "hanging k key c \<longleftrightarrow>
     client_inv c \<and> ot_pump c = Exited \<and> k < length (ot_calls c) \<and> call_phase (ot_calls c ! k) = Awaiting \<and>
     outcome (ot_table c) k = Waiting \<and> req_id (call_req (ot_calls c ! k)) = key \<and>
     (\<forall>j < length (ot_calls c). j \<noteq> k \<longrightarrow> req_id (call_req (ot_calls c ! j)) \<noteq> key)"

lemma exited_table_op:
  assumes "ot_pump c = Exited"
  shows "ot_table (client_step T J c e) = ot_table c \<or>
    (\<exists>req. e = Call req \<and> ot_table (client_step T J c e) = table_step (ot_table c) (TInsert (req_id req))) \<or>
    (\<exists>j < length (ot_calls c). call_phase (ot_calls c ! j) = Inserted \<and>
       ot_table (client_step T J c e) = table_step (ot_table c) (TRemove (req_id (call_req (ot_calls c ! j)))))"
  using assms
  by (cases e) (auto simp: client_step_def request_insert_def request_send_def outbound_send_def request_poll_def
      subscribe_send_def subscribe_attach_def subscribe_recv_def drop_handle_def pump_def Let_def
      split: shot_state.splits subscriber.splits prod.splits option.splits)

lemma exited_stays: "ot_pump c = Exited \<Longrightarrow> ot_pump (client_step T J c e) = Exited"
  by (cases e) (auto simp: client_step_def request_insert_def request_send_def outbound_send_def request_poll_def
      subscribe_send_def subscribe_attach_def subscribe_recv_def drop_handle_def pump_def Let_def
      split: shot_state.splits subscriber.splits prod.splits option.splits)

lemma hanging_waits:
  assumes h: "hanging k key c" and "fresh_id key e"
  shows "outcome (ot_table (client_step T J c e)) k = Waiting"
proof -
  have wf: "table_wf (ot_table c)" "k < length (ct_shots (ot_table c))" and key: "key_of (ot_table c) k = key"
    using h by (auto simp: hanging_def client_inv_def call_ok_def)
  have "outcome (table_step (ot_table c) (TInsert id)) k = Waiting" if "id \<noteq> key" for id
    using h that key by (intro table_step_waiting [OF wf]) (auto simp: hanging_def)
  moreover have "outcome (table_step (ot_table c) (TRemove id)) k = Waiting" if "id \<noteq> key" for id
    using h that key by (intro table_step_waiting [OF wf]) (auto simp: hanging_def)
  moreover have "req_id (call_req (ot_calls c ! j)) \<noteq> key" if "j < length (ot_calls c)" "call_phase (ot_calls c ! j) = Inserted" for j
    using h that by (cases "j = k") (auto simp: hanging_def)
  ultimately show ?thesis
    using h assms(2) exited_table_op [of c T J e] by (auto simp: hanging_def fresh_id_def)
qed

lemma step_new_calls:
  "length (ot_calls (client_step T J c e)) = length (ot_calls c) \<or>
   (\<exists>req. e = Call req \<and> ot_calls (client_step T J c e) = ot_calls c @ [\<lparr>call_req = req, call_phase = Inserted\<rparr>])"
  by (cases e) (auto simp: client_step_def request_insert_def request_send_def outbound_send_def request_poll_def set_phase_calls
      subscribe_send_def subscribe_attach_def subscribe_recv_def drop_handle_def Let_def
      split: shot_state.splits subscriber.splits prod.splits option.splits)

lemma hanging_step:
  assumes h: "hanging k key c" and e: "fresh_id key e"
  shows "hanging k key (client_step T J c e)"
proof -
  let ?c = "client_step T J c e"
  have k: "k < length (ot_calls c)" "call_phase (ot_calls c ! k) = Awaiting" "outcome (ot_table c) k = Waiting"
    using h by (auto simp: hanging_def)
  have same: "ot_calls ?c ! k = ot_calls c ! k"
  proof (cases "e = CallPoll k")
    case True
    then show ?thesis using k by (simp add: client_step_def request_poll_def)
  qed (use k step_calls(3) [of k c e T J] in auto)
  have "req_id (call_req (ot_calls ?c ! j)) \<noteq> key" if j: "j < length (ot_calls ?c)" "j \<noteq> k" for j
  proof (cases "j < length (ot_calls c)")
    case True
    then show ?thesis using step_calls(2) [OF True, of T J e] h j by (auto simp: hanging_def)
  next
    case False
    then show ?thesis using step_new_calls [of T J c e] e j by (auto simp: fresh_id_def nth_append)
  qed
  then show ?thesis
    using h same hanging_waits [OF h e] step_calls(1) [OF k(1), of T J e] exited_stays [of c T J e] client_inv_step [of c T J e]
    by (auto simp: hanging_def)
qed

interpretation hung: step_invariant "client_step T J" "fresh_id key" "hanging k key"
  by unfold_locales (rule hanging_step)

lemma hanging_start:
  assumes inv: "client_inv c" and d: "ot_pump c = Drained" "ot_alive c"
    and f: "\<forall>cl \<in> set (ot_calls c). req_id (call_req cl) \<noteq> req_id req"
  shows "hanging (length (ot_calls c)) (req_id req)
    (foldl (client_step T J) c [Call req, CallSend (length (ot_calls c)), PumpExit])"
proof -
  let ?k = "length (ot_calls c)"
  let ?c = "foldl (client_step T J) c [Call req, CallSend ?k, PumpExit]"
  have l: "length (ct_shots (ot_table c)) = ?k" using inv by (simp add: client_inv_def)
  have "client_inv ?c" by (rule client.run_inv [OF inv]) (simp add: list_all_iff)
  moreover have "ot_table ?c = insert_new (req_id req) (ot_table c)" "ot_pump ?c = Exited"
    "ot_calls ?c = ot_calls c @ [\<lparr>call_req = req, call_phase = Awaiting\<rparr>]"
    using d by (simp_all add: client_step_def request_insert_def request_send_def outbound_send_def pump_def set_phase_calls
        table_step_def Let_def)
  ultimately show ?thesis
    using f l insert_new_simps(6) [of "req_id req" "ot_table c"] by (auto simp: hanging_def nth_append)
qed

lemma link_send_not_Blocked: "fst (link_send T J env l) \<noteq> Blocked"
  by (auto simp: link_send_def send_frame_def write_all_def split: prod.splits sum.splits option.splits)

subsection \<open>Concrete runs\<close>

definition idle_client :: "(unit, nat, nat \<times> nat) obfs_transport" where
  "idle_client = new_transport (new_stream [] Open) (0, 0) [] 0 None"

definition ask :: "unit request" where
  "ask = \<lparr>req_id = ''a'', req_body = ()\<rparr>"

text \<open>A request is sent, then the server closes the connection.\<close>

definition lost_call :: "unit client_event list" where
  "lost_call = [Call ask, CallSend 0, PumpRound, NetInput [] Eof, PumpRound, PumpMark]"

lemma lost_call_run:
  "ot_pump (foldl (client_step demo_tcp plain_serde) idle_client lost_call) = Marked"
  "ot_calls (foldl (client_step demo_tcp plain_serde) idle_client lost_call) = [\<lparr>call_req = ask, call_phase = Awaiting\<rparr>]"
  "ot_alive (foldl (client_step demo_tcp plain_serde) idle_client lost_call)"
  by (simp_all add: lost_call_def idle_client_def ask_def new_transport_def client_step_def request_insert_def request_send_def
      on_table_def outbound_send_def set_phase_def pump_def pump_select_def link_send_def link_recv_def net_input_def arrive_def
      new_stream_def demo_tcp_def short_frames_def duplex_def plain_serde_def send_frame_def write_all_def
      recv_frame.simps read_some_def READ_CHUNK_def eof_error_def)

subsection \<open>Properties\<close>

text \<open>
  C32. In every interleaving of calls, pump steps and network events on a new transport, the table of
  pending requests is well formed, a call that has returned a response returned one whose id is its
  request's, delivered on its own channel, a call fails only with \<open>Disconnected\<close> and only once it is
  out of the table, and the state is down exactly from the pump's marking on.
\<close>

theorem tcp_client_invariant: "client_inv (foldl (client_step T J) (new_transport st session leftover g cap) es)"
  by (rule client.run_inv [OF client_inv_start]) (simp add: list_all_iff)

text \<open>
  C9. Losing the connection ends every waiting call: once the pump has marked the transport as down,
  its next step, the drain, settles all calls that wait, and whatever happens in between, the next
  poll of such a call returns: with its response if that was delivered before, else with
  \<open>Disconnected\<close>.
\<close>

theorem disconnect_ends_calls:
  assumes "c = foldl (client_step T J) (new_transport st session leftover g cap) es" and "ot_pump c = Marked"
    and "k < length (ot_calls c)" and "call_phase (ot_calls c ! k) = Awaiting"
  shows "call_phase (ot_calls (foldl (client_step T J) (client_step T J c PumpDrain) (es' @ [CallPoll k])) ! k) =
    Done (result_of (outcome (ot_table c) k))"
proof -
  let ?v = "if outcome (ot_table c) k = Waiting then Dropped else outcome (ot_table c) k"
  have "client_inv c" unfolding assms(1) by (rule client.run_inv [OF client_inv_start]) (simp add: list_all_iff)
  from drain_settles [OF this assms(2-4)]
  have "settled_call k ?v (foldl (client_step T J) (client_step T J c PumpDrain) es')"
    by (rule settled.run_inv) (simp add: list_all_iff)
  from settled_call_poll [OF this, of T J] show ?thesis by (cases "outcome (ot_table c) k") simp_all
qed

theorem disconnect_ends_calls_witness:
  "let c = foldl (client_step demo_tcp plain_serde) idle_client lost_call
   in call_phase (ot_calls (foldl (client_step demo_tcp plain_serde) (client_step demo_tcp plain_serde c PumpDrain)
        ([PumpExit] @ [CallPoll 0])) ! 0) = Done (result_of (outcome (ot_table c) 0))"
  unfolding Let_def
  by (rule disconnect_ends_calls [where T = demo_tcp and J = plain_serde and st = "new_stream [] Open" and session = "(0, 0)"
        and leftover = "[]" and g = 0 and cap = None and es = lost_call])
    (simp_all add: idle_client_def [symmetric] lost_call_run)

text \<open>
  C34. A call can wait forever. If a request is inserted and sent after the pump has drained the table
  and before it has dropped the receiver, both steps succeed and the call awaits a channel whose
  sender stays in the table: it never returns, whatever happens, unless another request uses its id.
\<close>

theorem late_request_hangs:
  assumes "c = foldl (client_step T J) (new_transport st session leftover g cap) es" and "ot_pump c = Drained" and "ot_alive c"
    and "\<forall>cl \<in> set (ot_calls c). req_id (call_req cl) \<noteq> req_id req" and "list_all (fresh_id (req_id req)) es'"
  shows "call_phase (ot_calls (foldl (client_step T J) c
      ([Call req, CallSend (length (ot_calls c)), PumpExit] @ es')) ! length (ot_calls c)) = Awaiting"
proof -
  have "client_inv c" unfolding assms(1) by (rule client.run_inv [OF client_inv_start]) (simp add: list_all_iff)
  from hung.run_inv [OF hanging_start [OF this assms(2-4), of T J] assms(5), of T J]
  show ?thesis by (simp add: hanging_def)
qed

theorem late_request_hangs_witness:
  "let c = foldl (client_step demo_tcp plain_serde) idle_client (lost_call @ [PumpDrain])
   in call_phase (ot_calls (foldl (client_step demo_tcp plain_serde) c
        ([Call \<lparr>req_id = ''b'', req_body = ()\<rparr>, CallSend (length (ot_calls c)), PumpExit] @
         [CallPoll 1, PumpRound, CallPoll 1])) ! length (ot_calls c)) = Awaiting"
  unfolding Let_def
  by (rule late_request_hangs [where T = demo_tcp and J = plain_serde and st = "new_stream [] Open" and session = "(0, 0)"
        and leftover = "[]" and g = 0 and cap = None and es = "lost_call @ [PumpDrain]"])
    (simp_all add: idle_client_def [symmetric] lost_call_run client_step_def [of _ _ _ PumpDrain] pump_def ask_def fresh_id_def
      on_table_def)

text \<open>
  The pump leaves its loop only on an error: a frame that cannot be sent, or a receive that fails.
  Dropping the transport handle, which closes the outbound channel, is not among the reasons.
\<close>

theorem pump_ends_on_error:
  assumes "ot_pump c = Looping"
  shows "ot_pump (client_step T J c e) \<noteq> Looping \<longleftrightarrow>
    e = PumpRound \<and>
    (case lk_queue (ot_link c) of
       env # q \<Rightarrow> (\<exists>err l. link_send T J env ((ot_link c)\<lparr>lk_queue := q\<rparr>) = (Err err, l))
     | [] \<Rightarrow> (\<exists>err l. link_recv T J (ot_link c) = (Err err, l)))"
  using assms link_send_not_Blocked [of T J]
  by (cases e) (auto simp: client_step_def request_insert_def request_send_def outbound_send_def request_poll_def
      subscribe_send_def subscribe_attach_def subscribe_recv_def drop_handle_def pump_def pump_select_def pump_frame_def Let_def
      split: shot_state.splits subscriber.splits prod.splits option.splits list.splits res.splits envelope.splits,
      (metis fst_conv)+)

theorem pump_ends_on_error_witness:
  "ot_pump (client_step demo_tcp plain_serde (idle_client\<lparr>ot_alive := False\<rparr>) PumpRound) = Looping"
proof -
  let ?c = "idle_client\<lparr>ot_alive := False\<rparr>"
  have c: "ot_pump ?c = Looping" "lk_queue (ot_link ?c) = []"
    by (simp_all add: idle_client_def new_transport_def)
  have "fst (link_recv demo_tcp plain_serde (ot_link ?c)) = Blocked"
    by (simp add: idle_client_def new_transport_def link_recv_def demo_tcp_def short_frames_def recv_frame.simps
        new_stream_def read_some_def)
  then show ?thesis using pump_ends_on_error [OF c(1), of demo_tcp plain_serde PumpRound] c(2) by auto
qed

end
