(* ===== verification/Tcp_Round_Trip.thy ===== *)
theory Tcp_Round_Trip
  imports Tcp_Server Tcp_Client_Safety
begin

text \<open>
  Client and server together, over a network that cuts the bytes into arbitrary segments: the parts
  of a request's way from the caller to the service and back.
\<close>

lemma net_input_simps [simp]:
  "rx_end st = Open \<Longrightarrow> flat (net_input cs e st) = flat st @ concat cs"
  "tx (net_input cs e st) = tx st" "tx_cap (net_input cs e st) = tx_cap st"
  by (simp_all add: net_input_def arrive_def flat_def)

text \<open>An idle connection: nothing queued, nothing unread, both directions open.\<close>

definition idle_link :: "('x, 'g, 's) link \<Rightarrow> bool" where
  "idle_link l \<longleftrightarrow> lk_queue l = [] \<and> unread l = [] \<and> rx_end (lk_stream l) = Open \<and> tx_cap (lk_stream l) = None"

definition idle_transport :: "('x, 'g, 's) obfs_transport \<Rightarrow> bool" where
  "idle_transport c \<longleftrightarrow> client_inv c \<and> ot_pump c = Looping \<and> ot_alive c \<and> idle_link (ot_link c)"

lemma client_sends:
  assumes c: "idle_transport c" and snd: "sendable T J (Request req)" and dc: "duplex_contract (tcp_session T) fwd"
  obtains c1 w l1 where
    "foldl (client_step T J) c [Call req, CallSend (length (ot_calls c)), PumpRound] = c1"
    and "ot_link c1 = l1" and "ot_pump c1 = Looping" and "ot_table c1 = insert_new (req_id req) (ot_table c)"
    and "ot_calls c1 = ot_calls c @ [\<lparr>call_req = req, call_phase = Awaiting\<rparr>]"
    and "tx (lk_stream l1) = tx (lk_stream (ot_link c)) @ w" and "idle_link l1"
    and "frames T J (lk_session (ot_link c)) [Request req] w (lk_session l1)"
    and "\<And>x. fwd x (lk_session (ot_link c)) \<Longrightarrow> fwd x (lk_session l1)"
proof -
  let ?l = "ot_link c"
  have q: "lk_queue ?l = []" and cap: "tx_cap (lk_stream ?l) = None" using c by (auto simp: idle_transport_def idle_link_def)
  from link_send_sendable [OF snd cap] obtain w ses g where
    ls: "link_send T J (Request req) ?l =
      (Ok (), ?l\<lparr>lk_stream := (lk_stream ?l)\<lparr>tx := tx (lk_stream ?l) @ w\<rparr>, lk_session := ses, lk_rng := g\<rparr>)"
    and fr: "frames T J (lk_session ?l) [Request req] w ses" and k: "\<And>x. fwd x (lk_session ?l) \<Longrightarrow> fwd x ses"
    using dc by metis
  let ?l1 = "?l\<lparr>lk_stream := (lk_stream ?l)\<lparr>tx := tx (lk_stream ?l) @ w\<rparr>, lk_session := ses, lk_rng := g\<rparr>"
  have l0: "?l\<lparr>lk_queue := []\<rparr> = ?l" using q by (cases ?l) simp
  have ls': "link_send T J (Request req) (?l\<lparr>lk_queue := []\<rparr>) = (Ok (), ?l1)" unfolding l0 by (rule ls)
  show thesis
  proof (rule that [OF refl refl])
    let ?c = "foldl (client_step T J) c [Call req, CallSend (length (ot_calls c)), PumpRound]"
    have "ot_link ?c = ?l1 \<and> ot_pump ?c = Looping \<and> ot_table ?c = insert_new (req_id req) (ot_table c) \<and>
        ot_calls ?c = ot_calls c @ [\<lparr>call_req = req, call_phase = Awaiting\<rparr>]"
      using c q by (simp add: idle_transport_def client_step_def request_insert_def request_send_def outbound_send_def
          pump_def pump_select_def set_phase_def on_table_def table_step_def Let_def ls')
    then show "ot_pump ?c = Looping" and "ot_table ?c = insert_new (req_id req) (ot_table c)"
      and "ot_calls ?c = ot_calls c @ [\<lparr>call_req = req, call_phase = Awaiting\<rparr>]"
      and "tx (lk_stream (ot_link ?c)) = tx (lk_stream ?l) @ w" and "idle_link (ot_link ?c)"
      and "frames T J (lk_session ?l) [Request req] w (lk_session (ot_link ?c))"
      and "\<And>x. fwd x (lk_session ?l) \<Longrightarrow> fwd x (lk_session (ot_link ?c))"
      using c fr k by (simp_all add: idle_transport_def idle_link_def unread_def)
  qed
qed

lemma server_answers:
  assumes fc: "frame_contract (tcp_profile (tc_ctx K))" and dc: "duplex_contract (tcp_session (tc_ctx K)) fwd"
    and sv: "servable K req" and fr: "frames (tc_ctx K) (tc_json K) a [Request req] w a'"
    and up: "up_links s i key l" and idle: "idle_link l" and fwd: "fwd a (lk_session l)" and cs: "concat cs = w"
  obtains l1 v where "up_links (foldl (tcp_step K) s [Input i cs Open, Poll i]) i key l1"
    and "ts_handled (foldl (tcp_step K) s [Input i cs Open, Poll i]) = ts_handled s @ [req]"
    and "tx (lk_stream l1) = tx (lk_stream l) @ v"
    and "\<And>x. fwd (lk_session l) x \<Longrightarrow> \<exists>x'. receives (tc_ctx K) (tc_json K) x
          [Response (svc_handle (tc_service K) (ts_handled s) req)] v x'"
proof -
  let ?l = "l\<lparr>lk_stream := net_input cs Open (lk_stream l)\<rparr>"
  let ?s = "tcp_step K s (Input i cs Open)"
  have s: "up_links ?s i key ?l" "ts_handled ?s = ts_handled s"
    using up by (simp_all add: tcp_step_def on_stream_def up_links_def)
  have u: "unread ?l = w @ []" using idle cs by (auto simp: unread_def idle_link_def)
  have send: "sendable (tc_ctx K) (tc_json K) (Response (svc_handle (tc_service K) (ts_handled ?s) req))"
    and sd: "serde_ok (tc_json K) (Request req)" using sv by (auto simp: servable_def)
  have "lk_queue ?l = []" "tx_cap (lk_stream ?l) = None" "fwd a (lk_session ?l)" using idle fwd by (auto simp: idle_link_def)
  from serve_one [OF fc dc sd send fr s(1) this(1,2) u this(3)] obtain l1 v where
    st:
    "tcp_step K ?s (Poll i) = set_task i (Up key l1) (?s\<lparr>ts_handled := ts_handled ?s @ [req]\<rparr>)"
    and tx1: "tx (lk_stream l1) = tx (lk_stream ?l) @ v"
    and rcv: "\<And>x. fwd (lk_session ?l) x \<Longrightarrow> \<exists>x'. receives (tc_ctx K) (tc_json K) x
          [Response (svc_handle (tc_service K) (ts_handled ?s) req)] v x' \<and> fwd (lk_session l1) x'"
    by metis
  show thesis
  proof (rule that [of l1 v])
    show "\<exists>x'. receives (tc_ctx K) (tc_json K) x [Response (svc_handle (tc_service K) (ts_handled s) req)] v x'"
      if "fwd (lk_session l) x" for x using rcv [of x] that s(2) by auto
  qed (use st tx1 s in \<open>simp_all add: up_links_def\<close>)
qed

lemma client_gets:
  assumes fc: "frame_contract (tcp_profile T)" and inv: "client_inv c" and p: "ot_pump c1 = Looping"
    and t: "ot_table c1 = insert_new (req_id req) (ot_table c)"
    and cl: "ot_calls c1 = ot_calls c @ [\<lparr>call_req = req, call_phase = Awaiting\<rparr>]" and idle: "idle_link (ot_link c1)"
    and rc: "receives T J (lk_session (ot_link c1)) [Response resp] v x'" and ds: "concat ds = v"
    and id: "resp_id resp = req_id req"
  shows "call_phase (ot_calls (foldl (client_step T J) c1 [NetInput ds Open, PumpRound, CallPoll (length (ot_calls c))])
    ! length (ot_calls c)) = Done (Inr resp)"
proof -
  let ?k = "length (ot_calls c)"
  let ?c = "client_step T J c1 (NetInput ds Open)"
  let ?l = "ot_link ?c"
  have l: "lk_session ?l = lk_session (ot_link c1)" "lk_queue ?l = []" "unread ?l = v @ []"
    and c: "ot_pump ?c = Looping" "ot_table ?c = ot_table c1" "ot_calls ?c = ot_calls c1"
    using idle ds p by (simp_all add: client_step_def idle_link_def unread_def)
  obtain l' where r: "link_recv T J ?l = (Ok (Response resp), l')"
    using link_recv_receives [of T J ?l "Response resp" "[]" v x' "[]"] rc fc l by metis
  let ?c2 = "client_step T J ?c PumpRound"
  have c2: "ot_table ?c2 = take_out (req_id req) (Delivered resp) (ot_table c1)" "ot_calls ?c2 = ot_calls c1"
    using c l r id by (simp_all add: client_step_def pump_def pump_select_def pump_frame_def table_step_def)
  have n: "length (ct_shots (ot_table c)) = ?k" using inv by (simp add: client_inv_def)
  have "fmlookup (ct_map (ot_table c1)) (req_id req) = Some ?k" "?k < length (ct_shots (ot_table c1))"
    using n t by (simp_all add: insert_new_simps)
  then have "outcome (ot_table ?c2) ?k = Delivered resp" using c2 by (simp add: outcome_take_out)
  then have "call_phase (ot_calls (client_step T J ?c2 (CallPoll ?k)) ! ?k) = Done (Inr resp)"
    using c2 cl by (simp add: client_step_def [of _ _ ?c2] request_poll_def)
  then show ?thesis by simp
qed

end
