(* ===== verification/Tcp_Subscription.thy ===== *)
theory Tcp_Subscription
  imports Tcp_Round_Trip
begin

text \<open>
  A subscription over TCP, client and server together: the Subscribe envelope on its way to the
  server, the events of the topic on their way back, in the order of their publication.
\<close>

definition ready_link :: "('x, 'g, 's) link \<Rightarrow> bool" where
  "ready_link l \<longleftrightarrow> lk_queue l = [] \<and> tx_cap (lk_stream l) = None"

lemma ready_unqueue: "ready_link l \<Longrightarrow> l\<lparr>lk_queue := []\<rparr> = l"
  by (cases l) (simp add: ready_link_def)

subsection \<open>Subscribing\<close>

lemma client_subscribes:
  assumes c: "idle_transport c" and snd: "sendable T J (Subscribe topic None (ot_capability c))" and dc: "duplex_contract (tcp_session T) fwd"
  obtains w where
    "tx (lk_stream (ot_link (foldl (client_step T J) c [SubSend topic, SubAttach (length (ot_subs c)), PumpRound]))) = tx (lk_stream (ot_link c)) @ w"
    and "idle_link (ot_link (foldl (client_step T J) c [SubSend topic, SubAttach (length (ot_subs c)), PumpRound]))"
    and "ot_pump (foldl (client_step T J) c [SubSend topic, SubAttach (length (ot_subs c)), PumpRound]) = Looping"
    and "ot_subs (foldl (client_step T J) c [SubSend topic, SubAttach (length (ot_subs c)), PumpRound]) = ot_subs c @ [Attached topic [] []]"
    and "frames T J (lk_session (ot_link c)) [Subscribe topic None (ot_capability c)] w
      (lk_session (ot_link (foldl (client_step T J) c [SubSend topic, SubAttach (length (ot_subs c)), PumpRound])))"
    and "\<And>x. fwd x (lk_session (ot_link c)) \<Longrightarrow>
      fwd x (lk_session (ot_link (foldl (client_step T J) c [SubSend topic, SubAttach (length (ot_subs c)), PumpRound])))"
proof -
  let ?l = "ot_link c"
  let ?env = "Subscribe topic None (ot_capability c)"
  let ?c = "foldl (client_step T J) c [SubSend topic, SubAttach (length (ot_subs c)), PumpRound]"
  have l: "idle_link ?l" and p: "ot_pump c = Looping" "ot_alive c" using c by (simp_all add: idle_transport_def)
  then have q: "lk_queue ?l = []" and cap: "tx_cap (lk_stream ?l) = None" by (simp_all add: idle_link_def)
  from link_send_sendable [OF snd cap] obtain w ses g where
    ls: "link_send T J ?env ?l = (Ok (), ?l\<lparr>lk_stream := (lk_stream ?l)\<lparr>tx := tx (lk_stream ?l) @ w\<rparr>, lk_session := ses, lk_rng := g\<rparr>)"
    and fr: "frames T J (lk_session ?l) [?env] w ses" and k: "\<And>x. fwd x (lk_session ?l) \<Longrightarrow> fwd x ses"
    using dc by metis
  have l0: "?l\<lparr>lk_queue := []\<rparr> = ?l" using q by (cases ?l) simp
  have e: "ot_link ?c = ?l\<lparr>lk_stream := (lk_stream ?l)\<lparr>tx := tx (lk_stream ?l) @ w\<rparr>, lk_session := ses, lk_rng := g\<rparr>"
    "ot_pump ?c = Looping" "ot_subs ?c = ot_subs c @ [Attached topic [] []]"
    using p q ls by (simp_all add: client_step_def subscribe_send_def subscribe_attach_def outbound_send_def pump_def pump_select_def l0)
  show thesis by (rule that [of w]) (use e l fr k in \<open>simp_all add: idle_link_def unread_def\<close>)
qed

lemma server_subscribes:
  assumes fc: "frame_contract (tcp_profile (tc_ctx K))" and dc: "duplex_contract (tcp_session (tc_ctx K)) fwd"
    and sd: "serde_ok (tc_json K) (Subscribe topic None cap)" and ok: "svc_verify_topic (tc_service K) cap topic = Inr ()"
    and src: "svc_event_source (tc_service K) topic = Some src"
    and fr: "frames (tc_ctx K) (tc_json K) a [Subscribe topic None cap] w a'"
    and up: "up_links s i key l" and idle: "idle_link l" and fwd: "fwd a (lk_session l)" and cs: "concat cs = w"
  obtains l1 where "up_links (foldl (tcp_step K) s [Input i cs Open, Poll i]) i key l1"
    and "ts_subs (foldl (tcp_step K) s [Input i cs Open, Poll i]) = ts_subs s @ [\<lparr>sub_source = src, sub_topic = topic, sub_conn = i\<rparr>]"
    and "ready_link l1" and "tx (lk_stream l1) = tx (lk_stream l)" and "\<And>x. fwd (lk_session l) x \<Longrightarrow> fwd (lk_session l1) x"
proof -
  let ?l = "l\<lparr>lk_stream := net_input cs Open (lk_stream l)\<rparr>"
  let ?s = "tcp_step K s (Input i cs Open)"
  have s: "up_links ?s i key ?l" "ts_subs ?s = ts_subs s"
    using up by (simp_all add: tcp_step_def on_stream_def up_links_def)
  have u: "unread ?l = w @ []" using idle cs by (auto simp: unread_def idle_link_def)
  have "fwd a (lk_session ?l)" using fwd by simp
  from link_recv_frames [OF fr fc dc sd this u] obtain st ses buf where
    rc: "link_recv (tc_ctx K) (tc_json K) ?l = (Ok (Subscribe topic None cap), ?l\<lparr>lk_stream := st, lk_session := ses, lk_buf := buf\<rparr>)"
    and t: "tx st = tx (lk_stream ?l)" "tx_cap st = tx_cap (lk_stream ?l)" and keep: "\<And>x. fwd (lk_session ?l) x \<Longrightarrow> fwd ses x" by metis
  let ?l1 = "?l\<lparr>lk_stream := st, lk_session := ses, lk_buf := buf\<rparr>"
  have q: "lk_queue ?l = []" "tx_cap (lk_stream l) = None" using idle by (simp_all add: idle_link_def)
  have e: "tcp_step K ?s (Poll i) = set_task i (Up key ?l1) (?s\<lparr>ts_subs := ts_subs ?s @ [\<lparr>sub_source = src, sub_topic = topic, sub_conn = i\<rparr>]\<rparr>)"
    using s(1) q rc ok src
    by (simp add: tcp_step_def [of K ?s] handle_connection_def up_links_def pump_round_def handle_frame_def handle_subscribe_def)
  show thesis
    by (rule that [of ?l1]) (use e s up q t keep in \<open>simp_all add: up_links_def ready_link_def\<close>)
qed

subsection \<open>Publishing\<close>

lemma forward_event_filter:
  "forward_event a ev [] n ss s =
     foldl (\<lambda>s sub. push_event (sub_conn sub) ev s) s (filter (\<lambda>sub. sub_source sub = a \<and> sub_topic sub = ev_topic ev) ss)"
  by (induction ss arbitrary: n s) auto

lemma publish_one:
  assumes "up_links s i key l" and "ready_link l" and "sendable (tc_ctx K) (tc_json K) (Event ev)"
    and "filter (\<lambda>sub. sub_source sub = src \<and> sub_topic sub = ev_topic ev) (ts_subs s) = [sub]" and "sub_conn sub = i"
  obtains l1 v where "up_links (foldl (tcp_step K) s [TcpPublish src ev [], Poll i]) i key l1"
    and "ts_subs (foldl (tcp_step K) s [TcpPublish src ev [], Poll i]) = ts_subs s" and "ready_link l1"
    and "tx (lk_stream l1) = tx (lk_stream l) @ v" and "frames (tc_ctx K) (tc_json K) (lk_session l) [Event ev] v (lk_session l1)"
proof -
  let ?l = "l\<lparr>lk_queue := [Event ev]\<rparr>"
  let ?s = "tcp_step K s (TcpPublish src ev [])"
  have s: "?s = set_task i (Up key ?l) s"
    using assms by (simp add: tcp_step_def forward_event_filter push_event_def up_links_def ready_link_def)
  have cap: "tx_cap (lk_stream l) = None" using assms(2) by (simp add: ready_link_def)
  from link_send_sendable [OF assms(3) cap] obtain v ses g where
    ls: "link_send (tc_ctx K) (tc_json K) (Event ev) l = (Ok (), l\<lparr>lk_stream := (lk_stream l)\<lparr>tx := tx (lk_stream l) @ v\<rparr>, lk_session := ses, lk_rng := g\<rparr>)"
    and fr: "frames (tc_ctx K) (tc_json K) (lk_session l) [Event ev] v ses" by metis
  let ?l1 = "l\<lparr>lk_stream := (lk_stream l)\<lparr>tx := tx (lk_stream l) @ v\<rparr>, lk_session := ses, lk_rng := g\<rparr>"
  have "pump_round K i key ?l ?s = set_task i (Up key ?l1) ?s"
    using ls by (simp add: pump_round_def reply_def ready_unqueue [OF assms(2)])
  then have e: "tcp_step K ?s (Poll i) = set_task i (Up key ?l1) ?s"
    using assms(1) by (simp add: tcp_step_def [of K _ "Poll i"] handle_connection_def s up_links_def)
  show thesis
    by (rule that [of ?l1 v]) (use e s assms(1,2) fr in \<open>simp_all add: up_links_def ready_link_def\<close>)
qed

lemma publish_all:
  assumes "\<And>ev. ev \<in> set evs \<Longrightarrow> sendable (tc_ctx K) (tc_json K) (Event ev) \<and> ev_topic ev = topic"
    and "up_links s i key l" and "ready_link l"
    and "filter (\<lambda>sub. sub_source sub = src \<and> sub_topic sub = topic) (ts_subs s) = [sub]" and "sub_conn sub = i"
  shows "\<exists>l1 v. up_links (foldl (tcp_step K) s (concat (map (\<lambda>ev. [TcpPublish src ev [], Poll i]) evs))) i key l1 \<and>
    tx (lk_stream l1) = tx (lk_stream l) @ v \<and> frames (tc_ctx K) (tc_json K) (lk_session l) (map Event evs) v (lk_session l1)"
  using assms
proof (induction evs arbitrary: s l)
  case Nil
  then show ?case using frames.no_frame by force
next
  case (Cons ev evs)
  have "filter (\<lambda>sub. sub_source sub = src \<and> sub_topic sub = ev_topic ev) (ts_subs s) = [sub]" using Cons.prems(1,4) by simp
  from publish_one [OF Cons.prems(2,3) _ this Cons.prems(5)] Cons.prems(1) obtain l1 v where
    s1: "up_links (foldl (tcp_step K) s [TcpPublish src ev [], Poll i]) i key l1"
      "ts_subs (foldl (tcp_step K) s [TcpPublish src ev [], Poll i]) = ts_subs s" "ready_link l1"
    and v: "tx (lk_stream l1) = tx (lk_stream l) @ v" "frames (tc_ctx K) (tc_json K) (lk_session l) [Event ev] v (lk_session l1)"
    by (metis list.set_intros(1))
  from Cons.IH [OF _ s1(1,3) _ Cons.prems(5)] Cons.prems(1,4) s1(2) obtain l2 v' where
    "up_links (foldl (tcp_step K) (foldl (tcp_step K) s [TcpPublish src ev [], Poll i]) (concat (map (\<lambda>ev. [TcpPublish src ev [], Poll i]) evs))) i key l2"
    "tx (lk_stream l2) = tx (lk_stream l1) @ v'" "frames (tc_ctx K) (tc_json K) (lk_session l1) (map Event evs) v' (lk_session l2)"
    by auto
  with v frames_append [OF v(2)] show ?case by (intro exI [of _ l2] exI [of _ "v @ v'"]) auto
qed

subsection \<open>Receiving\<close>

lemma pump_events:
  assumes fc: "frame_contract (tcp_profile T)"
  shows "ot_pump c = Looping \<Longrightarrow> lk_queue (ot_link c) = [] \<Longrightarrow> unread (ot_link c) = v @ rest \<Longrightarrow>
    receives T J (lk_session (ot_link c)) (map Event evs) v x' \<Longrightarrow> k < length (ot_subs c) \<Longrightarrow> ot_subs c ! k = Attached topic past old \<Longrightarrow>
    length old + length evs \<le> EVENT_CAPACITY \<Longrightarrow>
    (let c' = foldl (client_step T J) c (replicate (length evs) PumpRound)
     in k < length (ot_subs c') \<and> ot_subs c' ! k = Attached topic past (old @ evs) \<and> ot_pump c' = Looping)"
proof (induction evs arbitrary: c v old)
  case (Cons ev evs)
  from Cons.prems(4) have "receives T J (lk_session (ot_link c)) (Event ev # map Event evs) v x'" by simp
  from link_recv_receives [OF this fc Cons.prems(3)] obtain st ses buf v' where
    r: "link_recv T J (ot_link c) = (Ok (Event ev), (ot_link c)\<lparr>lk_stream := st, lk_session := ses, lk_buf := buf\<rparr>)"
    and u: "unread ((ot_link c)\<lparr>lk_stream := st, lk_session := ses, lk_buf := buf\<rparr>) = v' @ rest"
    and rc: "receives T J ses (map Event evs) v' x'" by metis
  let ?c = "client_step T J c PumpRound"
  have c: "?c = c\<lparr>ot_link := (ot_link c)\<lparr>lk_stream := st, lk_session := ses, lk_buf := buf\<rparr>, ot_subs := broadcast ev (ot_subs c)\<rparr>"
    using Cons.prems(1,2) r by (simp add: client_step_def pump_def pump_select_def pump_frame_def)
  have "k < length (ot_subs ?c)" "ot_subs ?c ! k = Attached topic past (old @ [ev])"
    using Cons.prems(5-7) by (simp_all add: c broadcast_def retain_last_def)
  from Cons.IH [of ?c v' "old @ [ev]"] this Cons.prems u rc show ?case by (simp add: c)
qed simp

lemma subscribe_polls_new:
  assumes d: "dedup_contract seq_of D"
  shows "ot_pump c = Looping \<Longrightarrow> k < length (ot_subs c) \<Longrightarrow> ot_subs c ! k = Attached topic past evs \<Longrightarrow>
    (\<And>ev. ev \<in> set evs \<Longrightarrow> ev_topic ev = topic) \<Longrightarrow> sorted_wrt (\<lambda>e e'. seq_of e < seq_of e') (past @ evs) \<Longrightarrow>
    subscribe_polls D k (Suc (length evs)) c = map Item evs @ [Pending_Item]"
proof (induction evs arbitrary: past c)
  case Nil
  then show ?case by (simp add: subscribe_next_def next_item_def)
next
  case (Cons ev evs)
  have "event_stream D topic senders past (ev # evs) = (Item ev, past @ [ev], evs)" for senders
    by (rule event_stream_yields [OF d]) (use Cons.prems(4,5) in \<open>auto simp: sorted_wrt_append\<close>)
  then have n: "subscribe_next D k c = (Item ev, c\<lparr>ot_subs := (ot_subs c)[k := Attached topic (past @ [ev]) evs]\<rparr>)"
    using Cons.prems(2,3) by (simp add: subscribe_next_def del: event_stream.simps)
  have "subscribe_polls D k (Suc (length evs)) (c\<lparr>ot_subs := (ot_subs c)[k := Attached topic (past @ [ev]) evs]\<rparr>) =
      map Item evs @ [Pending_Item]"
    by (rule Cons.IH [where past = "past @ [ev]"]) (use Cons.prems in simp_all)
  then show ?case using n by (simp del: subscribe_polls.simps add: subscribe_polls.simps(2) [of D k "Suc (length evs)"])
qed

lemma client_gets_events:
  assumes "frame_contract (tcp_profile T)" and "ot_pump c = Looping" and "idle_link (ot_link c)" and "k < length (ot_subs c)"
    and "ot_subs c ! k = Attached topic [] []" and "receives T J (lk_session (ot_link c)) (map Event evs) v x" and "concat ds = v"
    and "length evs \<le> EVENT_CAPACITY" and "dedup_contract seq_of D" and "\<And>ev. ev \<in> set evs \<Longrightarrow> ev_topic ev = topic"
    and "sorted_wrt (\<lambda>e e'. seq_of e < seq_of e') evs"
  shows "subscribe_polls D k (Suc (length evs)) (foldl (client_step T J) c (NetInput ds Open # replicate (length evs) PumpRound)) =
    map Item evs @ [Pending_Item]"
proof -
  let ?c = "foldl (client_step T J) c (NetInput ds Open # replicate (length evs) PumpRound)"
  have "k < length (ot_subs ?c) \<and> ot_subs ?c ! k = Attached topic [] evs \<and> ot_pump ?c = Looping"
    using pump_events [OF assms(1), of "client_step T J c (NetInput ds Open)" v "[]" J evs x k topic "[]" "[]"] assms(2-8)
    by (simp add: Let_def client_step_def [of _ _ c] idle_link_def unread_def)
  then show ?thesis using subscribe_polls_new [OF assms(9), of ?c k topic "[]" evs] assms(10,11) by simp
qed

subsection \<open>Properties\<close>

text \<open>
  C6. A subscription over TCP delivers. An idle client subscribes to a topic it may subscribe to; the
  server, given the bytes in any segmentation, registers the subscription without a reply; events are
  then published on the topic's source, with increasing sequence numbers and no more than the client's
  broadcast holds. When they have arrived, again in any segmentation, polling the stream that
  \<^verbatim>\<open>subscribe\<close> returned, behind its filter by topic and sequence number, yields them all, each once and in
  order, and then waits.
\<close>

theorem tcp_subscription_delivers:
  assumes fc: "frame_contract (tcp_profile (tc_ctx K))" and dc: "duplex_contract (tcp_session (tc_ctx K)) fwd"
    and dd: "dedup_contract seq_of D"
    and send: "sendable (tc_ctx K) (tc_json K) (Subscribe topic None (ot_capability c))"
    and evs: "\<And>ev. ev \<in> set evs \<Longrightarrow> sendable (tc_ctx K) (tc_json K) (Event ev) \<and> ev_topic ev = topic" "length evs \<le> EVENT_CAPACITY"
      "sorted_wrt (\<lambda>e e'. seq_of e < seq_of e') evs"
    and ok: "svc_verify_topic (tc_service K) (ot_capability c) topic = Inr ()" and src: "svc_event_source (tc_service K) topic = Some src"
    and c: "idle_transport c" and up: "up_links s i key l" and idle: "idle_link l"
    and new: "filter (\<lambda>sub. sub_source sub = src \<and> sub_topic sub = topic) (ts_subs s) = []"
    and there: "fwd (lk_session (ot_link c)) (lk_session l)" and home: "fwd (lk_session l) (lk_session (ot_link c))"
  shows "let k = length (ot_subs c);
      c1 = foldl (client_step (tc_ctx K) (tc_json K)) c [SubSend topic, SubAttach k, PumpRound]
    in \<exists>w. tx (lk_stream (ot_link c1)) = tx (lk_stream (ot_link c)) @ w \<and>
         (\<forall>cs. concat cs = w \<longrightarrow>
           (let s1 = foldl (tcp_step K) s [Input i cs Open, Poll i];
                s2 = foldl (tcp_step K) s1 (concat (map (\<lambda>ev. [TcpPublish src ev [], Poll i]) evs))
            in \<exists>l2 v. up_links s2 i key l2 \<and> tx (lk_stream l2) = tx (lk_stream l) @ v \<and>
                 (\<forall>ds. concat ds = v \<longrightarrow>
                   subscribe_polls D k (Suc (length evs))
                     (foldl (client_step (tc_ctx K) (tc_json K)) c1 (NetInput ds Open # replicate (length evs) PumpRound)) =
                   map Item evs @ [Pending_Item])))"
proof -
  let ?T = "tc_ctx K"
  let ?J = "tc_json K"
  let ?k = "length (ot_subs c)"
  let ?c1 = "foldl (client_step ?T ?J) c [SubSend topic, SubAttach ?k, PumpRound]"
  from client_subscribes [OF c send dc] obtain w where
    w: "tx (lk_stream (ot_link ?c1)) = tx (lk_stream (ot_link c)) @ w" and p: "idle_link (ot_link ?c1)" "ot_pump ?c1 = Looping"
      "ot_subs ?c1 = ot_subs c @ [Attached topic [] []]"
    and fr: "frames ?T ?J (lk_session (ot_link c)) [Subscribe topic None (ot_capability c)] w (lk_session (ot_link ?c1))"
    and keep: "\<And>x. fwd x (lk_session (ot_link c)) \<Longrightarrow> fwd x (lk_session (ot_link ?c1))" by metis
  have "\<exists>l2 v. up_links (foldl (tcp_step K) (foldl (tcp_step K) s [Input i cs Open, Poll i])
        (concat (map (\<lambda>ev. [TcpPublish src ev [], Poll i]) evs))) i key l2 \<and> tx (lk_stream l2) = tx (lk_stream l) @ v \<and>
      (\<forall>ds. concat ds = v \<longrightarrow>
         subscribe_polls D ?k (Suc (length evs)) (foldl (client_step ?T ?J) ?c1 (NetInput ds Open # replicate (length evs) PumpRound)) =
         map Item evs @ [Pending_Item])"
    if cs: "concat cs = w" for cs
  proof -
    let ?s1 = "foldl (tcp_step K) s [Input i cs Open, Poll i]"
    have sd: "serde_ok ?J (Subscribe topic None (ot_capability c))" "list_all (serde_ok ?J) (map Event evs)"
      using send evs(1) by (auto simp: sendable_def list_all_iff)
    from server_subscribes [OF fc dc sd(1) ok src fr up idle there cs] obtain l1 where
      s1: "up_links ?s1 i key l1" "ready_link l1" and sub: "ts_subs ?s1 = ts_subs s @ [\<lparr>sub_source = src, sub_topic = topic, sub_conn = i\<rparr>]"
      and l1: "tx (lk_stream l1) = tx (lk_stream l)" "\<And>x. fwd (lk_session l) x \<Longrightarrow> fwd (lk_session l1) x" by metis
    have "filter (\<lambda>sub. sub_source sub = src \<and> sub_topic sub = topic) (ts_subs ?s1) = [\<lparr>sub_source = src, sub_topic = topic, sub_conn = i\<rparr>]"
      using new by (simp only: sub filter_append) simp
    from publish_all [where evs = evs, OF evs(1) s1 this] obtain l2 v where
      s2: "up_links (foldl (tcp_step K) ?s1 (concat (map (\<lambda>ev. [TcpPublish src ev [], Poll i]) evs))) i key l2"
      and v: "tx (lk_stream l2) = tx (lk_stream l1) @ v" and fv: "frames ?T ?J (lk_session l1) (map Event evs) v (lk_session l2)" by auto
    obtain x where rc: "receives ?T ?J (lk_session (ot_link ?c1)) (map Event evs) v x"
      using frames_receives [of ?T fwd, OF duplex_session [OF dc] fv sd(2)] l1(2) [OF keep [OF home]] by blast
    have "subscribe_polls D ?k (Suc (length evs)) (foldl (client_step ?T ?J) ?c1 (NetInput ds Open # replicate (length evs) PumpRound)) =
        map Item evs @ [Pending_Item]"
      if ds: "concat ds = v" for ds
      by (rule client_gets_events [OF fc p(2,1) _ _ rc ds evs(2) dd _ evs(3)])
        (simp_all only: p(3) nth_append_length length_append evs(1), simp)
    then show ?thesis using s2 v l1(1) by auto
  qed
  then show ?thesis unfolding Let_def using w by blast
qed

text \<open>A concrete service with numbered events, and a coder for them.\<close>

definition numbered_serde :: "nat serde" where
  "numbered_serde =
     \<lparr>to_vec = (\<lambda>env. case env of
          Subscribe t _ _ \<Rightarrow> Inr (4 # str_bytes t)
        | Event e \<Rightarrow> Inr (5 # of_nat (ev_body e) # str_bytes (ev_topic e))
        | _ \<Rightarrow> Inl ''unsupported''),
      from_slice = (\<lambda>b. case b of
          t # n # s \<Rightarrow>
            if t = 4 then Inr (Subscribe (bytes_str (n # s)) None None)
            else if t = 5 then Inr (Event \<lparr>ev_topic = bytes_str s, ev_body = unat n\<rparr>) else Inl ''unknown kind''
        | _ \<Rightarrow> Inl ''eof'')\<rparr>"

definition news_cfg :: "(nat, nat, bytes \<times> nat \<times> bytes option, nat \<times> nat) tcp_server_cfg" where
  "news_cfg =
     \<lparr>tc_ctx = demo_tcp, tc_json = numbered_serde,
      tc_service = \<lparr>svc_handle = (\<lambda>log r. \<lparr>resp_id = req_id r, resp_body = 0\<rparr>), svc_verify_topic = (\<lambda>_ _. Inr ()),
        svc_event_source = (\<lambda>topic. if topic = ''t'' then Some 0 else None), diag_error = (\<lambda>_ _. 0)\<rparr>,
      tc_gate = (\<lambda>_. Inr ()), tc_priv = replicate 32 1, tc_rng = id\<rparr>"

definition news_client :: "(nat, nat, nat \<times> nat) obfs_transport" where
  "news_client = new_transport (new_stream [] Open) (0, 0) [] 0 None"

definition news :: "nat \<Rightarrow> nat event" where
  "news n = \<lparr>ev_topic = ''t'', ev_body = n\<rparr>"

lemma numbered_sendable:
  "sendable demo_tcp numbered_serde (Subscribe ''t'' None None)" "n < 256 \<Longrightarrow> sendable demo_tcp numbered_serde (Event (news n))"
proof -
  have "char_of (116 :: nat) = CHR ''t''" by code_simp
  then show "sendable demo_tcp numbered_serde (Subscribe ''t'' None None)"
    "n < 256 \<Longrightarrow> sendable demo_tcp numbered_serde (Event (news n))"
    by (auto simp: sendable_def serde_ok_def numbered_serde_def news_def demo_tcp_def duplex_def short_frames_def str_bytes_def
        bytes_str_def unat_of_nat take_bit_eq_mod split: prod.splits)
qed

theorem tcp_subscription_delivers_witness:
  "let k = length (ot_subs news_client); s = tcp_start\<lparr>ts_tasks := [Up [] (ot_link news_client)]\<rparr>;
      c1 = foldl (client_step (tc_ctx news_cfg) (tc_json news_cfg)) news_client [SubSend ''t'', SubAttach k, PumpRound]
    in \<exists>w. tx (lk_stream (ot_link c1)) = tx (lk_stream (ot_link news_client)) @ w \<and>
         (\<forall>cs. concat cs = w \<longrightarrow>
           (let s1 = foldl (tcp_step news_cfg) s [Input 0 cs Open, Poll 0];
                s2 = foldl (tcp_step news_cfg) s1 (concat (map (\<lambda>ev. [TcpPublish 0 ev [], Poll 0]) [news 1, news 2]))
            in \<exists>l2 v. up_links s2 0 [] l2 \<and> tx (lk_stream l2) = tx (lk_stream (ot_link news_client)) @ v \<and>
                 (\<forall>ds. concat ds = v \<longrightarrow>
                   subscribe_polls (newest_only ev_body) k (Suc (length [news 1, news 2]))
                     (foldl (client_step (tc_ctx news_cfg) (tc_json news_cfg)) c1
                       (NetInput ds Open # replicate (length [news 1, news 2]) PumpRound)) =
                   map Item [news 1, news 2] @ [Pending_Item])))"
proof -
  have l: "idle_link (ot_link news_client)" "idle_transport news_client"
    "duplex_fwd (lk_session (ot_link news_client)) (lk_session (ot_link news_client))"
    using client_inv_start [of "new_stream [] Open" "(0, 0)" "[]" 0 None]
    by (simp_all add: idle_transport_def idle_link_def news_client_def new_transport_def unread_def new_stream_def flat_def duplex_fwd_def)
  have cap: "ot_capability news_client = None" by (simp add: news_client_def new_transport_def)
  have k: "frame_contract (tcp_profile (tc_ctx news_cfg))" "duplex_contract (tcp_session (tc_ctx news_cfg)) duplex_fwd"
    by (simp_all add: news_cfg_def demo_tcp_def short_frames_contract duplex_contract_duplex)
  have snd: "sendable (tc_ctx news_cfg) (tc_json news_cfg) (Subscribe ''t'' None (ot_capability news_client))"
    "sendable (tc_ctx news_cfg) (tc_json news_cfg) (Event (news 1))" "sendable (tc_ctx news_cfg) (tc_json news_cfg) (Event (news 2))"
    using numbered_sendable by (simp_all add: news_cfg_def cap)
  have u: "up_links (tcp_start\<lparr>ts_tasks := [Up [] (ot_link news_client)]\<rparr>) 0 [] (ot_link news_client)" by (simp add: up_links_def)
  show ?thesis
    unfolding Let_def [of "tcp_start\<lparr>ts_tasks := [Up [] (ot_link news_client)]\<rparr>"]
    by (rule tcp_subscription_delivers [where fwd = duplex_fwd and seq_of = ev_body,
          OF k dedup_contract_newest snd(1) _ _ _ _ _ l(2) u l(1) _ l(3,3)])
      (use snd(2,3) in \<open>auto simp: news_def EVENT_CAPACITY_def news_cfg_def tcp_start_def\<close>)
qed

end
