(* ===== verification/Session_Spec.thy ===== *)
theory Session_Spec
  imports Udp_Server_Safety Tcp_Server
begin

text \<open>
  What a server of this crate promises, whatever the transport: one small machine that both the UDP
  server and the TCP server refine.

  Its state: the clients that are connected (\<open>members\<close>), with what key each one joined (\<open>joined\<close>), who
  had which request served (\<open>served\<close>), who may receive which topic (\<open>interests\<close>), and who was given
  which event (\<open>notified\<close>). A client joins with a key the gate accepts; only a connected client is served
  or granted a topic, and a topic only by the service's own check; an event goes to those granted its
  topic, whether they are still connected or not; clients leave at any time. Leaving does not withdraw
  a topic: neither server ends a subscription before its source ends, so a client that has left, on UDP
  one that was evicted, may still be sent events.

  A client is a socket address for UDP and the number of a connection for TCP. \<open>udp_abs\<close> and \<open>tcp_abs\<close>
  relate the states of the servers to the state of the machine.
\<close>

record ('a, 'x) sessions =
  members :: "'a set"
  joined :: "('a \<times> bytes) list"
  served :: "('a \<times> 'x request) list"
  interests :: "('a \<times> string) set"
  notified :: "('a \<times> 'x event) list"

inductive spec_step ::
  "(bytes \<Rightarrow> string + unit) \<Rightarrow> 'x service \<Rightarrow> ('a, 'x) sessions \<Rightarrow> ('a, 'x) sessions \<Rightarrow> bool" for G V where
  join: "G key = Inr () \<Longrightarrow> spec_step G V S (S\<lparr>members := insert a (members S), joined := joined S @ [(a, key)]\<rparr>)"
| serve: "a \<in> members S \<Longrightarrow> spec_step G V S (S\<lparr>served := served S @ [(a, req)]\<rparr>)"
| grant: "a \<in> members S \<Longrightarrow> svc_verify_topic V cap t = Inr () \<Longrightarrow> svc_event_source V t \<noteq> None \<Longrightarrow>
    spec_step G V S (S\<lparr>interests := insert (a, t) (interests S)\<rparr>)"
| notify: "(a, ev_topic ev) \<in> interests S \<Longrightarrow> spec_step G V S (S\<lparr>notified := notified S @ [(a, ev)]\<rparr>)"
| leave: "M \<subseteq> members S \<Longrightarrow> spec_step G V S (S\<lparr>members := M\<rparr>)"

definition no_sessions :: "('a, 'x) sessions" where
  "no_sessions = \<lparr>members = {}, joined = [], served = [], interests = {}, notified = []\<rparr>"

definition vouched :: "(bytes \<Rightarrow> string + unit) \<Rightarrow> ('a, 'x) sessions \<Rightarrow> 'a \<Rightarrow> bool" where
  "vouched G S a \<longleftrightarrow> (\<exists>key. (a, key) \<in> set (joined S) \<and> G key = Inr ())"

definition entitled :: "(bytes \<Rightarrow> string + unit) \<Rightarrow> 'x service \<Rightarrow> ('a, 'x) sessions \<Rightarrow> bool" where
  "entitled G V S \<longleftrightarrow>
     (\<forall>a \<in> members S. vouched G S a) \<and> (\<forall>(a, req) \<in> set (served S). vouched G S a) \<and>
     (\<forall>(a, t) \<in> interests S. vouched G S a \<and> (\<exists>cap. svc_verify_topic V cap t = Inr ())) \<and>
     (\<forall>(a, ev) \<in> set (notified S). (a, ev_topic ev) \<in> interests S)"

lemma entitled_start: "entitled G V no_sessions"
  by (simp add: entitled_def no_sessions_def)

lemma vouched_frame [simp]:
  "vouched G (S\<lparr>members := M\<rparr>) = vouched G S" "vouched G (S\<lparr>served := r\<rparr>) = vouched G S"
  "vouched G (S\<lparr>interests := I\<rparr>) = vouched G S" "vouched G (S\<lparr>notified := n\<rparr>) = vouched G S"
  by (simp_all add: vouched_def fun_eq_iff)

lemma vouched_join [simp]:
  "vouched G (S\<lparr>members := M, joined := joined S @ [(b, key)]\<rparr>) a \<longleftrightarrow> vouched G S a \<or> a = b \<and> G key = Inr ()"
  by (auto simp: vouched_def)

lemma entitled_step: "spec_step G V S S' \<Longrightarrow> entitled G V S \<Longrightarrow> entitled G V S'"
  by (induction rule: spec_step.induct) (auto simp: entitled_def)

lemma entitled_steps: "(spec_step G V)\<^sup>*\<^sup>* S S' \<Longrightarrow> entitled G V S \<Longrightarrow> entitled G V S'"
  by (induction rule: rtranclp_induct) (auto intro: entitled_step)

subsection \<open>Simulation\<close>

text \<open>A server whose every step is matched by steps of the machine.\<close>

locale session_server =
  fixes step :: "'s \<Rightarrow> 'e \<Rightarrow> 's"
    and gate :: "bytes \<Rightarrow> string + unit"
    and svc :: "'x service"
    and rel :: "'s \<Rightarrow> ('a, 'x) sessions \<Rightarrow> bool"
  assumes simulation: "rel s S \<Longrightarrow> \<exists>S'. (spec_step gate svc)\<^sup>*\<^sup>* S S' \<and> rel (step s e) S'"
begin

lemma run_simulation: "rel s S \<Longrightarrow> \<exists>S'. (spec_step gate svc)\<^sup>*\<^sup>* S S' \<and> rel (foldl step s es) S'"
proof (induction es arbitrary: s S)
  case (Cons e es)
  then obtain S1 where S1: "(spec_step gate svc)\<^sup>*\<^sup>* S S1" "rel (step s e) S1" using simulation by blast
  from Cons.IH [OF this(2)] show ?case using rtranclp_trans [OF S1(1)] by auto
qed auto

lemma run_entitled:
  assumes "rel s no_sessions"
  shows "\<exists>S. (spec_step gate svc)\<^sup>*\<^sup>* no_sessions S \<and> rel (foldl step s es) S \<and> entitled gate svc S"
  using run_simulation [OF assms] entitled_steps [OF _ entitled_start] by blast

end

lemma spec_one: "spec_step G V S S' \<Longrightarrow> rel s S' \<Longrightarrow> \<exists>S'. (spec_step G V)\<^sup>*\<^sup>* S S' \<and> rel s S'"
  by blast

lemma spec_none: "rel s S \<Longrightarrow> \<exists>S'. (spec_step G V)\<^sup>*\<^sup>* S S' \<and> rel s S'"
  by blast

lemma spec_then:
  assumes "\<exists>S'. (spec_step G V)\<^sup>*\<^sup>* S S' \<and> rel s S'"
    and "\<And>S'. rel s S' \<Longrightarrow> \<exists>S''. (spec_step G V)\<^sup>*\<^sup>* S' S'' \<and> rel s' S''"
  shows "\<exists>S''. (spec_step G V)\<^sup>*\<^sup>* S S'' \<and> rel s' S''"
  using assms rtranclp_trans [of "spec_step G V"] by metis

subsection \<open>The UDP server\<close>

definition udp_abs ::
  "('x, 'g, 'h, 'sl, 'op, 'c) udp_server \<Rightarrow> (socket_addr, 'x) sessions \<Rightarrow> bool" where
  "udp_abs s S \<longleftrightarrow>
     linked s \<and> length (queues s) = length (dsts s) \<and> map fst (joined S) = dsts s \<and> members S = fset (fmdom (peers s)) \<and> map snd (served S) = handled s \<and>
     interests S = (\<lambda>sub. (dsts s ! sub_conn sub, sub_topic sub)) ` set (subs s) \<and>
     (\<forall>i < length (queues s). \<forall>ev. Event ev \<in> set (queues s ! i) \<longrightarrow> (dsts s ! i, ev) \<in> set (notified S))"

lemma udp_abs_start: "udp_abs (serve_obfs_udp K seed g) no_sessions"
  by (simp add: udp_abs_def no_sessions_def serve_obfs_udp_def linked_def dsts_def queues_def)

lemma udp_abs_cong:
  assumes "udp_abs s S" and "fmdom (peers s') = fmdom (peers s)" and "linked s'" and "handled s' = handled s"
    and "subs s' = subs s" and "dsts s' = dsts s" and "queues s' = queues s"
  shows "udp_abs s' S"
  using assms by (simp add: udp_abs_def)

lemma udp_abs_linked: "udp_abs s S \<Longrightarrow> linked s"
  by (simp add: udp_abs_def)

lemma dsts_cleanup [simp]: "dsts (cleanup now s) = dsts s"
  by (simp add: dsts_def)

lemma udp_sim_cleanup: "udp_abs s S \<Longrightarrow> \<exists>S'. (spec_step G V)\<^sup>*\<^sup>* S S' \<and> udp_abs (cleanup now s) S'"
proof (rule spec_one)
  assume a: "udp_abs s S"
  let ?M = "fset (fmdom (peers (cleanup now s)))"
  have "?M \<subseteq> fset (fmdom (peers s))"
    using fmlookup_cleanup [of now s] by (auto simp: fmlookup_dom_iff)
  then show "spec_step G V S (S\<lparr>members := ?M\<rparr>)" using a by (intro leave) (simp add: udp_abs_def)
  show "udp_abs (cleanup now s) (S\<lparr>members := ?M\<rparr>)"
    using a linked_cleanup [OF udp_abs_linked [OF a], of now] by (simp add: udp_abs_def)
qed

lemma udp_sim_hs3:
  assumes "handle_hs3 K now src body s = (b, s')" and "udp_abs s S"
  shows "\<exists>S'. (spec_step (auth_gate K) V)\<^sup>*\<^sup>* S S' \<and> udp_abs s' S'"
proof -
  note l = linked_hs3 [OF assms(1) udp_abs_linked [OF assms(2)]]
  consider (same) "peers s' = peers s" "subs s' = subs s" "handled s' = handled s" "dsts s' = dsts s" "queues s' = queues s"
    | (new) key p where "auth_gate K key = Inr ()" "peers s' = fmupd src p (peers s)" "subs s' = subs s" "handled s' = handled s"
        "dsts s' = dsts s @ [src]" "queues s' = queues s @ [[]]"
    using assms(1) unfolding handle_hs3_def Let_def
    by (auto split: option.splits sum.splits prod.splits)
  then show ?thesis
  proof cases
    case same
    then show ?thesis using assms(2) l by (intro spec_none) (auto intro: udp_abs_cong)
  next
    case new
    have "dsts s' ! sub_conn sub = dsts s ! sub_conn sub" if "sub \<in> set (subs s)" for sub
      using that udp_abs_linked [OF assms(2)] new(5) by (auto simp: linked_def nth_append)
    then have "udp_abs s' (S\<lparr>members := insert src (members S), joined := joined S @ [(src, key)]\<rparr>)"
      using assms(2) l new by (auto simp: udp_abs_def nth_append less_Suc_eq)
    with new(1) show ?thesis by (intro spec_one [OF join])
  qed
qed

lemma linked_env:
  "linked s \<Longrightarrow> i < length (dsts s) \<Longrightarrow> linked (handle_env K i src env s)"
  using handle_env_subs [of K i src env s] unfolding linked_def by force

lemma udp_sim_env:
  assumes a: "udp_abs s S" and m: "src \<in> members S" and i: "i < length (dsts s)" "dsts s ! i = src"
  shows "\<exists>S'. (spec_step G (service K))\<^sup>*\<^sup>* S S' \<and> udp_abs (handle_env K i src env s) S'"
proof -
  note l = linked_env [OF udp_abs_linked [OF a] i(1), of K src env]
  consider (request) req where "env = Request req"
    | (granted) t v cap n where "env = Subscribe t v cap" "svc_verify_topic (service K) cap t = Inr ()" "svc_event_source (service K) t = Some n"
    | (denied) t d where "handle_env K i src env s = push_queue i (SubscribeError t d) s"
    | (other) "handled (handle_env K i src env s) = handled s" "subs (handle_env K i src env s) = subs s"
        "queues (handle_env K i src env s) = queues s"
  proof (cases env)
    case (Subscribe t v cap)
    then show thesis
      using that(2) [of t v cap] that(3) [of t] that(4)
      by (cases "svc_verify_topic (service K) cap t"; cases "svc_event_source (service K) t")
        (simp_all add: handle_env_def Udp_Server.handle_subscribe_def)
  qed (use that in \<open>auto simp: handle_env_def\<close>)
  then show ?thesis
  proof cases
    case request
    have "udp_abs (handle_env K i src env s) (S\<lparr>served := served S @ [(src, req)]\<rparr>)"
      using a l by (simp add: request udp_abs_def handle_env_def)
    then show ?thesis by (rule spec_one [OF serve [OF m]])
  next
    case granted
    have "udp_abs (handle_env K i src env s) (S\<lparr>interests := insert (src, t) (interests S)\<rparr>)"
      using a l i by (simp add: granted udp_abs_def handle_env_def Udp_Server.handle_subscribe_def)
    then show ?thesis by (rule spec_one [OF grant [OF m granted(2)], rotated]) (simp add: granted(3))
  next
    case denied
    have "udp_abs (push_queue i (SubscribeError t d) s) S"
      using a l i denied by (auto simp: udp_abs_def queues_push nth_list_update)
    then show ?thesis unfolding denied by (rule spec_none)
  next
    case other
    then show ?thesis using a l by (intro spec_none) (auto intro: udp_abs_cong)
  qed
qed

lemma udp_sim_data:
  assumes h: "handle_data K now src d s = (b, s')" and a: "udp_abs s S"
  shows "\<exists>S'. (spec_step G (service K))\<^sup>*\<^sup>* S S' \<and> udp_abs s' S'"
proof (cases "fmlookup (peers s) src")
  case None
  then show ?thesis using h a by (intro spec_none) (simp add: handle_data_def)
next
  case (Some p)
  obtain r ch where o: "open_datagram (records (ctx K)) (json (ctx K)) (conn_chan (conns s ! peer_conn p)) d = (r, ch)" by fastforce
  let ?s = "set_chan (peer_conn p) ch (s\<lparr>peers := fmupd src (p\<lparr>last_seen := now\<rparr>) (peers s)\<rparr>)"
  have i: "peer_conn p < length (dsts s)" "dsts s ! peer_conn p = src"
    using udp_abs_linked [OF a] Some by (auto simp: linked_def)
  have "src |\<in>| fmdom (peers s)" using Some by (simp add: fmdomI)
  then have a': "udp_abs ?s S" and m: "src \<in> members S"
    using a i Some by (auto simp: udp_abs_def linked_def)
  have e: "s' = (case r of Inr (Some env) \<Rightarrow> handle_env K (peer_conn p) src env ?s | _ \<Rightarrow> ?s)"
    using h by (auto simp: handle_data_def Some o Let_def split: sum.splits option.splits)
  show ?thesis
    using udp_sim_env [OF a' m] i spec_none [of udp_abs ?s S, OF a'] unfolding e by (auto split: sum.splits option.splits)
qed

lemma udp_sim_dgram:
  assumes "udp_abs s S"
  shows "\<exists>S'. (spec_step (auth_gate K) (service K))\<^sup>*\<^sup>* S S' \<and> udp_abs (handle_dgram K now load src d s) S'"
proof -
  have clean: "\<exists>S'. (spec_step (auth_gate K) (service K))\<^sup>*\<^sup>* S S' \<and> udp_abs (if b then cleanup now s' else s') S'"
    if "\<exists>S'. (spec_step (auth_gate K) (service K))\<^sup>*\<^sup>* S S' \<and> udp_abs s' S'" for b s'
    using spec_then [OF that udp_sim_cleanup] that by (cases b) auto
  show ?thesis
  proof (cases rule: handle_dgram_cases [of K now load src d s])
    case ignored
    then show ?thesis using spec_none [of udp_abs s S, OF assms] by simp
  next
    case (hs1 body b s')
    have "udp_abs s' S"
      using handle_hs1_cases [OF hs1(2)] linked_hs1 [OF hs1(2) udp_abs_linked [OF assms]]
      by (intro udp_abs_cong [OF assms]) (simp_all add: queues_def)
    then show ?thesis unfolding hs1(3) by (intro clean spec_none)
  next
    case (hs3 body b s')
    then show ?thesis using clean [OF udp_sim_hs3 [OF hs3(2) assms]] by simp
  next
    case (data body b s')
    then show ?thesis using clean [OF udp_sim_data [OF data(2) assms]] by simp
  next
    case other
    then show ?thesis using udp_sim_cleanup [OF assms] by simp
  qed
qed

lemma udp_sim_publish:
  "set xs \<subseteq> set (subs s) \<Longrightarrow> udp_abs s S \<Longrightarrow> \<exists>S'. (spec_step G V)\<^sup>*\<^sup>* S S' \<and> udp_abs (publish src ev lag n xs s) S'"
proof (induction xs arbitrary: n s S)
  case Nil
  then show ?case by (auto intro: spec_none)
next
  case (Cons sub xs)
  let ?S = "S\<lparr>notified := notified S @ [(dsts s ! sub_conn sub, ev)]\<rparr>"
  let ?s = "push_queue (sub_conn sub) (Event ev) s"
  show ?case
  proof (cases "sub_source sub = src \<and> n \<notin> set lag \<and> ev_topic ev = sub_topic sub")
    case True
    have "(dsts s ! sub_conn sub, ev_topic ev) \<in> interests S" using Cons.prems True by (auto simp: udp_abs_def)
    then have st: "spec_step G V S ?S" by (rule notify)
    have "sub_conn sub < length (dsts s)" using Cons.prems(1) udp_abs_linked [OF Cons.prems(2)] by (simp add: linked_def)
    then have "udp_abs ?s ?S"
      using Cons.prems(2) by (auto simp: udp_abs_def linked_def queues_push nth_list_update)
    then have "\<exists>S'. (spec_step G V)\<^sup>*\<^sup>* ?S S' \<and> udp_abs (publish src ev lag (Suc n) xs ?s) S'"
      using Cons.IH [of ?s ?S "Suc n"] Cons.prems(1) by simp
    then show ?thesis using True converse_rtranclp_into_rtranclp [of "spec_step G V", OF st] by auto
  next
    case False
    then show ?thesis using Cons by auto
  qed
qed

lemma udp_sim_seal: "udp_abs s S \<Longrightarrow> udp_abs (seal_next K i s) S"
proof -
  assume a: "udp_abs s S"
  have "length (queues (seal_next K i s)) = length (queues s)"
    and "\<forall>j < length (queues s). set (queues (seal_next K i s) ! j) \<subseteq> set (queues s ! j)"
    by (auto simp: seal_next_def Let_def queues_def map_update nth_list_update split: list.splits prod.splits sum.splits)
  moreover have "linked (seal_next K i s)" using udp_abs_linked [OF a] by (simp add: linked_def)
  ultimately show ?thesis using a by (simp add: udp_abs_def subset_iff)
qed

lemma udp_simulation:
  assumes "udp_abs s S"
  shows "\<exists>S'. (spec_step (auth_gate K) (service K))\<^sup>*\<^sup>* S S' \<and> udp_abs (udp_step K s e) S'"
proof (cases e)
  case (Recv now load src d)
  then show ?thesis using udp_sim_dgram [OF assms] by (simp add: udp_step_def)
next
  case (SealNext i)
  then show ?thesis using spec_none [of udp_abs, OF udp_sim_seal [OF assms]] by (simp add: udp_step_def)
next
  case SendNext
  have "udp_abs (send_next s) S"
    using udp_abs_linked [OF assms] by (intro udp_abs_cong [OF assms]) (simp_all add: linked_def queues_def)
  then show ?thesis using SendNext spec_none [of udp_abs] by (simp add: udp_step_def)
next
  case (RotateCookie seed)
  have "udp_abs (rotate_cookie K seed s) S"
    using udp_abs_linked [OF assms] by (intro udp_abs_cong [OF assms]) (simp_all add: linked_def queues_def)
  then show ?thesis using RotateCookie spec_none [of udp_abs] by (simp add: udp_step_def)
next
  case (Publish src ev lag)
  then show ?thesis using udp_sim_publish [OF subset_refl assms] by (simp add: udp_step_def)
qed

interpretation udp_sessions: session_server "udp_step K" "auth_gate K" "service K" udp_abs
  by unfold_locales (rule udp_simulation)

subsection \<open>The TCP server\<close>

definition tcp_abs :: "('x, 'g, 's) tcp_server \<Rightarrow> (nat, 'x) sessions \<Rightarrow> bool" where
  "tcp_abs s S \<longleftrightarrow>
     members S = {i. \<exists>key l. up_links s i key l} \<and> (\<forall>i key l. up_links s i key l \<longrightarrow> (i, key) \<in> set (joined S)) \<and> map snd (served S) = ts_handled s \<and>
     interests S = (\<lambda>sub. (sub_conn sub, sub_topic sub)) ` set (ts_subs s) \<and>
     (\<forall>i key l ev. up_links s i key l \<longrightarrow> Event ev \<in> set (lk_queue l) \<longrightarrow> (i, ev) \<in> set (notified S))"

lemma tcp_abs_start: "tcp_abs tcp_start no_sessions"
  by (simp add: tcp_abs_def no_sessions_def tcp_start_def up_links_def)

lemma tcp_abs_cong:
  "tcp_abs s S \<Longrightarrow> ts_tasks s' = ts_tasks s \<Longrightarrow> ts_subs s' = ts_subs s \<Longrightarrow> ts_handled s' = ts_handled s \<Longrightarrow> tcp_abs s' S"
  by (simp add: tcp_abs_def up_links_def)

text \<open>One task changes: a link stays a link and holds no new events, or the task ends.\<close>

lemma up_links_at: "i < length (ts_tasks s) \<Longrightarrow> up_links s i key l \<longleftrightarrow> ts_tasks s ! i = Up key l"
  by (simp add: up_links_def)

lemma tcp_abs_joined: "tcp_abs s S \<Longrightarrow> up_links s i key l \<Longrightarrow> (i, key) \<in> set (joined S)"
  unfolding tcp_abs_def by (drule conjunct2, drule conjunct1) blast

lemma tcp_abs_set:
  assumes "tcp_abs s S" and "i < length (ts_tasks s)" and "(\<exists>key l. t = Up key l) \<longleftrightarrow> i \<in> members S"
    and "\<And>key l ev. t = Up key l \<Longrightarrow> Event ev \<in> set (lk_queue l) \<Longrightarrow> (i, ev) \<in> set (notified S)"
    and "\<And>key l. t = Up key l \<Longrightarrow> (i, key) \<in> set (joined S)"
  shows "tcp_abs (set_task i t s) S"
proof -
  have "{j. \<exists>key l. up_links (set_task i t s) j key l} = {j. \<exists>key l. up_links s j key l}"
    using assms(1-3) by (auto simp: tcp_abs_def up_links_set_task up_links_at, blast)
  moreover have "(j, key) \<in> set (joined S)" if "up_links (set_task i t s) j key l" for j key l
  proof (cases "j = i")
    case True
    then show ?thesis using that assms(5) by (simp add: up_links_set_task)
  next
    case False
    then have "up_links s j key l" using that by (simp add: up_links_set_task)
    then show ?thesis by (rule tcp_abs_joined [OF assms(1)])
  qed
  moreover have "(j, ev) \<in> set (notified S)" if "up_links (set_task i t s) j key l" "Event ev \<in> set (lk_queue l)" for j key l ev
    using that assms(1,4) by (auto simp: tcp_abs_def up_links_set_task split: if_splits)
  ultimately show ?thesis using assms(1) by (simp add: tcp_abs_def)
qed

lemma tcp_abs_bound: "tcp_abs s S \<Longrightarrow> i \<in> members S \<Longrightarrow> i < length (ts_tasks s)"
  by (auto simp: tcp_abs_def up_links_def)

text \<open>What a connection may hold while its task is being polled.\<close>

definition tcp_holds :: "nat \<Rightarrow> bytes \<Rightarrow> ('x, 'g, 's) link \<Rightarrow> (nat, 'x) sessions \<Rightarrow> bool" where
  "tcp_holds i key l S \<longleftrightarrow>
     i \<in> members S \<and> (i, key) \<in> set (joined S) \<and> (\<forall>ev. Event ev \<in> set (lk_queue l) \<longrightarrow> (i, ev) \<in> set (notified S))"

lemma tcp_abs_put: "tcp_abs s S \<Longrightarrow> tcp_holds i key l S \<Longrightarrow> tcp_abs (set_task i (Up key l) s) S"
  by (rule tcp_abs_set) (auto simp: tcp_holds_def intro: tcp_abs_bound)

lemma tcp_abs_at:
  assumes "tcp_abs s S" and "i < length (ts_tasks s)"
  shows "i \<in> members S \<longleftrightarrow> (\<exists>key l. ts_tasks s ! i = Up key l)"
    and "ts_tasks s ! i = Up key l \<Longrightarrow> Event ev \<in> set (lk_queue l) \<Longrightarrow> (i, ev) \<in> set (notified S)"
    and "ts_tasks s ! i = Up key l \<Longrightarrow> (i, key) \<in> set (joined S)"
  using assms up_links_at [OF assms(2)] tcp_abs_joined [OF assms(1)] by (auto simp: tcp_abs_def)

lemma tcp_sim_gone: "tcp_abs s S \<Longrightarrow> \<exists>S'. (spec_step G V)\<^sup>*\<^sup>* S S' \<and> tcp_abs (set_task i Gone s) S'"
  by (rule spec_one [OF leave [of "members S - {i}"]]) (auto simp: tcp_abs_def up_links_set_task)

lemma tcp_sim_put: "tcp_abs s S \<Longrightarrow> tcp_holds i key l S \<Longrightarrow> \<exists>S'. (spec_step G V)\<^sup>*\<^sup>* S S' \<and> tcp_abs (set_task i (Up key l) s) S'"
  by (rule spec_none, rule tcp_abs_put)

lemma tcp_sim_reply:
  assumes "tcp_abs s S" and "tcp_holds i key l S"
  shows "\<exists>S'. (spec_step G V)\<^sup>*\<^sup>* S S' \<and> tcp_abs (reply K i key env l s) S'"
proof -
  obtain r l' where s: "link_send (tc_ctx K) (tc_json K) env l = (r, l')" by fastforce
  have "tcp_holds i key l' S" using assms(2) link_ops_queue(1) [OF s] by (simp add: tcp_holds_def)
  then show ?thesis
    using tcp_sim_put [OF assms(1)] tcp_sim_gone [OF assms(1)] by (cases r) (simp_all add: reply_def s)
qed

lemma tcp_sim_frame:
  assumes a: "tcp_abs s S" and h: "tcp_holds i key l S"
  shows "\<exists>S'. (spec_step G (tc_service K))\<^sup>*\<^sup>* S S' \<and> tcp_abs (handle_frame K i key env l s) S'"
proof (cases env)
  case (Request req)
  let ?S = "S\<lparr>served := served S @ [(i, req)]\<rparr>" and ?s = "s\<lparr>ts_handled := ts_handled s @ [req]\<rparr>"
  have "tcp_abs ?s ?S" and "tcp_holds i key l ?S" using a h by (simp_all add: tcp_abs_def tcp_holds_def up_links_def)
  from tcp_sim_reply [OF this] have "\<exists>S'. (spec_step G (tc_service K))\<^sup>*\<^sup>* ?S S' \<and> tcp_abs (handle_frame K i key env l s) S'"
    by (simp add: handle_frame_def Request)
  moreover have "spec_step G (tc_service K) S ?S" using h by (intro serve) (simp add: tcp_holds_def)
  ultimately show ?thesis using converse_rtranclp_into_rtranclp [of "spec_step G (tc_service K)" S ?S] by blast
next
  case (Subscribe t v cap)
  show ?thesis
  proof (cases "svc_verify_topic (tc_service K) cap t")
    case (Inl e)
    then show ?thesis using tcp_sim_reply [OF a h] by (simp add: handle_frame_def Subscribe)
  next
    case (Inr u)
    show ?thesis
    proof (cases "svc_event_source (tc_service K) t")
      case None
      then show ?thesis
        using h by (auto simp: handle_frame_def Subscribe Inr handle_subscribe_def tcp_holds_def intro!: tcp_sim_put [OF a])
    next
      case (Some src)
      let ?S = "S\<lparr>interests := insert (i, t) (interests S)\<rparr>"
      have "spec_step G (tc_service K) S ?S" using h Inr Some by (intro grant [where cap = cap]) (simp_all add: tcp_holds_def)
      moreover have "tcp_abs (handle_frame K i key env l s) ?S"
        unfolding handle_frame_def Subscribe envelope.case Inr sum.case handle_subscribe_def Some option.case
        by (rule tcp_abs_put) (use a h in \<open>auto simp: tcp_abs_def tcp_holds_def up_links_def\<close>)
      ultimately show ?thesis by (rule spec_one)
    qed
  qed
qed (use tcp_sim_reply [OF a h] tcp_sim_put [OF a h] in \<open>simp_all add: handle_frame_def\<close>)

lemma tcp_sim_round:
  assumes a: "tcp_abs s S" and h: "tcp_holds i key l S"
  shows "\<exists>S'. (spec_step G (tc_service K))\<^sup>*\<^sup>* S S' \<and> tcp_abs (pump_round K i key l s) S'"
proof (cases "lk_queue l")
  case Nil
  obtain r l' where r: "link_recv (tc_ctx K) (tc_json K) l = (r, l')" by fastforce
  have "tcp_holds i key l' S" using h link_ops_queue(2) [OF r] by (simp add: tcp_holds_def)
  then show ?thesis
    using tcp_sim_frame [OF a] tcp_sim_put [OF a] tcp_sim_gone [OF a] Nil r by (cases r) (simp_all add: pump_round_def)
next
  case (Cons env q)
  have "tcp_holds i key (l\<lparr>lk_queue := q\<rparr>) S" using h Cons by (simp add: tcp_holds_def)
  then show ?thesis using tcp_sim_reply [OF a] Cons by (simp add: pump_round_def)
qed

lemma shake_cases:
  obtains (up) key l n where "tc_gate K key = Inr ()" and "lk_queue l = []"
      and "shake K i st ent g s = set_task i (Up key l) (s\<lparr>ts_entropy := n\<rparr>)"
  | (gone) "shake K i st ent g s = set_task i Gone s"
  | (waits) "shake K i st ent g s = s"
proof -
  obtain r st' where h: "server_handshake_in_place (tc_ctx K) ent g (tc_priv K) st = (r, st')" by fastforce
  show thesis
  proof (cases r)
    case (Ok x)
    obtain session ko leftover where x: "x = (session, ko, leftover)" by (cases x)
    show thesis
    proof (cases "\<exists>key. ko = Some key \<and> tc_gate K key = Inr ()")
      case True
      then obtain key where "ko = Some key" "tc_gate K key = Inr ()" by blast
      then show thesis
        by (intro up [of key "\<lparr>lk_stream = st', lk_session = session, lk_buf = leftover, lk_rng = tc_rng K (ts_entropy s), lk_queue = []\<rparr>"
          "Suc (ts_entropy s)"]) (simp_all add: shake_def h Ok x)
    next
      case False
      then have "shake K i st ent g s = set_task i Gone s" by (auto simp: shake_def h Ok x split: option.splits sum.splits)
      then show thesis by (rule gone)
    qed
  qed (use gone waits in \<open>simp_all add: shake_def h\<close>)
qed

lemma up_links_entropy: "up_links (s\<lparr>ts_entropy := n\<rparr>) i key l \<longleftrightarrow> up_links s i key l"
  by (simp add: up_links_def)

lemma tcp_sim_shake:
  assumes a: "tcp_abs s S" and i: "i < length (ts_tasks s)"
  shows "\<exists>S'. (spec_step (tc_gate K) V)\<^sup>*\<^sup>* S S' \<and> tcp_abs (shake K i st ent g s) S'"
proof (cases rule: shake_cases [of K i st ent g s])
    case (up key l n)
    have "tcp_abs (set_task i (Up key l) (s\<lparr>ts_entropy := n\<rparr>)) (S\<lparr>members := insert i (members S), joined := joined S @ [(i, key)]\<rparr>)"
      using a i up(2) by (auto simp: tcp_abs_def up_links_set_task up_links_entropy)
    then show ?thesis unfolding up(3) by (rule spec_one [OF join [where G = "tc_gate K", OF up(1)]])
  next
    case gone
    then show ?thesis using tcp_sim_gone [OF a] by simp
  next
    case waits
    then show ?thesis using spec_none [of tcp_abs s S, OF a] by simp
qed

lemma tcp_sim_push:
  assumes a: "tcp_abs s S" and sub: "sub \<in> set (ts_subs s)" and t: "sub_topic sub = ev_topic ev"
  shows "\<exists>S'. (spec_step G V)\<^sup>*\<^sup>* S S' \<and> tcp_abs (push_event (sub_conn sub) ev s) S'"
proof -
  let ?S = "S\<lparr>notified := notified S @ [(sub_conn sub, ev)]\<rparr>"
  have "(sub_conn sub, ev_topic ev) \<in> interests S" using a sub t by (auto simp: tcp_abs_def image_iff)
  then have "spec_step G V S ?S" by (rule notify)
  moreover have "tcp_abs (push_event (sub_conn sub) ev s) ?S"
  proof (cases "sub_conn sub < length (ts_tasks s)")
    case True
    have "tcp_abs s ?S" using a by (auto simp: tcp_abs_def)
    with True tcp_abs_at [OF this True] show ?thesis
      by (auto simp: push_event_def split: tcp_task.splits intro!: tcp_abs_set) blast
  qed (use a in \<open>auto simp: tcp_abs_def push_event_def\<close>)
  ultimately show ?thesis by (rule spec_one)
qed

lemma tcp_sim_forward:
  "set xs \<subseteq> set (ts_subs s) \<Longrightarrow> tcp_abs s S \<Longrightarrow> \<exists>S'. (spec_step G V)\<^sup>*\<^sup>* S S' \<and> tcp_abs (forward_event src ev lag n xs s) S'"
proof (induction xs arbitrary: n s S)
  case Nil
  then show ?case by (auto intro: spec_none)
next
  case (Cons sub xs)
  let ?P = "sub_source sub = src \<and> n \<notin> set lag \<and> ev_topic ev = sub_topic sub"
  let ?s = "if ?P then push_event (sub_conn sub) ev s else s"
  have "\<exists>S'. (spec_step G V)\<^sup>*\<^sup>* S S' \<and> tcp_abs ?s S'"
    using Cons.prems tcp_sim_push [OF Cons.prems(2), of sub ev] spec_none [of tcp_abs s S, OF Cons.prems(2)] by (cases ?P) simp_all
  then show ?case
    by (rule spec_then [of G V S tcp_abs ?s, simplified forward_event.simps [symmetric]]) (use Cons in auto)
qed

lemma tcp_sim_stream:
  assumes "tcp_abs s S"
  shows "tcp_abs (on_stream f i s) S"
proof (cases "i < length (ts_tasks s)")
  case True
  show ?thesis
    using assms True tcp_abs_at [OF assms True]
    by (auto simp: on_stream_def split: tcp_task.splits intro!: tcp_abs_set)
qed (use assms in \<open>simp add: on_stream_def\<close>)

lemma tcp_simulation:
  assumes a: "tcp_abs s S"
  shows "\<exists>S'. (spec_step (tc_gate K) (tc_service K))\<^sup>*\<^sup>* S S' \<and> tcp_abs (tcp_step K s e) S'"
proof (cases e)
  case (Accept st)
  have "tcp_abs (accept_loop K st s) S"
    using a by (auto simp: accept_loop_def tcp_abs_def up_links_snoc)
  then show ?thesis using Accept spec_none [of tcp_abs] by (simp add: tcp_step_def)
next
  case (Poll i)
  have "\<exists>S'. (spec_step (tc_gate K) (tc_service K))\<^sup>*\<^sup>* S S' \<and> tcp_abs (handle_connection K i s) S'"
  proof (cases "i < length (ts_tasks s)")
    case True
    have "tcp_holds i key l S" if "ts_tasks s ! i = Up key l" for key l
      using a that True by (auto simp: tcp_holds_def tcp_abs_def up_links_def)
    then show ?thesis
      using True tcp_sim_shake [OF a True] tcp_sim_round [OF a] spec_none [of tcp_abs s S, OF a]
      by (cases "ts_tasks s ! i") (auto simp: handle_connection_def)
  qed (use spec_none [of tcp_abs s S, OF a] in \<open>simp add: handle_connection_def\<close>)
  then show ?thesis by (simp add: Poll tcp_step_def)
next
  case (TcpPublish src ev lag)
  then show ?thesis using tcp_sim_forward [OF subset_refl a] by (simp add: tcp_step_def)
qed (use tcp_sim_stream [OF a] tcp_abs_cong [OF a, of "s\<lparr>ts_listening := False\<rparr>"] in \<open>auto simp: tcp_step_def intro: spec_none\<close>)

interpretation tcp_sessions: session_server "tcp_step K" "tc_gate K" "tc_service K" tcp_abs
  by unfold_locales (rule tcp_simulation)

subsection \<open>Properties\<close>


text \<open>
  C5. The TCP server keeps the same contract, with the number of a connection for the address of a
  client: a connection that is served has joined with the very static key of its handshake.
\<close>

theorem tcp_refines_sessions:
  "\<exists>S. (spec_step (tc_gate K) (tc_service K))\<^sup>*\<^sup>* no_sessions S \<and>
     tcp_abs (foldl (tcp_step K) tcp_start es) S \<and> entitled (tc_gate K) (tc_service K) S"
  by (rule tcp_sessions.run_entitled [OF tcp_abs_start])

end
