(* ===== verification/Spec2Isabelle.thy ===== *)
theory Spec2Isabelle
  imports Udp_Retransmit Udp_Refusal Udp_Round_Trip Tcp_Subscription Session_Spec
begin

text \<open>
  \<^bold>\<open>Verification of vaiexia-obfs\<close>

  The program is an obfuscated transport for a remote procedure call protocol: envelopes (requests,
  responses, events, subscriptions, pings) travel between a client and a server over Noise-XK
  sessions, either on TCP, where frames are shaped by a mimicry profile, or on UDP, where records are
  sealed one per datagram. The TCP client can dial through a chain of SOCKS5 and HTTP CONNECT proxies.
  Paths below are relative to \<^verbatim>\<open>src/src/\<close>.

  \<^bold>\<open>How the code is modelled\<close>

  \<^item> \<open>Obfs_Prelude\<close> has words, byte lists, hash maps as finite maps, and the interfaces \<open>codec\<close>,
    \<open>canonical_codec\<close> (wire formats) and \<open>step_invariant\<close> (state machines). \<open>Rust_Std\<close> has the string
    functions of the standard library that the sources call, and the grammars of what they accept.
  \<^item> \<open>Async_IO\<close> has the error enum of \<^verbatim>\<open>lib.rs\<close>, byte streams with arbitrary segmentation, end of
    input and write failure, and futures that are ready or \<open>Blocked\<close>. An early return with \<^verbatim>\<open>?\<close> is
    \<open>io_bind\<close>.
  \<^item> What the crate imports is an argument: Noise (\<open>noise_api\<close>), sessions (\<open>session_api\<close>), records
    (\<open>record_api\<close>), mimicry profiles, cookies, the JSON coder (\<open>serde\<close>), the keyed hash, the service,
    the filter of event streams (\<open>dedup\<close>), random generators. What is relied on is a named predicate (\<open>frame_contract\<close>, \<open>session_contract\<close>,
    \<open>duplex_contract\<close>, \<open>tcp_noise_contract\<close>, \<open>record_contract\<close>, \<open>cookie_contract\<close>, \<open>mimicry_ok\<close>,
    \<open>serde_ok\<close>, \<open>sealable\<close>, \<open>hs_fits\<close>, \<open>mac_ok\<close>, \<open>noise_binding\<close>, \<open>noise_pins\<close>, \<open>dedup_contract\<close>), and each has a
    concrete instance on which the theorems are evaluated.
  \<^item> A program of several tasks is a state machine: a record of what the tasks own and share, and one
    event per step of one task. An interleaving is a list of events, and what is proved of all lists
    holds of all interleavings.

  \<^bold>\<open>The parts\<close>

  \<^item> \<open>Envelope\<close> (\<^verbatim>\<open>envelope.rs\<close>): the enum, and what the transport sees of requests, responses,
    events and the service.
  \<^item> \<open>Verifier\<close> (\<^verbatim>\<open>verifier.rs\<close>): the gates; the allow-list accepts exactly its keys.
  \<^item> \<open>Framing\<close> (\<^verbatim>\<open>framing.rs\<close>): \<open>send_frame\<close>, \<open>recv_frame\<close>, \<open>send_raw\<close>, \<open>recv_raw\<close> and the wrappers.
    Envelopes arrive in order whatever the segmentation; a cancelled receive loses nothing; end of
    input is classified; the older \<open>read_frame\<close> loses frames.
  \<^item> \<open>Noise_Api\<close>, \<open>Handshake_IO\<close> (\<^verbatim>\<open>handshake_io.rs\<close>): both sides of the TCP handshake, which
    complete with each other and end with matching sessions.
  \<^item> \<open>Proxy_Tunnel\<close> states what a negotiation owes the code that dials through it, as the interface
    \<open>tunnel\<close>, with the calculus of transcripts that characterises when an action succeeds, what it
    consumed and what it wrote. \<open>Proxy_Socks5\<close> (\<^verbatim>\<open>proxy/socks5.rs\<close>), \<open>Proxy_Http\<close>
    (\<^verbatim>\<open>proxy/http_connect.rs\<close>, with Base64) and \<open>Proxy\<close> (\<^verbatim>\<open>proxy/mod.rs\<close>) show that the dialers
    succeed exactly on the conversations of a grammar (the lines of a CONNECT request, header blocks,
    status lines, addresses), and that a chain is the concatenation of its hops, each asked for the next.
  \<^item> \<open>Tcp_Link\<close>: one end of an established connection, as both pump loops own it, and the relations
    between envelopes and the bytes that carry them.
  \<^item> \<open>Tcp_Server\<close> (\<^verbatim>\<open>server.rs\<close>): accept loop, connection tasks, subscription tasks. Only accepted
    keys are served; requests are answered in order.
  \<^item> \<open>Pending_Calls\<close>: the table of pending requests with its oneshot channels, the broadcast of events,
    and the stream of a subscription behind its filter, which both clients share. \<open>Tcp_Client\<close>, \<open>Tcp_Client_Safety\<close> (\<^verbatim>\<open>client.rs\<close>): connecting,
    calls, subscriptions, the pump. Responses match their requests; a lost connection ends the calls
    that wait; one race leaves a call waiting forever.
  \<^item> \<open>Tcp_Round_Trip\<close>, \<open>Tcp_Subscription\<close> and the theorems below: TCP client and server together. A call
    returns the service's response; the stream of a subscription yields its events all and in order.
  \<^item> \<open>Wire_Dgram\<close>, \<open>Udp_Keys\<close>, \<open>Cookie_Gate\<close>, \<open>Dataplane\<close> (the files of these names under \<^verbatim>\<open>udp/\<close>): inner
    framing, key derivation, load gates, and the data channel, which delivers each record at most
    once and in any order.
  \<^item> \<open>Socket_Addr\<close>, \<open>Udp_Handshake\<close> (\<^verbatim>\<open>udp/handshake.rs\<close>): both sides of the UDP handshake with cookies
    and retransmission. It always ends, and the client reports success only after the server has
    proved, with the seed of this very attempt, that it completed.
  \<^item> \<open>Udp_Server\<close>, \<open>Udp_Server_Safety\<close> (\<^verbatim>\<open>udp/server.rs\<close>): the datagram handler and its tasks; bounded
    state, flood resistance, admission, and where the limits fail. \<open>Udp_Serve\<close>: starting, the end of the
    receive loop and the shutdown, which asks the runtime to cancel two tasks; once they are cancelled
    the service has stopped, but not the subscriptions.
  \<^item> \<open>Udp_Client\<close> (\<^verbatim>\<open>udp/client.rs\<close>): calls with up to 11 tries; every call returns.
  \<^item> \<open>Udp_Session\<close>, \<open>Udp_Establish\<close>: UDP client and server together. The handshake, with or without a
    cookie, ends in a session whose channels feed each other, and in a session a call survives the loss
    of requests and replies and events reach their subscribers. \<open>Udp_Round_Trip\<close> composes the two:
    connect, then call. \<open>Udp_Retransmit\<close>: an attempt in which the first message is repeated before its
    answer arrives fails. \<open>Udp_Refusal\<close>: a client with the wrong server key gives up after 36 datagrams
    and leaves no trace at the server; three forged answers defeat the handshake.
  \<^item> \<open>Session_Spec\<close>: what a server promises whatever the transport, as an abstract machine of clients
    that join, are served, are granted topics, are notified and leave. The interface \<open>session_server\<close> is
    the simulation of that machine; the UDP and the TCP server are its two instances.
  \<^item> \<open>Demo_Serde\<close> and the definitions named \<open>demo\<close>, \<open>echo\<close> or \<open>idle\<close> are concrete arguments for
    evaluation.

  \<^bold>\<open>Bounds and termination\<close>

  No definition uses fuel. Receive loops and the HTTP read loop terminate by a measure (unread input,
  room left in the buffer); the UDP handshake recurses on its counters of tries; the retry loop of a
  UDP call is a state machine whose variant is at most 44 turns.

  \<^bold>\<open>Not modelled\<close>

  The cryptography, mimicry and core crates, which are not part of the sources: what the code calls of
  them, the deduplication of event streams included, is an argument, and so is the coder that serde
  derives for envelopes; binding and resolving addresses, whose results are arguments; how long a jitter
  or an interval lasts, since only the order of steps matters; module declarations, re-exports and tests.
\<close>

subsection \<open>Connecting through proxies\<close>

lemma open_stream_chain:
  assumes "tcp (proxy_addr cfg) = Inr st" and "tx_cap st = None" and "parse_addr addr = Inr (host, port)"
    and "chain_conversation (hops_of cfg) host port c v" and "flat st = c @ rest"
  obtains st' where "open_stream tcp addr (Some cfg) = Ok st'" and "flat st' = rest" and "tx st' = tx st @ v" and "tx_cap st' = None"
proof -
  have "accepts (tunnel_hops (hops_of cfg) host port) c v ()"
    using assms(4) accepts_tunnel_hops [of "hops_of cfg"] by (simp add: hops_of_def del: tunnel_hops.simps)
  from acceptsD [OF this assms(2,5)] obtain st' where
    "tunnel_hops (hops_of cfg) host port st = (Ok (), st')" "flat st' = rest" "tx st' = tx st @ v" "tx_cap st' = None" by blast
  then show thesis using that assms(1,3) by (simp add: open_stream_def dial_def hops_of_def)
qed

text \<open>
  C11. A client that connects through a chain of proxies ends up with a session that matches the
  server's. For the conversation of the proxies there is a dialogue of the two handshakes such that
  the client, given the replies of the hops and then the server's message on one stream, connects,
  has written the requests of the hops and then its own messages, and keeps whatever the server sent
  next; and the server, given the client's messages, finishes with the matching session and the
  client's key.
\<close>

theorem connect_through_proxies:
  assumes "frame_contract (tcp_profile T)" and "preamble_contract (tcp_profile T)" and "frame_total (tcp_profile T) 128"
    and "tcp_noise_contract T pub fwd" and "length client = 32" and "length server = 32"
    and "parse_addr addr = Inr (host, port)" and "chain_conversation (hops_of cfg) host port c v"
  shows "\<exists>pre w1 w2 w3 si sr. fwd si sr \<and> fwd sr si \<and>
    (\<forall>st rest tcp. tcp (proxy_addr cfg) = Inr st \<longrightarrow> tx_cap st = None \<longrightarrow> flat st = c @ w2 @ rest \<longrightarrow>
       (\<exists>t. connect T tcp e g g1 addr client (pub server) (Some cfg) cap = Ok t \<and> lk_session (ot_link t) = si \<and>
          unread (ot_link t) = rest \<and> tx (lk_stream (ot_link t)) = tx st @ v @ pre @ w1 @ w3)) \<and>
    (\<forall>st rest. tx_cap st = None \<longrightarrow> flat st = pre @ w1 @ w3 @ rest \<longrightarrow>
       (\<exists>st' buf. server_handshake_in_place T e' g' server st = (Ok (sr, Some (pub client), buf), st') \<and>
          buf @ flat st' = rest \<and> tx st' = tx st @ w2))"
proof -
  obtain w1 w2 w3 pre si sr where
    d: "dialogue T e e' g g' client (pub server) server (pub client) w1 w2 w3 pre si sr"
    and p: "pre = fst (preamble (tcp_profile T) g)" and f: "fwd si sr" "fwd sr si"
    using dialogue_exists [OF assms(4,3,5,6)] by blast
  have l: "length pre = preamble_skip (tcp_profile T)" using assms(2) p by (simp add: preamble_contract_def)
  have "\<exists>t. connect T tcp e g g1 addr client (pub server) (Some cfg) cap = Ok t \<and> lk_session (ot_link t) = si \<and>
      unread (ot_link t) = rest \<and> tx (lk_stream (ot_link t)) = tx st @ v @ pre @ w1 @ w3"
    if tcp: "tcp (proxy_addr cfg) = Inr st" "tx_cap st = None" "flat st = c @ w2 @ rest" for st rest tcp
  proof -
    obtain st1 where "open_stream tcp addr (Some cfg) = Ok st1" "flat st1 = w2 @ rest" "tx st1 = tx st @ v" "tx_cap st1 = None"
      using open_stream_chain [of tcp cfg, OF tcp(1,2) assms(7,8) tcp(3)] by metis
    with dialogue_client(1) [OF assms(1) d, of st1 rest] show ?thesis
      by (auto simp: connect_def new_transport_def unread_def)
  qed
  then show ?thesis using f dialogue_server(1) [OF assms(1) l d] by blast
qed

theorem connect_through_proxies_witness:
  "\<exists>pre w1 w2 w3 si sr. duplex_fwd si sr \<and> duplex_fwd sr si \<and>
    (\<forall>st rest tcp. tcp (proxy_addr demo_proxy) = Inr st \<longrightarrow> tx_cap st = None \<longrightarrow>
       flat st = ([5, 0, 5, 0, 0, 1, 0, 0, 0, 0, 0, 0] @ str_bytes demo_response) @ w2 @ rest \<longrightarrow>
       (\<exists>t. connect demo_tcp tcp 0 0 0 ''a:443'' demo_key (id demo_key) (Some demo_proxy) None = Ok t \<and>
          lk_session (ot_link t) = si \<and> unread (ot_link t) = rest \<and>
          tx (lk_stream (ot_link t)) =
            tx st @ ([5, 1, 0, 5, 1, 0, 3, 1, 113, 0, 2] @ connect_request ''a'' 443 None) @ pre @ w1 @ w3)) \<and>
    (\<forall>st rest. tx_cap st = None \<longrightarrow> flat st = pre @ w1 @ w3 @ rest \<longrightarrow>
       (\<exists>st' buf. server_handshake_in_place demo_tcp 0 0 demo_key st = (Ok (sr, Some (id demo_key), buf), st') \<and>
          buf @ flat st' = rest \<and> tx st' = tx st @ w2))"
proof (rule connect_through_proxies [OF _ _ _ demo_tcp_noise])
  show "parse_addr ''a:443'' = Inr (''a'', 443)"
    by (simp add: parse_addr_def parse_u16_def is_digit_def)
  show "chain_conversation (hops_of demo_proxy) ''a'' 443 ([5, 0, 5, 0, 0, 1, 0, 0, 0, 0, 0, 0] @ str_bytes demo_response)
      ([5, 1, 0, 5, 1, 0, 3, 1, 113, 0, 2] @ connect_request ''a'' 443 None)" by (rule demo_chain)
qed (simp_all add: demo_tcp_def short_frames_contract short_frames_total short_frames_preamble demo_key_def)

subsection \<open>A request and its response\<close>

text \<open>
  C1. A remote call over TCP is a call of the service. Let an idle client and an idle served
  connection have matching sessions. The caller's request leaves the client as some bytes; in
  whatever segments these reach the server, one round of the connection hands exactly this request
  to the service and writes some bytes; in whatever segments those reach the client, one round of
  its pump and one poll complete the call with the service's response.
\<close>

theorem tcp_round_trip:
  assumes fc: "frame_contract (tcp_profile (tc_ctx K))" and dc: "duplex_contract (tcp_session (tc_ctx K)) fwd"
    and send: "sendable (tc_ctx K) (tc_json K) (Request req)" and sv: "servable K req"
    and id: "\<And>log. resp_id (svc_handle (tc_service K) log req) = req_id req"
    and c: "idle_transport c" and up: "up_links s i key l" and idle: "idle_link l"
    and there: "fwd (lk_session (ot_link c)) (lk_session l)" and home: "fwd (lk_session l) (lk_session (ot_link c))"
  shows "let k = length (ot_calls c);
      c1 = foldl (client_step (tc_ctx K) (tc_json K)) c [Call req, CallSend k, PumpRound]
    in \<exists>w. tx (lk_stream (ot_link c1)) = tx (lk_stream (ot_link c)) @ w \<and>
         (\<forall>cs. concat cs = w \<longrightarrow>
           (let s1 = foldl (tcp_step K) s [Input i cs Open, Poll i]
            in \<exists>l1 v. up_links s1 i key l1 \<and> ts_handled s1 = ts_handled s @ [req] \<and>
                 tx (lk_stream l1) = tx (lk_stream l) @ v \<and>
                 (\<forall>ds. concat ds = v \<longrightarrow>
                   call_phase (ot_calls (foldl (client_step (tc_ctx K) (tc_json K)) c1
                     [NetInput ds Open, PumpRound, CallPoll k]) ! k) =
                   Done (Inr (svc_handle (tc_service K) (ts_handled s) req)))))"
proof -
  let ?T = "tc_ctx K"
  let ?J = "tc_json K"
  have inv: "client_inv c" using c by (simp add: idle_transport_def)
  from client_sends [OF c send dc] obtain c1 w where
    c1: "foldl (client_step ?T ?J) c [Call req, CallSend (length (ot_calls c)), PumpRound] = c1"
    and p: "ot_pump c1 = Looping" "ot_table c1 = insert_new (req_id req) (ot_table c)"
      "ot_calls c1 = ot_calls c @ [\<lparr>call_req = req, call_phase = Awaiting\<rparr>]" "idle_link (ot_link c1)"
    and w: "tx (lk_stream (ot_link c1)) = tx (lk_stream (ot_link c)) @ w"
    and fr: "frames ?T ?J (lk_session (ot_link c)) [Request req] w (lk_session (ot_link c1))"
    and keep: "\<And>x. fwd x (lk_session (ot_link c)) \<Longrightarrow> fwd x (lk_session (ot_link c1))" by metis
  have "\<exists>l1 v. up_links (foldl (tcp_step K) s [Input i cs Open, Poll i]) i key l1 \<and>
      ts_handled (foldl (tcp_step K) s [Input i cs Open, Poll i]) = ts_handled s @ [req] \<and>
      tx (lk_stream l1) = tx (lk_stream l) @ v \<and>
      (\<forall>ds. concat ds = v \<longrightarrow>
         call_phase (ot_calls (foldl (client_step ?T ?J) c1 [NetInput ds Open, PumpRound, CallPoll (length (ot_calls c))])
           ! length (ot_calls c)) = Done (Inr (svc_handle (tc_service K) (ts_handled s) req)))"
    if cs: "concat cs = w" for cs
  proof -
    from server_answers [OF fc dc sv fr up idle there cs] obtain l1 v where
      s1: "up_links (foldl (tcp_step K) s [Input i cs Open, Poll i]) i key l1"
        "ts_handled (foldl (tcp_step K) s [Input i cs Open, Poll i]) = ts_handled s @ [req]"
        "tx (lk_stream l1) = tx (lk_stream l) @ v"
      and rc: "\<And>x. fwd (lk_session l) x \<Longrightarrow>
        \<exists>x'. receives ?T ?J x [Response (svc_handle (tc_service K) (ts_handled s) req)] v x'" by metis
    obtain x' where "receives ?T ?J (lk_session (ot_link c1)) [Response (svc_handle (tc_service K) (ts_handled s) req)] v x'"
      using rc keep [OF home] by blast
    from client_gets [OF fc inv p this _ id] s1 show ?thesis by blast
  qed
  then show ?thesis unfolding Let_def c1 using w by blast
qed

lemma echo_request_sendable: "sendable demo_tcp plain_serde (Request ask)"
  by (rule demo_sendable [of "[2, 97]"]) (simp_all add: plain_to_vec_eq ask_def)

theorem tcp_round_trip_witness:
  "let s = tcp_start\<lparr>ts_tasks := [Up [] (ot_link idle_client)]\<rparr>;
       c1 = foldl (client_step (tc_ctx echo_cfg) (tc_json echo_cfg)) idle_client
         [Call ask, CallSend (length (ot_calls idle_client)), PumpRound]
   in \<exists>w. tx (lk_stream (ot_link c1)) = tx (lk_stream (ot_link idle_client)) @ w \<and>
        (\<forall>cs. concat cs = w \<longrightarrow>
          (let s1 = foldl (tcp_step echo_cfg) s [Input 0 cs Open, Poll 0]
           in \<exists>l1 v. up_links s1 0 [] l1 \<and> ts_handled s1 = ts_handled s @ [ask] \<and>
                tx (lk_stream l1) = tx (lk_stream (ot_link idle_client)) @ v \<and>
                (\<forall>ds. concat ds = v \<longrightarrow>
                  call_phase (ot_calls (foldl (client_step (tc_ctx echo_cfg) (tc_json echo_cfg)) c1
                    [NetInput ds Open, PumpRound, CallPoll (length (ot_calls idle_client))]) ! length (ot_calls idle_client)) =
                  Done (Inr (svc_handle (tc_service echo_cfg) (ts_handled s) ask)))))"
proof -
  have l: "idle_link (ot_link idle_client)" "idle_transport idle_client"
    "duplex_fwd (lk_session (ot_link idle_client)) (lk_session (ot_link idle_client))"
    using client_inv_start [of "new_stream [] Open" "(0, 0)" "[]" 0 None]
    by (simp_all add: idle_transport_def idle_link_def idle_client_def new_transport_def unread_def new_stream_def flat_def duplex_fwd_def)
  have k: "frame_contract (tcp_profile (tc_ctx echo_cfg))" "duplex_contract (tcp_session (tc_ctx echo_cfg)) duplex_fwd"
    "sendable (tc_ctx echo_cfg) (tc_json echo_cfg) (Request ask)" "servable echo_cfg ask"
    "\<And>log. resp_id (svc_handle (tc_service echo_cfg) log ask) = req_id ask"
    using echo_servable echo_request_sendable
    by (simp_all add: echo_cfg_def ask_def demo_tcp_def short_frames_contract duplex_contract_duplex)
  have u: "up_links (tcp_start\<lparr>ts_tasks := [Up [] (ot_link idle_client)]\<rparr>) 0 [] (ot_link idle_client)" by (simp add: up_links_def)
  show ?thesis using tcp_round_trip [where fwd = duplex_fwd, OF k l(2) u l(1,3,3)] unfolding Let_def .
qed

end
